(* ===== verification/Carbon_Prelude.thy ===== *)
theory Carbon_Prelude
  imports Main "HOL-Library.Word"
begin

text \<open>
  Shared vocabulary of the development: the Rust standard types the crate uses (\<open>Poll\<close>,
  \<open>Result\<close>, \<open>usize\<close>, \<open>u32\<close>, wakers), the integer operations whose overflow behaviour is part
  of the code (\<open>saturating_sub\<close>, \<open>saturating_add\<close>, \<open>checked_add\<close>, \<open>usize::try_from\<close>), and the
  generic lemmas on lists, sums and machine words that the components share.
\<close>

section \<open>Rust types\<close>

text \<open>\<open>std::task::Poll\<close> and \<open>Result\<close>, with the constructors of the standard library.\<close>

datatype 'a poll = Pending | Ready 'a

datatype ('a, 'e) result = Ok 'a | Err 'e

text \<open>
  \<open>usize\<close> is 64 bits wide. Logical stream positions, which the code lets wrap around, are
  \<open>usize\<close> words. Sizes that the code bounds (capacities, list lengths) are natural numbers; the
  invariants of the components show that they stay within \<open>usize\<close>. A waker is identified by
  the task it wakes, so \<open>will_wake\<close> is equality.
\<close>

type_synonym usize = "64 word"
type_synonym u32 = "32 word"
type_synonym waker = nat

definition usize_max :: nat where
  "usize_max = 2 ^ 64 - 1"

text \<open>\<open>usize::saturating_add\<close>; \<open>saturating_sub\<close> is subtraction on natural numbers.\<close>

definition usize_saturating_add :: "nat \<Rightarrow> nat \<Rightarrow> nat" where
  "usize_saturating_add a b = min (a + b) usize_max"

text \<open>\<open>u32::saturating_add(1)\<close>.\<close>

definition u32_saturating_inc :: "u32 \<Rightarrow> u32" where
  "u32_saturating_inc x = (if x = - 1 then x else x + 1)"

text \<open>\<open>usize::checked_add\<close> on word positions.\<close>

definition usize_checked_add :: "usize \<Rightarrow> usize \<Rightarrow> usize option" where
  "usize_checked_add a b = (if unat a + unat b < 2 ^ 64 then Some (a + b) else None)"

text \<open>\<open>usize::try_from(u32)\<close>.\<close>

definition usize_try_from :: "u32 \<Rightarrow> usize option" where
  "usize_try_from c = (if unat c < 2 ^ 64 then Some (ucast c) else None)"

text \<open>\<open>MAX_POLL_OPS\<close> of \<open>src/lib.rs\<close>: the polling budget of one call of a scheduler.\<close>

definition max_poll_ops :: nat where
  "max_poll_ops = 256"

section \<open>Words\<close>

named_theorems carbon_word \<open>reading words as natural numbers\<close>

lemma unat_u32_less: "unat (c :: u32) < 2 ^ 32"
  using unsigned_less [of c] by simp

lemma unat_u32_less_usize: "unat (c :: u32) < 2 ^ 64"
  using unat_u32_less [of c] by simp

lemma unat_ucast_u32 [simp, carbon_word]: "unat (ucast (c :: u32) :: usize) = unat c"
  proof -
  have "unat (ucast c :: usize) = take_bit 64 (unat c)"
    by (simp add: unsigned_ucast_eq)
  also have "\<dots> = unat c"
    using unat_u32_less_usize [of c] by (simp only: take_bit_nat_eq_self)
  finally show ?thesis .
qed

lemma usize_try_from_Some [simp]: "usize_try_from c = Some (ucast c)"
  by (simp only: usize_try_from_def unat_u32_less_usize if_True)

lemma u32_less_Suc: "(x :: u32) < y \<Longrightarrow> unat (x + 1) = Suc (unat x)"
  proof -
  assume "x < y"
  then have "unat x + 1 < 2 ^ 32"
    using unat_u32_less [of y] by (simp add: word_less_nat_alt)
  then show ?thesis
    by (simp add: unat_plus_if')
qed

lemma u32_saturating_inc_less [simp]:
  "(x :: u32) < y \<Longrightarrow> unat (u32_saturating_inc x) = Suc (unat x)"
proof -
  assume "x < y"
  then have "x \<noteq> - 1"
    using word_order.extremum_strict [of y] by (metis)
  with \<open>x < y\<close> show ?thesis
    by (simp add: u32_saturating_inc_def u32_less_Suc)
qed

lemma unat_of_nat_usize [carbon_word]: "n < 2 ^ 64 \<Longrightarrow> unat (of_nat n :: usize) = n"
  by (simp add: unat_of_nat)

text \<open>A rotating cursor visits every position in one turn.\<close>

lemma rotation_covers:
  assumes "0 < n" "i < n"
  shows "\<exists>k < n. (c + k) mod n = (i :: nat)"
proof (intro exI conjI)
  show "(i + n - c mod n) mod n < n" using assms by simp
  have "(c + (i + n - c mod n) mod n) mod n = (c mod n + (i + n - c mod n)) mod n"
    by (simp add: mod_simps)
  also have "c mod n + (i + n - c mod n) = i + n"
    using assms mod_less_divisor [of n c] by linarith
  finally show "(c + (i + n - c mod n) mod n) mod n = i" using assms by simp
qed

section \<open>Evaluation\<close>

text \<open>Code equations that compare with \<open>2 ^ 64\<close> on binary integers, not on unary naturals.\<close>

lemma usize_saturating_add_code [code]:
  "usize_saturating_add a b = nat (min (int a + int b) 18446744073709551615)"
  by (simp add: usize_saturating_add_def usize_max_def min_def nat_add_distrib)

lemma usize_checked_add_code [code]:
  "usize_checked_add a b =
     (if uint a + uint b < 18446744073709551616 then Some (a + b) else None)"
proof -
  have "unat a + unat b < 2 ^ 64 \<longleftrightarrow> int (unat a + unat b) < int (2 ^ 64)"
    by (rule of_nat_less_iff [symmetric])
  then show ?thesis by (simp add: usize_checked_add_def)
qed

lemma usize_try_from_code [code]: "usize_try_from c = Some (ucast c)" by simp

section \<open>A measure in two parts\<close>

definition fewer :: "((nat \<times> nat) \<times> nat \<times> nat) set" where
  "fewer = less_than <*lex*> less_than"

lemma fewer_iff [simp]: "((a, b), (c, d)) \<in> fewer \<longleftrightarrow> a < c \<or> a = c \<and> b < d"
  by (auto simp: fewer_def)

lemma wf_fewer: "wf fewer"
  by (simp add: fewer_def wf_lex_prod)

lemma fewer_trans: "(a, b) \<in> fewer \<Longrightarrow> (b, c) \<in> fewer \<Longrightarrow> (a, c) \<in> fewer"
  by (cases a; cases b; cases c) auto

lemma fewer_trans_eq: "(a, b) \<in> fewer \<Longrightarrow> b = c \<or> (b, c) \<in> fewer \<Longrightarrow> (a, c) \<in> fewer"
  "a = b \<or> (a, b) \<in> fewer \<Longrightarrow> (b, c) \<in> fewer \<Longrightarrow> (a, c) \<in> fewer"
  by (auto intro: fewer_trans)

lemma sums_fewer:
  fixes f g :: "'x \<Rightarrow> nat"
  assumes "i < length xs" and "f y < f (xs ! i) \<or> f y = f (xs ! i) \<and> g y < g (xs ! i)"
  shows "((\<Sum>x \<leftarrow> xs[i := y]. f x, \<Sum>x \<leftarrow> xs[i := y]. g x), (\<Sum>x \<leftarrow> xs. f x, \<Sum>x \<leftarrow> xs. g x)) \<in> fewer"
proof -
  have "sum_list (map h (xs[i := y])) + h (xs ! i) = sum_list (map h xs) + (h y :: nat)" for h
    using assms(1) by (induction xs arbitrary: i) (auto simp: nth_Cons' split: nat.splits)
  from this [of f] this [of g] assms(2) show ?thesis by auto
qed

end
