(* ===== verification/Carbon_Error.thy ===== *)
theory Carbon_Error
  imports Carbon_Prelude
begin

text \<open>
  The error values of \<open>src/error.rs\<close>, \<open>src/read.rs\<close> (\<open>PushError\<close>) and \<open>src/write.rs\<close>
  (\<open>WriteError\<close>): their variants, their \<open>Display\<close> texts, their \<open>source\<close> chains and the \<open>From\<close>
  conversions that the \<open>?\<close> operator applies. Errors of a backend or of an input are opaque
  values of a type variable; their own \<open>Display\<close> is the argument \<open>show\<close>.
\<close>

section \<open>Contract errors\<close>

datatype contract_error =
    ZeroFrameCount
  | ZeroFrameCapacity
  | UnexpectedEof
  | MissingWriteFile
  | FrameCapacityExceedsBudget
  | ZeroBudget
  | InvalidWindow
  | InvalidBudgetRequest
  | InvalidFramePosition
  | InputClosed
  | AdmissionNotReady
  | InvalidPartialFrame

fun contract_error_fmt :: "contract_error \<Rightarrow> string" where
  "contract_error_fmt ZeroFrameCount = ''read frame count must be nonzero''"
| "contract_error_fmt ZeroFrameCapacity = ''write frame capacity must be nonzero''"
| "contract_error_fmt UnexpectedEof = ''reader ended before its declared frame count''"
| "contract_error_fmt MissingWriteFile = ''no destination for the next input frame''"
| "contract_error_fmt FrameCapacityExceedsBudget =
     ''replayable file exceeds the global frame budget''"
| "contract_error_fmt ZeroBudget = ''frame budget must be nonzero''"
| "contract_error_fmt InvalidWindow = ''target frames and active file limit must be nonzero''"
| "contract_error_fmt InvalidBudgetRequest =
     ''budget request requires minimum <= desired <= total capacity''"
| "contract_error_fmt InvalidFramePosition =
     ''frame position is outside the available read buffer''"
| "contract_error_fmt InputClosed = ''scheduler input is closed''"
| "contract_error_fmt AdmissionNotReady = ''admission requires a readiness reservation''"
| "contract_error_fmt InvalidPartialFrame =
     ''partial frame must start empty and incomplete and complete nonempty''"

section \<open>Errors of the read scheduler\<close>

datatype 'e scheduler_error =
    Backend (scheduler_backend: 'e)
  | Contract contract_error

fun scheduler_error_fmt :: "('e \<Rightarrow> string) \<Rightarrow> 'e scheduler_error \<Rightarrow> string" where
  "scheduler_error_fmt show (Backend e) = ''backend: '' @ show e"
| "scheduler_error_fmt show (Contract e) = contract_error_fmt e"

text \<open>The value that \<open>source\<close> exposes, of either type.\<close>

fun scheduler_error_source :: "'e scheduler_error \<Rightarrow> ('e + contract_error) option" where
  "scheduler_error_source (Backend e) = Some (Inl e)"
| "scheduler_error_source (Contract e) = Some (Inr e)"

definition scheduler_error_from :: "contract_error \<Rightarrow> 'e scheduler_error" where
  "scheduler_error_from error = Contract error"

datatype push_error =
    Full
  | PushClosed
  | PushContract contract_error

fun push_error_fmt :: "push_error \<Rightarrow> string" where
  "push_error_fmt Full = ''read file window is full''"
| "push_error_fmt PushClosed = ''read file admission is closed''"
| "push_error_fmt (PushContract error) = contract_error_fmt error"

fun push_error_source :: "push_error \<Rightarrow> contract_error option" where
  "push_error_source (PushContract error) = Some error"
| "push_error_source _ = None"

section \<open>Errors of the write scheduler\<close>

datatype ('i, 'e) write_error =
    WInput 'i
  | WBackend 'e
  | WContract contract_error

fun write_error_fmt ::
    "('i \<Rightarrow> string) \<Rightarrow> ('e \<Rightarrow> string) \<Rightarrow> ('i, 'e) write_error \<Rightarrow> string" where
  "write_error_fmt show_input show_backend (WInput error) = ''input: '' @ show_input error"
| "write_error_fmt show_input show_backend (WBackend error) = ''backend: '' @ show_backend error"
| "write_error_fmt show_input show_backend (WContract error) = contract_error_fmt error"

datatype ('i, 'e) write_error_cause = InputCause 'i | BackendCause 'e | ContractCause contract_error

fun write_error_source :: "('i, 'e) write_error \<Rightarrow> ('i, 'e) write_error_cause option" where
  "write_error_source (WInput error) = Some (InputCause error)"
| "write_error_source (WBackend error) = Some (BackendCause error)"
| "write_error_source (WContract error) = Some (ContractCause error)"

definition write_error_from :: "contract_error \<Rightarrow> ('i, 'e) write_error" where
  "write_error_from error = WContract error"

section \<open>Facts\<close>

text \<open>Every variant has its own message, so a displayed contract error identifies its variant.\<close>

lemma contract_error_fmt_eq_iff [simp]:
  "contract_error_fmt a = contract_error_fmt b \<longleftrightarrow> a = b"
  by (cases a; cases b; simp)

end
