(* ===== verification/Carbon_Config.thy ===== *)
theory Carbon_Config
  imports Carbon_Error
begin

text \<open>
  \<open>src/config.rs\<close>: the window of a scheduler (buffering target, discovery horizon, active-file
  limit), its validation, and the scheduler configuration. Both schedulers hold the
  configuration by mutable borrow, so it is part of their state.
\<close>

record window =
  target_frames :: nat
  open_ahead_frames :: nat
  max_active_files :: nat

definition window_default :: window where
  "window_default = \<lparr>target_frames = 256, open_ahead_frames = 1024, max_active_files = 16\<rparr>"

definition window_validate :: "window \<Rightarrow> (unit, contract_error) result" where
  "window_validate w =
     (if target_frames w = 0 \<or> max_active_files w = 0 then Err InvalidWindow else Ok ())"

definition window_new :: "nat \<Rightarrow> nat \<Rightarrow> nat \<Rightarrow> (window, contract_error) result" where
  "window_new target ahead active =
     (let w = \<lparr>target_frames = target, open_ahead_frames = ahead, max_active_files = active\<rparr>
      in case window_validate w of Err e \<Rightarrow> Err e | Ok _ \<Rightarrow> Ok w)"

definition horizon :: "window \<Rightarrow> nat" where
  "horizon w = max (target_frames w) (open_ahead_frames w)"

definition with_target_frames :: "window \<Rightarrow> nat \<Rightarrow> window" where
  "with_target_frames w n = w\<lparr>target_frames := n\<rparr>"

definition with_open_ahead_frames :: "window \<Rightarrow> nat \<Rightarrow> window" where
  "with_open_ahead_frames w n = w\<lparr>open_ahead_frames := n\<rparr>"

definition with_max_active_files :: "window \<Rightarrow> nat \<Rightarrow> window" where
  "with_max_active_files w n = w\<lparr>max_active_files := n\<rparr>"

record scheduler_config =
  window :: window
  max_retries :: u32

definition config_default :: scheduler_config where
  "config_default = \<lparr>window = window_default, max_retries = 0\<rparr>"

definition config_new :: "window \<Rightarrow> u32 \<Rightarrow> scheduler_config" where
  "config_new w n = \<lparr>window = w, max_retries = n\<rparr>"

definition with_window :: "scheduler_config \<Rightarrow> window \<Rightarrow> scheduler_config" where
  "with_window c w = c\<lparr>window := w\<rparr>"

definition with_max_retries :: "scheduler_config \<Rightarrow> u32 \<Rightarrow> scheduler_config" where
  "with_max_retries c n = c\<lparr>max_retries := n\<rparr>"

section \<open>Facts\<close>

text \<open>A window is valid exactly when validation accepts it; the schedulers keep it valid.\<close>

definition valid_window :: "window \<Rightarrow> bool" where
  "valid_window w \<longleftrightarrow> 0 < target_frames w \<and> 0 < max_active_files w"

lemma window_validate_Ok [simp]: "window_validate w = Ok u \<longleftrightarrow> valid_window w"
  by (auto simp: window_validate_def valid_window_def)

lemma window_validate_cases:
  "window_validate w = (if valid_window w then Ok () else Err InvalidWindow)"
  by (auto simp: window_validate_def valid_window_def)

lemma valid_window_default [simp]: "valid_window window_default"
  by (simp add: valid_window_def window_default_def)

lemma horizon_ge_target [simp]: "target_frames w \<le> horizon w"
  by (simp add: horizon_def)

end
