(* ===== verification/Carbon_Budget.thy ===== *)
theory Carbon_Budget
  imports Carbon_Config
begin

text \<open>
  \<open>src/budget.rs\<close>: the shared frame budget and the permits that draw on it.

  The budget is the content of \<open>Arc<Mutex<State>>\<close>. The requests behind \<open>Arc<Mutex<Request>>\<close> live
  in a store addressed by \<open>rid\<close>: \<open>b_requests\<close> is the memory, \<open>b_alive\<close> says whether the strong
  reference (the permit) still exists, so that \<open>Weak::upgrade\<close> can fail, and \<open>b_next\<close> is the next
  free address. Every method holds the budget's lock for its whole critical section, so each is
  one atomic step on the store. Wakers that a method wakes after unlocking are its list result.
\<close>

section \<open>State\<close>

type_synonym rid = nat

record request =
  req_minimum :: nat
  req_desired :: nat
  req_granted :: nat
  req_waiting :: bool
  req_waker :: "waker option"

definition request_default :: request where
  "request_default =
     \<lparr>req_minimum = 0, req_desired = 0, req_granted = 0, req_waiting = False, req_waker = None\<rparr>"

record budget =
  b_total :: nat
  b_available :: nat
  b_waiters :: "rid list"
  b_requests :: "rid \<Rightarrow> request"
  b_alive :: "rid \<Rightarrow> bool"
  b_next :: rid

record permit =
  p_capacity :: nat
  p_request :: rid

definition upgrade :: "(rid \<Rightarrow> bool) \<Rightarrow> (rid \<Rightarrow> request) \<Rightarrow> rid \<Rightarrow> request option" where
  "upgrade alive requests r = (if alive r then Some (requests r) else None)"

section \<open>Operations\<close>

text \<open>
  \<open>State::dispatch\<close>: the loop over the front of the queue. Its result is the remaining capacity,
  the remaining queue, the requests and the wakers to wake, in order.
\<close>

fun dispatch_loop ::
    "(rid \<Rightarrow> bool) \<Rightarrow> nat \<Rightarrow> rid list \<Rightarrow> (rid \<Rightarrow> request)
      \<Rightarrow> nat \<times> rid list \<times> (rid \<Rightarrow> request) \<times> waker list" where
  "dispatch_loop alive available [] requests = (available, [], requests, [])"
| "dispatch_loop alive available (weak # waiters) requests =
     (case upgrade alive requests weak of
        None \<Rightarrow> dispatch_loop alive available waiters requests
      | Some request \<Rightarrow>
          if \<not> req_waiting request then dispatch_loop alive available waiters requests
          else if available < req_minimum request then (available, weak # waiters, requests, [])
          else
            let grant = (if available \<ge> req_desired request then req_desired request
                         else req_minimum request);
                request' = request\<lparr>req_granted := grant, req_waiting := False, req_waker := None\<rparr>;
                (available', waiters', requests', wakes) =
                  dispatch_loop alive (available - grant) waiters (requests(weak := request'))
            in (available', waiters', requests',
                (case req_waker request of Some waker \<Rightarrow> waker # wakes | None \<Rightarrow> wakes)))"

definition dispatch :: "budget \<Rightarrow> budget \<times> waker list" where
  "dispatch b =
     (let (available, waiters, requests, wakes) =
            dispatch_loop (b_alive b) (b_available b) (b_waiters b) (b_requests b)
      in (b\<lparr>b_available := available, b_waiters := waiters, b_requests := requests\<rparr>, wakes))"

definition budget_new :: "nat \<Rightarrow> budget" where
  "budget_new total_capacity =
     \<lparr>b_total = total_capacity, b_available = total_capacity, b_waiters = [],
      b_requests = (\<lambda>_. request_default), b_alive = (\<lambda>_. False), b_next = 0\<rparr>"

definition total_capacity :: "budget \<Rightarrow> nat" where
  "total_capacity b = b_total b"

definition available_capacity :: "budget \<Rightarrow> nat" where
  "available_capacity b = b_available b"

text \<open>\<open>FrameBudget::permit\<close> allocates the request and hands out an empty permit.\<close>

definition permit_new :: "budget \<Rightarrow> permit \<times> budget" where
  "permit_new b =
     (let r = b_next b
      in (\<lparr>p_capacity = 0, p_request = r\<rparr>,
          b\<lparr>b_requests := (b_requests b)(r := request_default),
            b_alive := (b_alive b)(r := True), b_next := Suc r\<rparr>))"

definition capacity :: "permit \<Rightarrow> nat" where
  "capacity p = p_capacity p"

definition poll_grow ::
    "waker \<Rightarrow> nat \<Rightarrow> nat \<Rightarrow> permit \<Rightarrow> budget
      \<Rightarrow> (unit, contract_error) result poll \<times> permit \<times> budget" where
  "poll_grow cx minimum desired p b =
     (if minimum > desired \<or> desired > b_total b then (Ready (Err InvalidBudgetRequest), p, b)
      else if p_capacity p \<ge> minimum then (Ready (Ok ()), p, b)
      else
        let r = p_request p;
            request = b_requests b r;
            p = p\<lparr>p_capacity := p_capacity p + req_granted request\<rparr>;
            request = request\<lparr>req_granted := 0\<rparr>;
            b = b\<lparr>b_requests := (b_requests b)(r := request)\<rparr>
        in if p_capacity p \<ge> minimum then (Ready (Ok ()), p, b)
           else if req_waiting request then
             let request =
                   (if (case req_waker request of None \<Rightarrow> True | Some old \<Rightarrow> old \<noteq> cx)
                    then request\<lparr>req_waker := Some cx\<rparr> else request)
             in (Pending, p, b\<lparr>b_requests := (b_requests b)(r := request)\<rparr>)
           else
             let need = minimum - p_capacity p;
                 want = desired - p_capacity p
             in if b_waiters b = [] \<and> b_available b \<ge> need then
                  let grant = (if b_available b \<ge> want then want else need)
                  in (Ready (Ok ()), p\<lparr>p_capacity := p_capacity p + grant\<rparr>,
                      b\<lparr>b_available := b_available b - grant\<rparr>)
                else
                  let request = request\<lparr>req_minimum := need, req_desired := want,
                                  req_waiting := True, req_waker := Some cx\<rparr>
                  in (Pending, p,
                      b\<lparr>b_requests := (b_requests b)(r := request),
                        b_waiters := b_waiters b @ [r]\<rparr>))"

definition shrink_to :: "nat \<Rightarrow> permit \<Rightarrow> budget \<Rightarrow> permit \<times> budget \<times> waker list" where
  "shrink_to n p b =
     (let r = p_request p;
          request = b_requests b r;
          keep = min (p_capacity p) n;
          released = req_granted request + (p_capacity p - keep);
          request' = request\<lparr>req_waiting := False, req_waker := None, req_granted := 0\<rparr>;
          (b', wakes) =
            dispatch (b\<lparr>b_available := b_available b + released,
                        b_requests := (b_requests b)(r := request'),
                        b_waiters := filter (\<lambda>entry. entry \<noteq> r) (b_waiters b)\<rparr>)
      in (p\<lparr>p_capacity := keep\<rparr>, b', wakes))"

text \<open>
  Dropping a permit shrinks it to zero and then frees its request, so that the weak entries that
  could still name it no longer upgrade.
\<close>

definition permit_drop :: "permit \<Rightarrow> budget \<Rightarrow> budget \<times> waker list" where
  "permit_drop p b =
     (let (p', b', wakes) = shrink_to 0 p b
      in (b'\<lparr>b_alive := (b_alive b')(p_request p' := False)\<rparr>, wakes))"

section \<open>Invariant\<close>

text \<open>
  \<open>caps\<close> gives the capacity that each live permit holds locally. A well-formed budget accounts for
  every frame once: what is available, what permits hold, and what is reserved for a permit
  that has not yet claimed it. Its queue holds exactly the live waiting requests, once each, and
  is quiescent: the head does not fit in what is available.
\<close>

definition request_ok :: "nat \<Rightarrow> nat \<Rightarrow> request \<Rightarrow> bool" where
  "request_ok tot cap q \<longleftrightarrow>
     0 < req_minimum q \<and> req_minimum q \<le> req_desired q \<and> cap + req_desired q \<le> tot \<and>
     req_granted q = 0 \<and> req_waker q \<noteq> None"

definition queue_ok :: "budget \<Rightarrow> bool" where
  "queue_ok b \<longleftrightarrow>
     distinct (b_waiters b) \<and>
     (\<forall>r. r \<in> set (b_waiters b) \<longleftrightarrow> b_alive b r \<and> req_waiting (b_requests b r))"

definition held :: "budget \<Rightarrow> (rid \<Rightarrow> nat) \<Rightarrow> nat" where
  "held b caps = (\<Sum>r | b_alive b r. caps r + req_granted (b_requests b r))"

definition quiescent :: "budget \<Rightarrow> bool" where
  "quiescent b \<longleftrightarrow>
     (b_waiters b \<noteq> [] \<longrightarrow> b_available b < req_minimum (b_requests b (hd (b_waiters b))))"

definition budget_inv :: "budget \<Rightarrow> (rid \<Rightarrow> nat) \<Rightarrow> bool" where
  "budget_inv b caps \<longleftrightarrow>
     (\<forall>r. b_alive b r \<longrightarrow> r < b_next b) \<and>
     queue_ok b \<and>
     (\<forall>r \<in> set (b_waiters b). request_ok (b_total b) (caps r) (b_requests b r)) \<and>
     b_available b + held b caps = b_total b \<and>
     quiescent b"

lemmas budget_inv_defs = budget_inv_def queue_ok_def quiescent_def

lemma budget_inv_finite: "budget_inv b caps \<Longrightarrow> finite {r. b_alive b r}"
  by (rule finite_subset [of _ "{..< b_next b}"]) (auto simp: budget_inv_def)

end
