(* ===== verification/Budget_Invariant.thy ===== *)
theory Budget_Invariant
  imports Carbon_Budget
begin

text \<open>
  The invariant of the shared budget: what the dispatch loop does to a well-formed queue, that
  every operation of a permit keeps the accounting, the queue and its quiescence, and what each
  operation promises its caller.
\<close>

section \<open>The dispatch loop\<close>

text \<open>
  On a queue of live waiting requests the loop serves a prefix \<open>served\<close>, in order, granting each
  between its minimum and its desired size, and stops at a request that does not fit.
\<close>

definition serve :: "nat \<Rightarrow> request \<Rightarrow> request" where
  "serve grant q = q\<lparr>req_granted := grant, req_waiting := False, req_waker := None\<rparr>"

lemma serve_sel [simp]:
  "req_granted (serve g q) = g" "\<not> req_waiting (serve g q)" "req_waker (serve g q) = None"
  "req_minimum (serve g q) = req_minimum q" "req_desired (serve g q) = req_desired q"
  by (simp_all add: serve_def)

lemma dispatch_loop_spec:
  assumes "dispatch_loop alive a ws R = (a', ws', R', wakes)"
    and "distinct ws"
    and "\<forall>r \<in> set ws. alive r \<and> req_waiting (R r) \<and> req_minimum (R r) \<le> req_desired (R r) \<and>
           req_waker (R r) \<noteq> None"
  shows "\<exists>served. ws = served @ ws' \<and>
     (\<forall>r. r \<notin> set served \<longrightarrow> R' r = R r) \<and>
     (\<forall>r \<in> set served. \<exists>g. R' r = serve g (R r) \<and>
        req_minimum (R r) \<le> g \<and> g \<le> req_desired (R r)) \<and>
     a' + (\<Sum>r \<leftarrow> served. req_granted (R' r)) = a \<and>
     wakes = map (\<lambda>r. the (req_waker (R r))) served \<and>
     (ws' \<noteq> [] \<longrightarrow> a' < req_minimum (R' (hd ws')))"
  using assms
proof (induction ws arbitrary: a R a' ws' R' wakes)
  case Nil
  then show ?case by simp
next
  case (Cons r ws)
  let ?q = "R r"
  from Cons.prems have live: "alive r" "req_waiting ?q" "req_minimum ?q \<le> req_desired ?q"
    and wk: "req_waker ?q \<noteq> None" and new: "r \<notin> set ws" "distinct ws"
    by auto
  show ?case
  proof (cases "a < req_minimum ?q")
    case True
    with Cons.prems(1) live have "a' = a" "ws' = r # ws" "R' = R" "wakes = []"
      by (auto simp: upgrade_def)
    with True show ?thesis by (intro exI [of _ "[]"]) simp
  next
    case False
    define g where "g = (if a \<ge> req_desired ?q then req_desired ?q else req_minimum ?q)"
    have g: "req_minimum ?q \<le> g" "g \<le> req_desired ?q" "g \<le> a"
      using False live by (auto simp: g_def)
    obtain a1 ws1 R1 wakes1 where
      rec: "dispatch_loop alive (a - g) ws (R(r := serve g ?q)) = (a1, ws1, R1, wakes1)"
      by (metis prod_cases4)
    from Cons.prems(1) False live wk rec
    have eqs: "a' = a1" "ws' = ws1" "R' = R1" "wakes = the (req_waker ?q) # wakes1"
      by (auto simp: upgrade_def g_def [symmetric] serve_def Let_def)
    have other: "(R(r := serve g ?q)) x = R x" if "x \<in> set ws" for x
      using that new by auto
    obtain served where s: "ws = served @ ws1"
      "\<forall>x. x \<notin> set served \<longrightarrow> R1 x = (R(r := serve g ?q)) x"
      "\<forall>x \<in> set served. \<exists>h. R1 x = serve h ((R(r := serve g ?q)) x) \<and>
        req_minimum ((R(r := serve g ?q)) x) \<le> h \<and> h \<le> req_desired ((R(r := serve g ?q)) x)"
      "a1 + (\<Sum>x \<leftarrow> served. req_granted (R1 x)) = a - g"
      "wakes1 = map (\<lambda>x. the (req_waker ((R(r := serve g ?q)) x))) served"
      "ws1 \<noteq> [] \<longrightarrow> a1 < req_minimum (R1 (hd ws1))"
      using Cons.IH [OF rec new(2)] Cons.prems(3) other by auto
    have r1: "R1 r = serve g ?q"
      using s(1,2) new by auto
    have sub: "x \<in> set ws" if "x \<in> set served" for x
      using that s(1) by auto
    show ?thesis
      using s r1 g eqs other sub new
      by (intro exI [of _ "r # served"]) (auto cong: map_cong)
  qed
qed


section \<open>Accounting\<close>

text \<open>Changing what one live permit holds and is granted changes the total by that amount.\<close>

lemma held_upd:
  assumes "finite {x. b_alive b x}" "b_alive b r" "b_alive b' = b_alive b"
    and "b_requests b' = (b_requests b)(r := q)"
  shows "held b' (caps(r := c)) + (caps r + req_granted (b_requests b r))
         = held b caps + (c + req_granted q)"
proof -
  let ?A = "{x. b_alive b x}"
  have "held b' (caps(r := c)) = (c + req_granted q) +
      (\<Sum>x \<in> ?A - {r}. (caps(r := c)) x + req_granted (((b_requests b)(r := q)) x))"
    unfolding held_def using assms by (simp add: sum.remove [of ?A r])
  also have "(\<Sum>x \<in> ?A - {r}. (caps(r := c)) x + req_granted (((b_requests b)(r := q)) x))
      = (\<Sum>x \<in> ?A - {r}. caps x + req_granted (b_requests b x))"
    by (rule sum.cong) auto
  finally show ?thesis
    unfolding held_def using assms by (simp add: sum.remove [of ?A r])
qed

lemma sum_add_served:
  fixes f f' :: "'x \<Rightarrow> nat"
  assumes "finite A" "distinct xs" "set xs \<subseteq> A"
    and "\<And>x. x \<in> A \<Longrightarrow> x \<notin> set xs \<Longrightarrow> f' x = f x"
    and "\<And>x. x \<in> set xs \<Longrightarrow> f' x = f x + g x"
  shows "sum f' A = sum f A + sum_list (map g xs)"
proof -
  have fin: "finite (set xs)" by simp
  have "sum f' A = sum f' (A - set xs) + sum f' (set xs)"
    using assms(1,3) by (rule sum.subset_diff [rotated])
  also have "sum f' (A - set xs) = sum f (A - set xs)"
    by (rule sum.cong) (auto simp: assms(4))
  also have "sum f' (set xs) = sum f (set xs) + sum g (set xs)"
    by (simp add: assms(5) sum.distrib)
  also have "sum f (A - set xs) + (sum f (set xs) + sum g (set xs)) = sum f A + sum g (set xs)"
    using sum.subset_diff [OF assms(3,1), of f] by simp
  also have "sum g (set xs) = sum_list (map g xs)"
    using assms(2) by (simp add: sum_list_distinct_conv_sum_set)
  finally show ?thesis .
qed

section \<open>Dispatch\<close>

text \<open>What holds of the budget when a method calls \<open>dispatch\<close>: all but quiescence.\<close>

definition pre_dispatch :: "budget \<Rightarrow> (rid \<Rightarrow> nat) \<Rightarrow> bool" where
  "pre_dispatch b caps \<longleftrightarrow>
     (\<forall>r. b_alive b r \<longrightarrow> r < b_next b) \<and> queue_ok b \<and>
     (\<forall>r \<in> set (b_waiters b). request_ok (b_total b) (caps r) (b_requests b r)) \<and>
     b_available b + held b caps = b_total b"

lemma budget_inv_iff: "budget_inv b caps \<longleftrightarrow> pre_dispatch b caps \<and> quiescent b"
  by (auto simp: budget_inv_def pre_dispatch_def)

lemma pre_dispatch_finite: "pre_dispatch b caps \<Longrightarrow> finite {r. b_alive b r}"
  by (rule finite_subset [of _ "{..< b_next b}"]) (auto simp: pre_dispatch_def)

lemma dispatch_spec:
  assumes "dispatch b = (b', wakes)" and "pre_dispatch b caps"
  obtains served where "b_waiters b = served @ b_waiters b'"
    and "\<forall>r. r \<notin> set served \<longrightarrow> b_requests b' r = b_requests b r"
    and "\<forall>r \<in> set served. \<exists>g. b_requests b' r = serve g (b_requests b r) \<and>
           req_minimum (b_requests b r) \<le> g \<and> g \<le> req_desired (b_requests b r)"
    and "b_available b' + (\<Sum>r \<leftarrow> served. req_granted (b_requests b' r)) = b_available b"
    and "wakes = map (\<lambda>r. the (req_waker (b_requests b r))) served"
    and "quiescent b'" and "b_alive b' = b_alive b" and "b_total b' = b_total b"
    and "b_next b' = b_next b"
proof -
  obtain a ws R where
    d: "dispatch_loop (b_alive b) (b_available b) (b_waiters b) (b_requests b) = (a, ws, R, wakes)"
    and b': "b' = b\<lparr>b_available := a, b_waiters := ws, b_requests := R\<rparr>"
    using assms(1) by (auto simp: dispatch_def split: prod.splits)
  have "distinct (b_waiters b)"
    and "\<forall>r \<in> set (b_waiters b). b_alive b r \<and> req_waiting (b_requests b r) \<and>
        req_minimum (b_requests b r) \<le> req_desired (b_requests b r) \<and>
        req_waker (b_requests b r) \<noteq> None"
    using assms(2) by (auto simp: pre_dispatch_def queue_ok_def request_ok_def)
  from dispatch_loop_spec [OF d this] show ?thesis
    using that by (auto simp: b' quiescent_def)
qed

lemma dispatch_inv:
  assumes d: "dispatch b = (b', wakes)" and pre: "pre_dispatch b caps"
  shows "budget_inv b' caps"
proof -
  obtain served where s: "b_waiters b = served @ b_waiters b'"
    "\<forall>r. r \<notin> set served \<longrightarrow> b_requests b' r = b_requests b r"
    "\<forall>r \<in> set served. \<exists>g. b_requests b' r = serve g (b_requests b r) \<and>
       req_minimum (b_requests b r) \<le> g \<and> g \<le> req_desired (b_requests b r)"
    "b_available b' + (\<Sum>r \<leftarrow> served. req_granted (b_requests b' r)) = b_available b"
    "quiescent b'" "b_alive b' = b_alive b" "b_total b' = b_total b" "b_next b' = b_next b"
    using dispatch_spec [OF d pre] by metis
  from pre have q: "distinct (served @ b_waiters b')"
    "\<And>r. r \<in> set (served @ b_waiters b') \<longleftrightarrow> b_alive b r \<and> req_waiting (b_requests b r)"
    "\<And>r. r \<in> set (served @ b_waiters b') \<Longrightarrow> request_ok (b_total b) (caps r) (b_requests b r)"
    by (auto simp: pre_dispatch_def queue_ok_def s(1))
  have waiting: "req_waiting (b_requests b' r) \<longleftrightarrow>
      req_waiting (b_requests b r) \<and> r \<notin> set served" for r
    using s(2,3) by (cases "r \<in> set served") auto
  have queue: "queue_ok b'"
    using q(1,2) by (auto simp: queue_ok_def s(6) waiting)
  have ok: "\<forall>r \<in> set (b_waiters b'). request_ok (b_total b') (caps r) (b_requests b' r)"
    using q(1,3) s(2) by (auto simp: s(7))
  have "held b' caps = held b caps + (\<Sum>r \<leftarrow> served. req_granted (b_requests b' r))"
    unfolding held_def s(6)
  proof (rule sum_add_served)
    show "finite {r. b_alive b r}" using pre by (rule pre_dispatch_finite)
    show "distinct served" using q(1) by simp
    show "set served \<subseteq> {r. b_alive b r}" using q(2) by auto
    show "caps r + req_granted (b_requests b' r) = caps r + req_granted (b_requests b r)"
      if "r \<notin> set served" for r using that s(2) by simp
    show "caps r + req_granted (b_requests b' r)
        = caps r + req_granted (b_requests b r) + req_granted (b_requests b' r)"
      if "r \<in> set served" for r using that q(3) [of r] by (simp add: request_ok_def)
  qed
  moreover have "b_available b + held b caps = b_total b"
    using pre by (simp add: pre_dispatch_def)
  ultimately have "b_available b' + held b' caps = b_total b'"
    using s(4,7) by simp
  then show ?thesis
    using pre queue ok s(5,6,8) by (simp add: budget_inv_def pre_dispatch_def)
qed


section \<open>Permit operations\<close>

text \<open>A live permit in a well-formed budget, the other permits holding \<open>caps\<close>.\<close>

definition permit_inv :: "permit \<Rightarrow> budget \<Rightarrow> (rid \<Rightarrow> nat) \<Rightarrow> bool" where
  "permit_inv p b caps \<longleftrightarrow>
     b_alive b (p_request p) \<and> budget_inv b (caps(p_request p := p_capacity p))"

lemma permit_inv_granted:
  assumes "permit_inv p b caps" "req_waiting (b_requests b (p_request p))"
  shows "req_granted (b_requests b (p_request p)) = 0"
    and "req_waker (b_requests b (p_request p)) \<noteq> None"
  using assms by (auto simp: permit_inv_def budget_inv_def queue_ok_def request_ok_def)

lemma shrink_to_sel:
  assumes "shrink_to n p b = (p', b', wakes)"
  shows "p_capacity p' = min (p_capacity p) n" "p_request p' = p_request p"
  using assms by (auto simp: shrink_to_def Let_def split: prod.splits)

lemma dispatch_frame:
  assumes "dispatch b = (b', wakes)"
  shows "b_alive b' = b_alive b" "b_total b' = b_total b" "b_next b' = b_next b"
  using assms by (auto simp: dispatch_def split: prod.splits)

lemma shrink_to_frame:
  assumes "shrink_to n p b = (p', b', wakes)"
  shows "b_alive b' = b_alive b" "b_total b' = b_total b" "b_next b' = b_next b"
  using assms by (auto simp: shrink_to_def Let_def split: prod.splits dest: dispatch_frame)

lemma shrink_to_pre_dispatch:
  assumes inv: "permit_inv p b caps"
  defines "r \<equiv> p_request p"
  defines "q \<equiv> b_requests b r"
  shows "pre_dispatch
     (b\<lparr>b_available := b_available b + (req_granted q + (p_capacity p - min (p_capacity p) n)),
        b_requests := (b_requests b)
          (r := q\<lparr>req_waiting := False, req_waker := None, req_granted := 0\<rparr>),
        b_waiters := filter (\<lambda>entry. entry \<noteq> r) (b_waiters b)\<rparr>)
     (caps(r := min (p_capacity p) n))" (is "pre_dispatch ?b ?caps")
proof -
  have B: "budget_inv b (caps(r := p_capacity p))" and live: "b_alive b r"
    using inv by (simp_all add: permit_inv_def r_def)
  have "held ?b ((caps(r := p_capacity p))(r := min (p_capacity p) n)) +
      (p_capacity p + req_granted q) = held b (caps(r := p_capacity p)) + min (p_capacity p) n"
    using held_upd [OF budget_inv_finite [OF B] live, where b' = ?b
      and q = "q\<lparr>req_waiting := False, req_waker := None, req_granted := 0\<rparr>"
      and caps = "caps(r := p_capacity p)" and c = "min (p_capacity p) n"]
    by (simp add: q_def)
  moreover have "min (p_capacity p) n \<le> p_capacity p"
    by simp
  moreover have "b_available b + held b (caps(r := p_capacity p)) = b_total b"
    using B by (simp add: budget_inv_def)
  ultimately have "b_available ?b + held ?b ?caps = b_total ?b"
    by simp
  moreover have "queue_ok ?b"
    using B by (auto simp: budget_inv_def queue_ok_def)
  moreover have "\<forall>x \<in> set (b_waiters ?b). request_ok (b_total ?b) (?caps x) (b_requests ?b x)"
    using B by (auto simp: budget_inv_def)
  ultimately show ?thesis
    using B by (simp add: pre_dispatch_def budget_inv_def)
qed

lemma shrink_to_inv:
  assumes "permit_inv p b caps" "shrink_to n p b = (p', b', wakes)"
  shows "permit_inv p' b' caps"
proof -
  from assms(2) have "budget_inv b' (caps(p_request p := min (p_capacity p) n))"
    using dispatch_inv [OF _ shrink_to_pre_dispatch [OF assms(1)]]
    by (auto simp: shrink_to_def Let_def split: prod.splits)
  then show ?thesis
    using assms(1) shrink_to_frame [OF assms(2)] shrink_to_sel [OF assms(2)]
    by (simp add: permit_inv_def)
qed

text \<open>The six ways a growth request ends.\<close>

lemma poll_grow_cases [consumes 1, case_names invalid enough claimed waiting granted queued]:
  assumes g: "poll_grow cx m d p b = (res, p', b')"
  defines "r \<equiv> p_request p"
  defines "q \<equiv> b_requests b r"
  defines "c \<equiv> p_capacity p + req_granted q"
  obtains
    "\<not> (m \<le> d \<and> d \<le> b_total b)" "res = Ready (Err InvalidBudgetRequest)" "p' = p" "b' = b"
  | "m \<le> d" "d \<le> b_total b" "m \<le> p_capacity p" "res = Ready (Ok ())" "p' = p" "b' = b"
  | "m \<le> d" "d \<le> b_total b" "p_capacity p < m" "m \<le> c" "res = Ready (Ok ())"
    "p' = p\<lparr>p_capacity := c\<rparr>" "b' = b\<lparr>b_requests := (b_requests b)(r := q\<lparr>req_granted := 0\<rparr>)\<rparr>"
  | "m \<le> d" "d \<le> b_total b" "c < m" "req_waiting q" "res = Pending"
    "p' = p\<lparr>p_capacity := c\<rparr>"
    "b' = b\<lparr>b_requests :=
       (b_requests b)(r := q\<lparr>req_granted := 0, req_waker := Some cx\<rparr>)\<rparr>"
  | grant where "m \<le> d" "d \<le> b_total b" "c < m" "\<not> req_waiting q" "b_waiters b = []"
    "m - c \<le> grant" "grant \<le> d - c" "grant \<le> b_available b" "res = Ready (Ok ())"
    "p' = p\<lparr>p_capacity := c + grant\<rparr>"
    "b' = b\<lparr>b_requests := (b_requests b)(r := q\<lparr>req_granted := 0\<rparr>),
            b_available := b_available b - grant\<rparr>"
  | "m \<le> d" "d \<le> b_total b" "c < m" "\<not> req_waiting q"
    "b_waiters b \<noteq> [] \<or> b_available b < m - c" "res = Pending"
    "p' = p\<lparr>p_capacity := c\<rparr>"
    "b' = b\<lparr>b_requests := (b_requests b)(r := q\<lparr>req_granted := 0, req_minimum := m - c,
              req_desired := d - c, req_waiting := True, req_waker := Some cx\<rparr>),
            b_waiters := b_waiters b @ [r]\<rparr>"
proof (cases "m \<le> d \<and> d \<le> b_total b")
  case False
  with g show ?thesis
    by (intro that(1)) (auto simp: poll_grow_def Let_def split: if_splits)
next
  case valid: True
  show ?thesis
  proof (cases "m \<le> p_capacity p")
    case True
    with valid g show ?thesis by (intro that(2)) (auto simp: poll_grow_def)
  next
    case few: False
    show ?thesis
    proof (cases "m \<le> c")
      case True
      with valid few g show ?thesis
        by (intro that(3)) (auto simp: poll_grow_def Let_def r_def q_def c_def)
    next
      case need: False
      show ?thesis
      proof (cases "req_waiting q")
        case waiting: True
        have wk: "(if (case req_waker q of None \<Rightarrow> True | Some old \<Rightarrow> old \<noteq> cx)
            then q\<lparr>req_granted := 0, req_waker := Some cx\<rparr> else q\<lparr>req_granted := 0\<rparr>)
            = q\<lparr>req_granted := 0, req_waker := Some cx\<rparr>"
          by (cases q) (auto split: option.splits)
        from valid few need waiting g wk show ?thesis
          by (intro that(4)) (auto simp: poll_grow_def Let_def r_def q_def c_def)
      next
        case idle: False
        show ?thesis
        proof (cases "b_waiters b = [] \<and> b_available b \<ge> m - c")
          case True
          with valid few need idle g show ?thesis
            by (intro that(5) [of "if b_available b \<ge> d - c then d - c else m - c"])
              (auto simp: poll_grow_def Let_def r_def q_def c_def)
        next
          case False
          with valid few need idle g show ?thesis
            by (intro that(6)) (auto simp: poll_grow_def Let_def r_def q_def c_def)
        qed
      qed
    qed
  qed
qed


lemma poll_grow_frame:
  assumes "poll_grow cx m d p b = (res, p', b')"
  shows "b_alive b' = b_alive b" "b_total b' = b_total b" "b_next b' = b_next b"
    "p_request p' = p_request p" "p_capacity p \<le> p_capacity p'"
  using assms by (cases rule: poll_grow_cases; simp)+

text \<open>
  One update covers the four branches that change the budget: the request of the permit becomes
  \<open>q'\<close>, its capacity \<open>c'\<close>, and \<open>a\<close> frames stay available.
\<close>

lemma held_balance:
  assumes inv: "permit_inv p b caps"
    and b': "b_requests b' = (b_requests b)(p_request p := q')" "b_alive b' = b_alive b"
      "b_total b' = b_total b"
    and bal: "b_available b' + c' + req_granted q' =
      b_available b + p_capacity p + req_granted (b_requests b (p_request p))"
  shows "b_available b' + held b' (caps(p_request p := c')) = b_total b'"
proof -
  have B: "budget_inv b (caps(p_request p := p_capacity p))" and live: "b_alive b (p_request p)"
    using inv by (simp_all add: permit_inv_def)
  have "held b' ((caps(p_request p := p_capacity p))(p_request p := c')) +
      ((caps(p_request p := p_capacity p)) (p_request p) +
        req_granted (b_requests b (p_request p)))
      = held b (caps(p_request p := p_capacity p)) + (c' + req_granted q')"
    by (rule held_upd [OF budget_inv_finite [OF B] live b'(2,1)])
  then show ?thesis
    using B bal b'(3) by (simp add: budget_inv_def)
qed

lemma poll_grow_inv:
  assumes inv: "permit_inv p b caps" and g: "poll_grow cx m d p b = (res, p', b')"
  shows "permit_inv p' b' caps"
proof -
  let ?r = "p_request p"
  let ?q = "b_requests b ?r"
  have B: "budget_inv b (caps(?r := p_capacity p))" and live: "b_alive b ?r"
    using inv by (simp_all add: permit_inv_def)
  have idle: "?r \<notin> set (b_waiters b) \<longleftrightarrow> \<not> req_waiting ?q"
    using B live by (auto simp: budget_inv_def queue_ok_def)
  have granted: "req_waiting ?q \<Longrightarrow> req_granted ?q = 0"
    using permit_inv_granted [OF inv] by simp
  from g show ?thesis
  proof (cases rule: poll_grow_cases)
    case claimed
    then have "\<not> req_waiting ?q" using granted by auto
    moreover have "b_available b' + held b' (caps(?r := p_capacity p')) = b_total b'"
      by (rule held_balance [OF inv]) (use claimed in auto)
    ultimately show ?thesis
      using B live idle claimed
      by (auto simp: permit_inv_def budget_inv_defs)
  next
    case waiting
    moreover have "b_available b' + held b' (caps(?r := p_capacity p')) = b_total b'"
      by (rule held_balance [OF inv]) (use waiting in auto)
    ultimately show ?thesis
      using B live granted
      by (auto simp: permit_inv_def budget_inv_defs request_ok_def)
  next
    case (granted grant)
    moreover have "b_available b' + held b' (caps(?r := p_capacity p')) = b_total b'"
      by (rule held_balance [OF inv]) (use granted in auto)
    ultimately show ?thesis
      using B live by (auto simp: permit_inv_def budget_inv_defs)
  next
    case queued
    moreover have "b_available b' + held b' (caps(?r := p_capacity p')) = b_total b'"
      by (rule held_balance [OF inv]) (use queued in auto)
    moreover have "hd (b_waiters b) \<noteq> ?r" if "b_waiters b \<noteq> []"
      using that idle queued hd_in_set by metis
    ultimately show ?thesis
      using B live idle
      by (auto simp: permit_inv_def budget_inv_defs request_ok_def hd_append)
  qed (use inv in auto)
qed

end
