(* ===== verification/Budget_Pool.thy ===== *)
theory Budget_Pool
  imports Budget_Invariant
begin

text \<open>
  The budget as its clients see it. \<open>frame_grant\<close> is the interface the schedulers rely on: what a
  growth request and a release promise about the local capacity. \<open>permit_run\<close> is the effect a
  client may have on the shared state, any sequence of its own growth requests and releases.
  \<open>pool_step\<close> is the whole system: permits created, grown, shrunk and dropped in any order, by any
  number of schedulers on any threads, each method being one step under the lock.
\<close>

section \<open>The interface of a permit\<close>

locale frame_grant =
  fixes grow :: "waker \<Rightarrow> nat \<Rightarrow> nat \<Rightarrow> 'p \<Rightarrow> 'b \<Rightarrow> (unit, contract_error) result poll \<times> 'p \<times> 'b"
    and shrink :: "nat \<Rightarrow> 'p \<Rightarrow> 'b \<Rightarrow> 'p \<times> 'b \<times> waker list"
    and cap :: "'p \<Rightarrow> nat"
    and size_of :: "'b \<Rightarrow> nat"
    and inv :: "'p \<Rightarrow> 'b \<Rightarrow> 'env \<Rightarrow> bool"
  assumes grow_inv: "inv p b env \<Longrightarrow> grow cx m d p b = (res, p', b') \<Longrightarrow> inv p' b' env"
    and shrink_inv: "inv p b env \<Longrightarrow> shrink n p b = (p', b', wakes) \<Longrightarrow> inv p' b' env"
    and grow_ready: "grow cx m d p b = (Ready (Ok ()), p', b') \<Longrightarrow> m \<le> cap p'"
    and grow_mono: "grow cx m d p b = (res, p', b') \<Longrightarrow> cap p \<le> cap p' \<and> size_of b' = size_of b"
    and grow_valid: "grow cx m d p b = (Ready (Err e), p', b') \<Longrightarrow>
      \<not> (m \<le> d \<and> d \<le> size_of b) \<and> p' = p \<and> b' = b"
    and shrink_cap: "shrink n p b = (p', b', wakes) \<Longrightarrow>
      cap p' = min (cap p) n \<and> size_of b' = size_of b"
    and cap_bound: "inv p b env \<Longrightarrow> cap p \<le> size_of b"
begin

lemma grow_covers:
  "grow cx m d p b = (res, p', b') \<Longrightarrow> used \<le> cap p \<Longrightarrow> used \<le> cap p'"
  using grow_mono by fastforce

lemma shrink_covers:
  "shrink n p b = (p', b', wakes) \<Longrightarrow> used \<le> cap p \<Longrightarrow> used \<le> n \<Longrightarrow> used \<le> cap p'"
  using shrink_cap by fastforce

lemma shrink_zero: "shrink 0 p b = (p', b', wakes) \<Longrightarrow> cap p' = 0"
  using shrink_cap by fastforce

lemma grow_no_error:
  "grow cx m d p b = (Ready (Err e), p', b') \<Longrightarrow> m \<le> d \<Longrightarrow> d \<le> size_of b \<Longrightarrow> False"
  using grow_valid by blast

lemma grow_bounded:
  "inv p b env \<Longrightarrow> grow cx m d p b = (res, p', b') \<Longrightarrow> cap p' \<le> size_of b"
  using grow_inv grow_mono cap_bound by metis

end

lemma permit_capacity_bound:
  assumes "permit_inv p b caps"
  shows "p_capacity p \<le> b_total b"
proof -
  let ?caps = "caps(p_request p := p_capacity p)"
  have B: "budget_inv b ?caps" and live: "b_alive b (p_request p)"
    using assms by (simp_all add: permit_inv_def)
  have "?caps (p_request p) + req_granted (b_requests b (p_request p)) \<le> held b ?caps"
    unfolding held_def using live budget_inv_finite [OF B]
    by (intro member_le_sum) auto
  then show ?thesis
    using B by (simp add: budget_inv_def)
qed

interpretation fg: frame_grant poll_grow shrink_to p_capacity b_total permit_inv
proof unfold_locales
  show "m \<le> p_capacity p'" if "poll_grow cx m d p b = (Ready (Ok ()), p', b')"
    for cx m d p b p' b'
    using that by (cases rule: poll_grow_cases) auto
  show "\<not> (m \<le> d \<and> d \<le> b_total b) \<and> p' = p \<and> b' = b"
    if "poll_grow cx m d p b = (Ready (Err e), p', b')" for cx m d p b e p' b'
    using that by (cases rule: poll_grow_cases) auto
next
  show "p_capacity p \<le> p_capacity p' \<and> b_total b' = b_total b"
    if "poll_grow cx m d p b = (res, p', b')" for cx m d p b res p' b'
    using poll_grow_frame [OF that] by simp
  show "p_capacity p' = min (p_capacity p) n \<and> b_total b' = b_total b"
    if "shrink_to n p b = (p', b', wakes)" for n p b p' b' wakes
    using shrink_to_sel [OF that] shrink_to_frame [OF that] by simp
qed (rule poll_grow_inv shrink_to_inv permit_capacity_bound; assumption)+

section \<open>Runs of one permit\<close>

inductive permit_run :: "permit \<times> budget \<Rightarrow> permit \<times> budget \<Rightarrow> bool" where
  run_refl: "permit_run x x"
| run_grow: "permit_run x (p, b) \<Longrightarrow> poll_grow cx m d p b = (res, p', b') \<Longrightarrow>
    permit_run x (p', b')"
| run_shrink: "permit_run x (p, b) \<Longrightarrow> shrink_to n p b = (p', b', wakes) \<Longrightarrow>
    permit_run x (p', b')"

declare permit_run.run_refl [simp, intro]

lemma permit_run_trans:
  "permit_run y z \<Longrightarrow> permit_run x y \<Longrightarrow> permit_run x z"
  by (induction rule: permit_run.induct) (auto intro: permit_run.intros)

lemma permit_run_grow1: "poll_grow cx m d p b = (res, p', b') \<Longrightarrow> permit_run (p, b) (p', b')"
  by (rule run_grow [OF run_refl])

lemma permit_run_shrink1: "shrink_to n p b = (p', b', wakes) \<Longrightarrow> permit_run (p, b) (p', b')"
  by (rule run_shrink [OF run_refl])

lemma permit_run_frame:
  "permit_run x y \<Longrightarrow> p_request (fst y) = p_request (fst x) \<and> b_total (snd y) = b_total (snd x) \<and>
     b_alive (snd y) = b_alive (snd x)"
  by (induction rule: permit_run.induct)
    (auto dest: poll_grow_frame shrink_to_frame shrink_to_sel(2))

text \<open>A client that only grows and shrinks its permit keeps the shared invariant.\<close>

lemma permit_run_inv:
  "permit_run x y \<Longrightarrow> permit_inv (fst x) (snd x) caps \<Longrightarrow> permit_inv (fst y) (snd y) caps"
  by (induction rule: permit_run.induct) (auto dest: fg.grow_inv fg.shrink_inv)

section \<open>The system of all permits\<close>

type_synonym pool = "budget \<times> (rid \<Rightarrow> nat)"

datatype pool_event =
    NewPermit
  | Grow rid waker nat nat "(unit, contract_error) result poll"
  | Shrink rid nat "waker list"
  | DropPermit rid "waker list"

inductive pool_step :: "pool \<Rightarrow> pool_event \<Rightarrow> pool \<Rightarrow> bool" where
  pool_new: "permit_new b = (p, b') \<Longrightarrow>
    pool_step (b, caps) NewPermit (b', caps(p_request p := p_capacity p))"
| pool_grow: "b_alive b r \<Longrightarrow>
    poll_grow cx m d \<lparr>p_capacity = caps r, p_request = r\<rparr> b = (res, p', b') \<Longrightarrow>
    pool_step (b, caps) (Grow r cx m d res) (b', caps(r := p_capacity p'))"
| pool_shrink: "b_alive b r \<Longrightarrow>
    shrink_to n \<lparr>p_capacity = caps r, p_request = r\<rparr> b = (p', b', wakes) \<Longrightarrow>
    pool_step (b, caps) (Shrink r n wakes) (b', caps(r := p_capacity p'))"
| pool_drop: "b_alive b r \<Longrightarrow>
    permit_drop \<lparr>p_capacity = caps r, p_request = r\<rparr> b = (b', wakes) \<Longrightarrow>
    pool_step (b, caps) (DropPermit r wakes) (b', caps(r := 0))"

inductive_cases pool_stepE: "pool_step (b, caps) e x"

inductive pool_reachable :: "nat \<Rightarrow> pool \<Rightarrow> bool" for n where
  pool_start: "pool_reachable n (budget_new n, \<lambda>_. 0)"
| pool_next: "pool_reachable n x \<Longrightarrow> pool_step x e y \<Longrightarrow> pool_reachable n y"

lemma budget_new_inv: "budget_inv (budget_new n) (\<lambda>_. 0)"
  by (simp add: budget_new_def budget_inv_defs held_def)

lemma permit_new_inv:
  assumes "budget_inv b caps" "permit_new b = (p, b')"
  shows "permit_inv p b' caps" "p_capacity p = 0"
proof -
  let ?r = "b_next b"
  have fresh: "\<not> b_alive b ?r" "?r \<notin> set (b_waiters b)"
    using assms(1) by (auto simp: budget_inv_def queue_ok_def)
  have p: "p = \<lparr>p_capacity = 0, p_request = ?r\<rparr>"
    and b': "b' = b\<lparr>b_requests := (b_requests b)(?r := request_default),
      b_alive := (b_alive b)(?r := True), b_next := Suc ?r\<rparr>"
    using assms(2) by (simp_all add: permit_new_def Let_def)
  have "{x. b_alive b' x} = insert ?r {x. b_alive b x}"
    by (auto simp: b')
  then have "held b' (caps(?r := 0)) =
      (\<Sum>x | b_alive b x. (caps(?r := 0)) x + req_granted (b_requests b' x))"
    using fresh budget_inv_finite [OF assms(1)]
    by (simp add: held_def b' request_default_def)
  also have "\<dots> = held b caps"
    unfolding held_def using fresh by (intro sum.cong) (auto simp: b')
  finally have "held b' (caps(?r := 0)) = held b caps" .
  moreover have "b_waiters b \<noteq> [] \<Longrightarrow> hd (b_waiters b) \<noteq> ?r"
    using fresh(2) hd_in_set by metis
  ultimately show "permit_inv p b' caps"
    using assms(1) fresh
    by (auto simp: permit_inv_def p b' budget_inv_defs request_default_def less_Suc_eq)
  show "p_capacity p = 0" by (simp add: p)
qed

text \<open>After a release the permit waits for nothing and is owed nothing.\<close>

lemma shrink_to_quiet:
  assumes inv: "permit_inv p b caps" and s: "shrink_to n p b = (p', b', wakes)"
  shows "b_requests b' (p_request p) = (b_requests b (p_request p))
    \<lparr>req_waiting := False, req_waker := None, req_granted := 0\<rparr>"
    and "p_request p \<notin> set (b_waiters b')"
proof -
  let ?b = "b\<lparr>b_available := b_available b + (req_granted (b_requests b (p_request p)) +
          (p_capacity p - min (p_capacity p) n)),
        b_requests := (b_requests b)(p_request p := (b_requests b (p_request p))
          \<lparr>req_waiting := False, req_waker := None, req_granted := 0\<rparr>),
        b_waiters := filter (\<lambda>entry. entry \<noteq> p_request p) (b_waiters b)\<rparr>"
  from s have d: "dispatch ?b = (b', wakes)"
    by (auto simp: shrink_to_def Let_def split: prod.splits)
  obtain served where "b_waiters ?b = served @ b_waiters b'"
    "\<forall>r. r \<notin> set served \<longrightarrow> b_requests b' r = b_requests ?b r"
    using dispatch_spec [OF d shrink_to_pre_dispatch [OF inv, of n]] by metis
  moreover have "p_request p \<notin> set (b_waiters ?b)" by simp
  ultimately have "p_request p \<notin> set served" "p_request p \<notin> set (b_waiters b')"
    "b_requests b' (p_request p) = b_requests ?b (p_request p)"
    by (auto simp del: budget.simps)
  then show "b_requests b' (p_request p) = (b_requests b (p_request p))
    \<lparr>req_waiting := False, req_waker := None, req_granted := 0\<rparr>"
    and "p_request p \<notin> set (b_waiters b')"
    by simp_all
qed

lemma permit_drop_inv:
  assumes "permit_inv p b caps" "permit_drop p b = (b', wakes)"
  shows "budget_inv b' (caps(p_request p := 0))" "\<not> b_alive b' (p_request p)"
proof -
  let ?r = "p_request p"
  obtain p1 b1 where s: "shrink_to 0 p b = (p1, b1, wakes)"
    and b': "b' = b1\<lparr>b_alive := (b_alive b1)(?r := False)\<rparr>"
    using assms(2) shrink_to_sel(2) by (auto simp: permit_drop_def split: prod.splits)
  have inv1: "permit_inv p1 b1 caps" and p1: "p_capacity p1 = 0" "p_request p1 = ?r"
    using shrink_to_inv [OF assms(1) s] shrink_to_sel [OF s] by simp_all
  then have B: "budget_inv b1 (caps(?r := 0))" and live: "b_alive b1 ?r"
    by (simp_all add: permit_inv_def)
  show "\<not> b_alive b' ?r" by (simp add: b')
  have quiet: "\<not> req_waiting (b_requests b1 ?r)" "req_granted (b_requests b1 ?r) = 0"
    using shrink_to_quiet [OF assms(1) s] by simp_all
  have "{x. b_alive b' x} = {x. b_alive b1 x} - {?r}"
    by (auto simp: b')
  then have "held b' (caps(?r := 0)) + 0 = held b1 (caps(?r := 0))"
    using live quiet budget_inv_finite [OF B]
    by (simp add: held_def b' sum.remove [of "{x. b_alive b1 x}" ?r])
  then show "budget_inv b' (caps(?r := 0))"
    using B quiet by (auto simp: b' budget_inv_defs)
qed

lemma permit_drop_frame:
  assumes "permit_drop p b = (b', wakes)"
  shows "b_alive b' = (b_alive b)(p_request p := False)" "b_total b' = b_total b"
    "b_next b' = b_next b"
proof -
  obtain p1 b1 where s: "shrink_to 0 p b = (p1, b1, wakes)"
    and b': "b' = b1\<lparr>b_alive := (b_alive b1)(p_request p1 := False)\<rparr>"
    using assms by (auto simp: permit_drop_def split: prod.splits)
  show "b_alive b' = (b_alive b)(p_request p := False)" "b_total b' = b_total b"
    "b_next b' = b_next b"
    using shrink_to_frame [OF s] shrink_to_sel [OF s] by (simp_all add: b')
qed

text \<open>Every reachable pool is well formed: the invariant is kept by each step.\<close>

lemma pool_step_inv:
  assumes "pool_step x e y" "budget_inv (fst x) (snd x)"
  shows "budget_inv (fst y) (snd y)"
  using assms
proof (induction rule: pool_step.induct)
  case (pool_new b p b' caps)
  then show ?case
    using permit_new_inv [of b caps p b'] by (simp add: permit_inv_def fun_upd_def)
next
  case (pool_grow b r cx m d caps res p' b')
  then have "permit_inv \<lparr>p_capacity = caps r, p_request = r\<rparr> b caps"
    by (simp add: permit_inv_def)
  from poll_grow_inv [OF this pool_grow(2)] show ?case
    using poll_grow_frame(4) [OF pool_grow(2)] by (simp add: permit_inv_def fun_upd_def)
next
  case (pool_shrink b r n caps p' b' wakes)
  then have "permit_inv \<lparr>p_capacity = caps r, p_request = r\<rparr> b caps"
    by (simp add: permit_inv_def)
  from shrink_to_inv [OF this pool_shrink(2)] show ?case
    using shrink_to_sel(2) [OF pool_shrink(2)] by (simp add: permit_inv_def fun_upd_def)
next
  case (pool_drop b r caps b' wakes)
  then have "permit_inv \<lparr>p_capacity = caps r, p_request = r\<rparr> b caps"
    by (simp add: permit_inv_def)
  from permit_drop_inv(1) [OF this pool_drop(2)] show ?case by (simp add: fun_upd_def)
qed

lemma pool_step_frame:
  assumes "pool_step x e y"
  shows "b_total (fst y) = b_total (fst x)"
  using assms
  by (induction rule: pool_step.induct)
    (auto simp: permit_new_def Let_def dest: poll_grow_frame shrink_to_frame permit_drop_frame)

lemma pool_reachable_inv:
  "pool_reachable n x \<Longrightarrow> budget_inv (fst x) (snd x) \<and> b_total (fst x) = n"
  by (induction rule: pool_reachable.induct)
    (auto simp: budget_new_inv pool_step_frame intro: pool_step_inv, simp add: budget_new_def)

text \<open>Permits that do not exist hold nothing.\<close>

definition caps_alive :: "pool \<Rightarrow> bool" where
  "caps_alive x \<longleftrightarrow> (\<forall>r. \<not> b_alive (fst x) r \<longrightarrow> snd x r = 0)"

lemma pool_reachable_caps_alive: "pool_reachable n x \<Longrightarrow> caps_alive x"
proof (induction rule: pool_reachable.induct)
  case (pool_next x e y)
  from pool_next(2,3) show ?case
    by (induction rule: pool_step.induct)
      (auto simp: caps_alive_def permit_new_def Let_def split: if_splits
        dest: poll_grow_frame(1) shrink_to_frame(1) permit_drop_frame(1))
qed (simp add: caps_alive_def)


text \<open>Runs as functions, to evaluate examples.\<close>

definition run_new :: "pool \<Rightarrow> pool" where
  "run_new x = (let (p, b) = permit_new (fst x) in (b, (snd x)(p_request p := p_capacity p)))"

definition run_poll_grow :: "rid \<Rightarrow> waker \<Rightarrow> nat \<Rightarrow> nat \<Rightarrow> pool \<Rightarrow> pool" where
  "run_poll_grow r cx m d x =
     (let (res, p, b) = poll_grow cx m d \<lparr>p_capacity = snd x r, p_request = r\<rparr> (fst x)
      in (b, (snd x)(r := p_capacity p)))"

definition run_shrink_to :: "rid \<Rightarrow> nat \<Rightarrow> pool \<Rightarrow> pool" where
  "run_shrink_to r n x =
     (let (p, b, wakes) = shrink_to n \<lparr>p_capacity = snd x r, p_request = r\<rparr> (fst x)
      in (b, (snd x)(r := p_capacity p)))"

lemmas run_defs = run_new_def run_poll_grow_def run_shrink_to_def

lemma run_new_reachable: "pool_reachable n x \<Longrightarrow> pool_reachable n (run_new x)"
  by (cases x) (auto simp: run_new_def split: prod.splits
      intro: pool_next pool_step.pool_new)

lemma run_poll_grow_reachable:
  "pool_reachable n x \<Longrightarrow> b_alive (fst x) r \<Longrightarrow> pool_reachable n (run_poll_grow r cx m d x)"
  by (cases x) (auto simp: run_poll_grow_def split: prod.splits
      intro: pool_next pool_step.pool_grow)

lemma run_shrink_to_reachable:
  "pool_reachable n x \<Longrightarrow> b_alive (fst x) r \<Longrightarrow> pool_reachable n (run_shrink_to r k x)"
  by (cases x) (auto simp: run_shrink_to_def split: prod.splits
      intro: pool_next pool_step.pool_shrink)


lemma run_alive [simp]:
  "b_alive (fst (run_new x)) = (b_alive (fst x))(b_next (fst x) := True)"
  "b_next (fst (run_new x)) = Suc (b_next (fst x))"
  "b_alive (fst (run_poll_grow r cx m d x)) = b_alive (fst x)"
  "b_alive (fst (run_shrink_to r n x)) = b_alive (fst x)"
  by (auto simp: run_new_def permit_new_def Let_def run_poll_grow_def run_shrink_to_def
      split: prod.splits dest: poll_grow_frame(1) shrink_to_frame(1))

text \<open>The head of the queue waits for capacity that another permit has.\<close>

lemma head_waits_for_other:
  assumes "pool_reachable n (b, caps)" and "b_waiters b = r # rs"
  shows "\<exists>x. x \<noteq> r \<and> b_alive b x \<and> 0 < caps x + req_granted (b_requests b x)"
proof (rule ccontr)
  assume contra: "\<not> ?thesis"
  have inv: "budget_inv b caps" and tot: "b_total b = n"
    using pool_reachable_inv [OF assms(1)] by simp_all
  have r: "b_alive b r" "req_granted (b_requests b r) = 0"
    "req_minimum (b_requests b r) \<le> req_desired (b_requests b r)"
    "caps r + req_desired (b_requests b r) \<le> b_total b"
    and less: "b_available b < req_minimum (b_requests b r)"
    using inv assms(2) by (auto simp: budget_inv_defs request_ok_def)
  have "held b caps = caps r + req_granted (b_requests b r) +
      (\<Sum>x \<in> {x. b_alive b x} - {r}. caps x + req_granted (b_requests b x))"
    unfolding held_def using r(1) budget_inv_finite [OF inv] by (simp add: sum.remove)
  also have "(\<Sum>x \<in> {x. b_alive b x} - {r}. caps x + req_granted (b_requests b x)) = 0"
    using contra by (intro sum.neutral) auto
  finally have "b_available b + caps r = b_total b"
    using inv r(2) by (simp add: budget_inv_def)
  with r less show False by simp
qed

end
