(* ===== verification/Budget_Properties.thy ===== *)
theory Budget_Properties
  imports Budget_Pool
begin

text \<open>
  What the shared budget guarantees to the schedulers that draw on it, stated over every state
  the system of permits can reach, and what one growth request and one release do.
\<close>

section \<open>An example pool\<close>

text \<open>
  Eight frames: permit 0 holds all of them, permit 1 waits for four and would like six, permit 2
  waits behind it.
\<close>

definition example_pool :: pool where
  "example_pool =
     run_poll_grow 2 12 3 3 (run_poll_grow 1 11 4 6 (run_poll_grow 0 10 8 8
       (run_new (run_new (run_new (budget_new 8, \<lambda>_. 0))))))"

lemma example_pool_reachable: "pool_reachable 8 example_pool"
  unfolding example_pool_def
  by (intro run_poll_grow_reachable run_new_reachable pool_start)
    (simp_all add: budget_new_def)

lemma example_pool_eq:
  "b_waiters (fst example_pool) = [1, 2]" "b_available (fst example_pool) = 0"
  "b_alive (fst example_pool) 0" "b_alive (fst example_pool) 1" "b_total (fst example_pool) = 8"
  "snd example_pool 0 = 8" "snd example_pool 1 = 0"
  "b_requests (fst example_pool) 1 =
     \<lparr>req_minimum = 4, req_desired = 6, req_granted = 0, req_waiting = True, req_waker = Some 11\<rparr>"
  "b_requests (fst example_pool) 2 =
     \<lparr>req_minimum = 3, req_desired = 3, req_granted = 0, req_waiting = True, req_waker = Some 12\<rparr>"
  "b_requests (fst example_pool) 0 = request_default"
  by (simp_all add: example_pool_def run_defs permit_new_def budget_new_def poll_grow_def
      request_default_def Let_def)


section \<open>Properties\<close>

text \<open>
  C5: in every state the permits can bring a budget of \<open>n\<close> frames into, what is available, what
  live permits hold and what is reserved for them add up to exactly \<open>n\<close>; a permit that does not
  exist holds nothing. So the schedulers together never hold more than the budget, and no frame
  is lost or counted twice by growth, cancellation, a grant nobody claimed, or a drop.
\<close>
theorem budget_conserved:
  assumes "pool_reachable n (b, caps)"
  shows "finite {r. b_alive b r} \<and>
    b_available b + (\<Sum>r | b_alive b r. caps r + req_granted (b_requests b r)) = n \<and>
    (\<forall>r. \<not> b_alive b r \<longrightarrow> caps r = 0)"
  using pool_reachable_inv [OF assms] pool_reachable_caps_alive [OF assms] budget_inv_finite
  by (auto simp: caps_alive_def budget_inv_def held_def)

theorem budget_conserved_witness:
  "\<exists>b caps. pool_reachable 8 (b, caps) \<and> caps 0 = 8 \<and> b_waiters b = [1, 2] \<and>
     b_available b + (\<Sum>r | b_alive b r. caps r + req_granted (b_requests b r)) = 8"
  using budget_conserved [of 8 "fst example_pool" "snd example_pool"]
    example_pool_reachable example_pool_eq
  by (intro exI [of _ "fst example_pool"] exI [of _ "snd example_pool"]) simp

text \<open>
  C21: the queue of a reachable budget is exactly the live permits that wait, once each, with a
  waker registered, a positive minimum and nothing granted yet. So the branches of \<open>dispatch\<close>
  that skip dead or cancelled entries are never taken, and a woken task is always one that was
  served.
\<close>
theorem budget_queue_exact:
  assumes "pool_reachable n (b, caps)"
  shows "distinct (b_waiters b) \<and>
    (\<forall>r. r \<in> set (b_waiters b) \<longleftrightarrow> b_alive b r \<and> req_waiting (b_requests b r)) \<and>
    (\<forall>r \<in> set (b_waiters b). req_waker (b_requests b r) \<noteq> None \<and>
       0 < req_minimum (b_requests b r) \<and>
       req_minimum (b_requests b r) \<le> req_desired (b_requests b r) \<and>
       caps r + req_desired (b_requests b r) \<le> n \<and> req_granted (b_requests b r) = 0)"
  using pool_reachable_inv [OF assms] by (auto simp: budget_inv_def queue_ok_def request_ok_def)

theorem budget_queue_exact_witness:
  "\<exists>b caps. pool_reachable 8 (b, caps) \<and> b_waiters b = [1, 2] \<and>
     req_waker (b_requests b 1) \<noteq> None \<and> caps 1 + req_desired (b_requests b 1) \<le> 8"
  using budget_queue_exact [of 8 "fst example_pool" "snd example_pool"]
    example_pool_reachable example_pool_eq
  by (intro exI [of _ "fst example_pool"] exI [of _ "snd example_pool"]) simp

text \<open>
  C12: no capacity lies idle while somebody waits for it: in a reachable state with a nonempty
  queue, what is available is less than the minimum of the request at its head.
\<close>
theorem budget_no_idle_capacity:
  assumes "pool_reachable n (b, caps)" and "b_waiters b = r # rs"
  shows "b_available b < req_minimum (b_requests b r)"
  using pool_reachable_inv [OF assms(1)] assms(2) by (simp add: budget_inv_def quiescent_def)

theorem budget_no_idle_capacity_witness:
  "\<exists>b caps. pool_reachable 8 (b, caps) \<and> b_waiters b = [1, 2] \<and>
     b_available b < req_minimum (b_requests b 1)"
  using budget_no_idle_capacity [of 8 "fst example_pool" "snd example_pool" 1 "[2]"]
    example_pool_reachable example_pool_eq
  by (intro exI [of _ "fst example_pool"] exI [of _ "snd example_pool"]) simp

text \<open>
  C22: the budget alone never deadlocks: if the request \<open>r\<close> at the head of the queue waits, then
  another live permit holds capacity or has a grant it has not claimed. Once the others return
  what they have, nobody waits.
\<close>
theorem budget_head_blocked_by_other:
  assumes "pool_reachable n (b, caps)" and "b_waiters b = r # rs"
  shows "\<exists>x. x \<noteq> r \<and> b_alive b x \<and> 0 < caps x + req_granted (b_requests b x)"
  using assms by (rule head_waits_for_other)

theorem budget_head_blocked_by_other_witness:
  "\<exists>b caps x. pool_reachable 8 (b, caps) \<and> b_waiters b = [1, 2] \<and> x \<noteq> 1 \<and> b_alive b x \<and>
     0 < caps x + req_granted (b_requests b x)"
  using budget_head_blocked_by_other [of 8 "fst example_pool" "snd example_pool" 1 "[2]"]
    example_pool_reachable example_pool_eq
  by (intro exI [of _ "fst example_pool"] exI [of _ "snd example_pool"]) simp


text \<open>
  C36: growth requests are served first come, first served: while anybody waits, a permit that
  needs more than it holds and was granted takes nothing from what is available, whatever its
  size; it is queued behind every earlier request, and the earlier requests stay as they are.
\<close>
theorem poll_grow_no_barging:
  assumes "b_waiters b \<noteq> []" and "m \<le> d" and "d \<le> b_total b"
    and "\<not> req_waiting (b_requests b (p_request p))"
    and "p_capacity p + req_granted (b_requests b (p_request p)) < m"
    and "poll_grow cx m d p b = (res, p', b')"
  shows "res = Pending \<and> b_available b' = b_available b \<and>
    b_waiters b' = b_waiters b @ [p_request p] \<and>
    p_capacity p' = p_capacity p + req_granted (b_requests b (p_request p)) \<and>
    (\<forall>r. r \<noteq> p_request p \<longrightarrow> b_requests b' r = b_requests b r)"
  using assms(6) by (cases rule: poll_grow_cases) (use assms(1-5) in auto)

theorem poll_grow_no_barging_witness:
  "\<exists>b p res p' b'. b_waiters b = [1, 2] \<and> poll_grow 13 1 1 p b = (res, p', b') \<and>
     res = Pending \<and> b_waiters b' = [1, 2, 3]"
proof -
  obtain p b where n: "permit_new (fst example_pool) = (p, b)"
    by (cases "permit_new (fst example_pool)")
  have next3: "b_next (fst example_pool) = 3"
    by (simp add: example_pool_def run_poll_grow_def budget_new_def poll_grow_def run_new_def
        permit_new_def request_default_def Let_def)
  from n have pb: "p = \<lparr>p_capacity = 0, p_request = 3\<rparr>" "b_waiters b = [1, 2]"
    "b_total b = 8" "b_requests b 3 = request_default"
    using example_pool_eq next3 by (auto simp: permit_new_def Let_def)
  obtain res p' b' where g: "poll_grow 13 1 1 p b = (res, p', b')"
    by (cases "poll_grow 13 1 1 p b")
  have "res = Pending \<and> b_waiters b' = b_waiters b @ [p_request p]"
    using poll_grow_no_barging [OF _ _ _ _ _ g] pb by (simp add: request_default_def)
  with g pb show ?thesis by (intro exI [of _ b] exI [of _ p]) auto
qed

text \<open>
  C34: what a growth request promises. It fails exactly when \<open>minimum <= desired <= total\<close> does not
  hold, and then changes nothing; when it is ready, the permit holds at least the minimum and at
  most the total; when it is pending, the permit holds less than the minimum, is in the queue
  with the caller's waker registered, and has nothing left to claim. It never gives capacity
  back.
\<close>
theorem poll_grow_contract:
  assumes "pool_reachable n (b, caps)" and "b_alive b r"
    and "poll_grow cx m d \<lparr>p_capacity = caps r, p_request = r\<rparr> b = (res, p', b')"
  shows "((\<exists>e. res = Ready (Err e)) \<longleftrightarrow> \<not> (m \<le> d \<and> d \<le> n)) \<and>
    (\<forall>e. res = Ready (Err e) \<longrightarrow> e = InvalidBudgetRequest \<and> b' = b \<and> p_capacity p' = caps r) \<and>
    (res = Ready (Ok ()) \<longrightarrow> m \<le> p_capacity p') \<and>
    (res = Pending \<longrightarrow> p_capacity p' < m \<and> r \<in> set (b_waiters b') \<and>
       req_waker (b_requests b' r) = Some cx \<and> req_granted (b_requests b' r) = 0) \<and>
    caps r \<le> p_capacity p' \<and> p_capacity p' \<le> n"
proof -
  let ?p = "\<lparr>p_capacity = caps r, p_request = r\<rparr>"
  have inv: "permit_inv ?p b caps" and tot: "b_total b = n"
    using pool_reachable_inv [OF assms(1)] assms(2) by (simp_all add: permit_inv_def)
  have q: "req_waiting (b_requests b r) \<Longrightarrow> r \<in> set (b_waiters b)"
    using inv by (auto simp: permit_inv_def budget_inv_def queue_ok_def)
  have bound: "p_capacity p' \<le> n"
    using fg.grow_bounded [OF inv assms(3)] tot by simp
  from assms(3) bound show ?thesis
    by (cases rule: poll_grow_cases) (use q tot in auto)
qed

theorem poll_grow_contract_witness:
  "\<exists>b caps res p' b'. pool_reachable 8 (b, caps) \<and>
     poll_grow 11 4 6 \<lparr>p_capacity = caps 1, p_request = 1\<rparr> b = (res, p', b') \<and>
     p_capacity p' \<le> 8 \<and> (res = Pending \<longrightarrow> req_waker (b_requests b' 1) = Some 11)"
proof -
  let ?b = "fst example_pool" and ?caps = "snd example_pool"
  obtain res p' b' where g:
    "poll_grow 11 4 6 \<lparr>p_capacity = ?caps 1, p_request = 1\<rparr> ?b = (res, p', b')"
    by (cases "poll_grow 11 4 6 \<lparr>p_capacity = ?caps 1, p_request = 1\<rparr> ?b")
  have reach: "pool_reachable 8 (?b, ?caps)"
    using example_pool_reachable by simp
  from poll_grow_contract [OF reach example_pool_eq(4) g] reach g show ?thesis
    by (intro exI [of _ ?b] exI [of _ ?caps] exI [of _ res] exI [of _ p'] exI [of _ b']) simp
qed

text \<open>
  C35: what a release (and so a cancellation or a drop) does. The permit keeps the smaller of what
  it held and \<open>n\<close>, leaves the queue and loses its unclaimed grant; everything it gave up serves a
  prefix of the remaining queue, in order, each between its minimum and its desired size and each
  woken once in that order; all other requests are untouched, and the rest of the queue does not
  fit in what is left.
\<close>
theorem shrink_to_serves_queue:
  assumes "pool_reachable t (b, caps)" and "b_alive b r"
    and "shrink_to n \<lparr>p_capacity = caps r, p_request = r\<rparr> b = (p', b', wakes)"
  shows "p_capacity p' = min (caps r) n \<and>
    (\<exists>served. filter (\<lambda>x. x \<noteq> r) (b_waiters b) = served @ b_waiters b' \<and>
      wakes = map (\<lambda>x. the (req_waker (b_requests b x))) served \<and>
      (\<forall>x \<in> set served. \<not> req_waiting (b_requests b' x) \<and>
         req_minimum (b_requests b x) \<le> req_granted (b_requests b' x) \<and>
         req_granted (b_requests b' x) \<le> req_desired (b_requests b x)) \<and>
      (\<forall>x. x \<noteq> r \<and> x \<notin> set served \<longrightarrow> b_requests b' x = b_requests b x) \<and>
      b_available b' + (\<Sum>x \<leftarrow> served. req_granted (b_requests b' x)) =
        b_available b + req_granted (b_requests b r) + (caps r - min (caps r) n) \<and>
      (b_waiters b' \<noteq> [] \<longrightarrow> b_available b' < req_minimum (b_requests b' (hd (b_waiters b')))))"
proof -
  let ?p = "\<lparr>p_capacity = caps r, p_request = r\<rparr>"
  have inv: "permit_inv ?p b caps"
    using pool_reachable_inv [OF assms(1)] assms(2) by (simp add: permit_inv_def)
  let ?q = "(b_requests b r)\<lparr>req_waiting := False, req_waker := None, req_granted := 0\<rparr>"
  let ?b = "b\<lparr>b_available := b_available b +
        (req_granted (b_requests b r) + (caps r - min (caps r) n)),
      b_requests := (b_requests b)(r := ?q),
      b_waiters := filter (\<lambda>entry. entry \<noteq> r) (b_waiters b)\<rparr>"
  from assms(3) have d: "dispatch ?b = (b', wakes)"
    by (auto simp: shrink_to_def Let_def split: prod.splits)
  have pre: "pre_dispatch ?b (caps(r := min (caps r) n))"
    using shrink_to_pre_dispatch [OF inv, of n] by (simp only: permit.simps)
  obtain served where s0: "b_waiters ?b = served @ b_waiters b'"
    "\<forall>x. x \<notin> set served \<longrightarrow> b_requests b' x = b_requests ?b x"
    "\<forall>x \<in> set served. \<exists>g. b_requests b' x = serve g (b_requests ?b x) \<and>
       req_minimum (b_requests ?b x) \<le> g \<and> g \<le> req_desired (b_requests ?b x)"
    "b_available b' + (\<Sum>x \<leftarrow> served. req_granted (b_requests b' x)) = b_available ?b"
    "wakes = map (\<lambda>x. the (req_waker (b_requests ?b x))) served" "quiescent b'"
    by (rule dispatch_spec [OF d pre]) blast
  have s: "filter (\<lambda>x. x \<noteq> r) (b_waiters b) = served @ b_waiters b'"
    using s0(1) by simp
  have old: "b_requests ?b x = b_requests b x" if "x \<noteq> r" for x
    using that by simp
  have "r \<notin> set served"
    using arg_cong [OF s, of set] by auto
  then have other: "x \<in> set served \<Longrightarrow> x \<noteq> r" for x by auto
  have wakes: "wakes = map (\<lambda>x. the (req_waker (b_requests b x))) served"
    using s0(5) old other by (simp cong: map_cong)
  have each: "\<forall>x \<in> set served. \<not> req_waiting (b_requests b' x) \<and>
      req_minimum (b_requests b x) \<le> req_granted (b_requests b' x) \<and>
      req_granted (b_requests b' x) \<le> req_desired (b_requests b x)"
    using s0(3) old other by fastforce
  have rest: "\<forall>x. x \<noteq> r \<and> x \<notin> set served \<longrightarrow> b_requests b' x = b_requests b x"
    using s0(2) old by simp
  have sum: "b_available b' + (\<Sum>x \<leftarrow> served. req_granted (b_requests b' x)) =
      b_available b + req_granted (b_requests b r) + (caps r - min (caps r) n)"
    using s0(4) by simp
  have cap: "p_capacity p' = min (caps r) n"
    using shrink_to_sel(1) [OF assms(3)] by simp
  from s0(6) have "b_waiters b' \<noteq> [] \<longrightarrow>
      b_available b' < req_minimum (b_requests b' (hd (b_waiters b')))"
    by (simp add: quiescent_def)
  with cap s wakes each rest sum show ?thesis by blast
qed

theorem shrink_to_serves_queue_witness:
  "\<exists>b caps p' b' wakes. pool_reachable 8 (b, caps) \<and> b_waiters b = [1, 2] \<and>
     shrink_to 0 \<lparr>p_capacity = caps 0, p_request = 0\<rparr> b = (p', b', wakes) \<and> p_capacity p' = 0"
proof -
  let ?b = "fst example_pool" and ?caps = "snd example_pool"
  obtain p' b' wakes where g:
    "shrink_to 0 \<lparr>p_capacity = ?caps 0, p_request = 0\<rparr> ?b = (p', b', wakes)"
    by (cases "shrink_to 0 \<lparr>p_capacity = ?caps 0, p_request = 0\<rparr> ?b")
  have reach: "pool_reachable 8 (?b, ?caps)"
    using example_pool_reachable by simp
  have "p_capacity p' = min (?caps 0) 0"
    using shrink_to_serves_queue [OF reach example_pool_eq(3) g] by simp
  with reach g example_pool_eq show ?thesis
    by (intro exI [of _ ?b] exI [of _ ?caps] exI [of _ p'] exI [of _ b'] exI [of _ wakes]) simp
qed

end
