(* ===== verification/Carbon_Traits.thy ===== *)
theory Carbon_Traits
  imports Carbon_Config
begin

text \<open>
  \<open>src/traits.rs\<close>: the backend traits. An implementation is user code, so a trait is a record of
  functions and every operation of a scheduler takes that record as an argument; the state of a
  file, including its environment, is a value of the type variable \<open>'f\<close>. Each poll takes the waker
  of the caller's context and returns the outcome and the new state of the file (for reads, also
  the new content of the buffer).

  What the trait documentation asks of an implementation is stated twice, once as a predicate that
  properties can name as a hypothesis (\<open>read_file_contract\<close>, \<open>write_file_contract\<close>) and once as a
  locale that holds the consequences (\<open>read_backend\<close>, \<open>write_backend\<close>).
\<close>

section \<open>The traits\<close>

record ('t, 'f, 'e) read_file =
  rf_frame_count :: "'f \<Rightarrow> u32"
  rf_poll_open :: "waker \<Rightarrow> 'f \<Rightarrow> (unit, 'e) result poll \<times> 'f"
  rf_poll_read :: "waker \<Rightarrow> 'f \<Rightarrow> 't \<Rightarrow> (unit option, 'e) result poll \<times> 'f \<times> 't"

record ('t, 'f, 'e, 'r) write_file =
  wf_frame_capacity :: "'f \<Rightarrow> u32"
  wf_poll_open :: "waker \<Rightarrow> 'f \<Rightarrow> (unit, 'e) result poll \<times> 'f"
  wf_poll_write :: "waker \<Rightarrow> 'f \<Rightarrow> 't \<Rightarrow> (unit, 'e) result poll \<times> 'f"
  wf_poll_close :: "waker \<Rightarrow> 'f \<Rightarrow> ('r, 'e) result poll \<times> 'f"

text \<open>
  The forwarding implementations for \<open>Pin<P>\<close>: \<open>get\<close> dereferences the pinned pointer and \<open>put\<close>
  stores the target back through it.
\<close>

definition pin_read_file ::
    "('p \<Rightarrow> 'f) \<Rightarrow> ('p \<Rightarrow> 'f \<Rightarrow> 'p) \<Rightarrow> ('t, 'f, 'e) read_file \<Rightarrow> ('t, 'p, 'e) read_file" where
  "pin_read_file get put ops =
     \<lparr>rf_frame_count = (\<lambda>p. rf_frame_count ops (get p)),
      rf_poll_open = (\<lambda>cx p. let (res, f) = rf_poll_open ops cx (get p) in (res, put p f)),
      rf_poll_read = (\<lambda>cx p frame.
        let (res, f, frame') = rf_poll_read ops cx (get p) frame in (res, put p f, frame'))\<rparr>"

definition pin_write_file ::
    "('p \<Rightarrow> 'f) \<Rightarrow> ('p \<Rightarrow> 'f \<Rightarrow> 'p) \<Rightarrow> ('t, 'f, 'e, 'r) write_file \<Rightarrow> ('t, 'p, 'e, 'r) write_file" where
  "pin_write_file get put ops =
     \<lparr>wf_frame_capacity = (\<lambda>p. wf_frame_capacity ops (get p)),
      wf_poll_open = (\<lambda>cx p. let (res, f) = wf_poll_open ops cx (get p) in (res, put p f)),
      wf_poll_write = (\<lambda>cx p frame.
        let (res, f) = wf_poll_write ops cx (get p) frame in (res, put p f)),
      wf_poll_close = (\<lambda>cx p. let (res, f) = wf_poll_close ops cx (get p) in (res, put p f))\<rparr>"

section \<open>The contract of a read file\<close>

text \<open>
  \<open>content f\<close> is what the file \<open>f\<close> would still yield, in order, and \<open>fits f a\<close> says that the state
  \<open>f\<close> of a file is in phase \<open>a\<close>: not opened, or opened and between two frames, or within a frame that
  it prepares in the buffer \<open>t\<close>. Opening consumes nothing, and after a failed opening the file is to
  be opened again. Reading into any buffer between two frames, or resumed with the buffer that was
  pending, consumes nothing when it is pending and stays in progress with the buffer it leaves; a
  complete frame is the next of the content; end of file is reported only when nothing is left. A
  failed read promises nothing.
\<close>

datatype 't reading = Fresh | Between | Within 't

fun resumes :: "'t reading \<Rightarrow> 't \<Rightarrow> bool" where
  "resumes Fresh t = False"
| "resumes Between t = True"
| "resumes (Within t') t = (t' = t)"

definition ready_read :: "(unit, 'e) result poll \<Rightarrow> 't reading" where
  "ready_read res = (case res of Ready (Ok u) \<Rightarrow> Between | _ \<Rightarrow> Fresh)"

definition read_file_contract ::
    "('t, 'f, 'e) read_file \<Rightarrow> ('f \<Rightarrow> 't reading \<Rightarrow> bool) \<Rightarrow> ('f \<Rightarrow> 't list) \<Rightarrow> bool" where
  "read_file_contract ops fits content \<longleftrightarrow>
     (\<forall>cx f res f'. fits f Fresh \<longrightarrow> rf_poll_open ops cx f = (res, f') \<longrightarrow>
        content f' = content f \<and> fits f' (ready_read res)) \<and>
     (\<forall>cx f a t f' t'. fits f a \<longrightarrow> resumes a t \<longrightarrow> rf_poll_read ops cx f t = (Pending, f', t') \<longrightarrow>
        content f' = content f \<and> fits f' (Within t')) \<and>
     (\<forall>cx f a t f' t'. fits f a \<longrightarrow> resumes a t \<longrightarrow>
        rf_poll_read ops cx f t = (Ready (Ok (Some ())), f', t') \<longrightarrow>
        content f = t' # content f' \<and> fits f' Between) \<and>
     (\<forall>cx f a t f' t'. fits f a \<longrightarrow> resumes a t \<longrightarrow>
        rf_poll_read ops cx f t = (Ready (Ok None), f', t') \<longrightarrow> content f = [])"

locale read_backend =
  fixes ops :: "('t, 'f, 'e) read_file"
    and fits :: "'f \<Rightarrow> 't reading \<Rightarrow> bool" and content :: "'f \<Rightarrow> 't list"
  assumes open_content: "fits f Fresh \<Longrightarrow> rf_poll_open ops cx f = (res, f') \<Longrightarrow>
      content f' = content f \<and> fits f' (ready_read res)"
    and read_pending: "fits f a \<Longrightarrow> resumes a t \<Longrightarrow> rf_poll_read ops cx f t = (Pending, f', t') \<Longrightarrow>
      content f' = content f \<and> fits f' (Within t')"
    and read_frame: "fits f a \<Longrightarrow> resumes a t \<Longrightarrow>
      rf_poll_read ops cx f t = (Ready (Ok (Some ())), f', t') \<Longrightarrow>
      content f = t' # content f' \<and> fits f' Between"
    and read_eof: "fits f a \<Longrightarrow> resumes a t \<Longrightarrow> rf_poll_read ops cx f t = (Ready (Ok None), f', t') \<Longrightarrow>
      content f = []"

lemma read_backend_iff: "read_backend ops fits content \<longleftrightarrow> read_file_contract ops fits content"
  unfolding read_backend_def read_file_contract_def by meson

section \<open>The contract of a write file\<close>

text \<open>
  A destination accumulates the frames it accepts; what an attempt holds is a value \<open>acc\<close>, \<open>init\<close> is
  an empty attempt and \<open>add\<close> the effect of one frame. \<open>rep f a\<close> says that the state \<open>f\<close> of a
  destination is in phase \<open>a\<close>: not opened, or opened and holding \<open>acc\<close>, or holding \<open>acc\<close> with a frame
  \<open>t\<close> partly written, which does not count yet. Opening starts from empty. Writing, begun afresh or
  resumed with the frame that was pending, adds the frame when it is accepted and stays in progress
  with it when it is pending. Closing commits exactly what the attempt holds: \<open>committed\<close> reads it off the
  closed destination and the result of closing it. After any error the
  destination is to be opened again.
\<close>

datatype ('o, 't) attempt = Unopened | Holds 'o | Partway 'o 't

fun takes :: "('o, 't) attempt \<Rightarrow> 'o \<Rightarrow> 't \<Rightarrow> bool" where
  "takes Unopened acc t = False"
| "takes (Holds acc') acc t = (acc' = acc)"
| "takes (Partway acc' t') acc t = (acc' = acc \<and> t' = t)"

definition opened :: "'o \<Rightarrow> (unit, 'e) result poll \<Rightarrow> ('o, 't) attempt" where
  "opened init res = (case res of Ready (Ok u) \<Rightarrow> Holds init | _ \<Rightarrow> Unopened)"

definition wrote :: "('o \<Rightarrow> 't \<Rightarrow> 'o) \<Rightarrow> 'o \<Rightarrow> 't \<Rightarrow> (unit, 'e) result poll \<Rightarrow> ('o, 't) attempt" where
  "wrote add acc t res =
     (case res of
        Pending \<Rightarrow> Partway acc t
      | Ready (Ok u) \<Rightarrow> Holds (add acc t)
      | Ready (Err e) \<Rightarrow> Unopened)"

definition write_file_contract ::
    "('t, 'f, 'e, 'r) write_file \<Rightarrow> ('f \<Rightarrow> ('o, 't) attempt \<Rightarrow> bool) \<Rightarrow> 'o \<Rightarrow> ('o \<Rightarrow> 't \<Rightarrow> 'o)
      \<Rightarrow> ('f \<times> 'r \<Rightarrow> 'o) \<Rightarrow> bool" where
  "write_file_contract ops rep init add committed \<longleftrightarrow>
     (\<forall>cx f res f'. rep f Unopened \<longrightarrow> wf_poll_open ops cx f = (res, f') \<longrightarrow>
        rep f' (opened init res)) \<and>
     (\<forall>cx f a acc t res f'. rep f a \<longrightarrow> takes a acc t \<longrightarrow> wf_poll_write ops cx f t = (res, f') \<longrightarrow>
        rep f' (wrote add acc t res)) \<and>
     (\<forall>cx f acc f'. rep f (Holds acc) \<longrightarrow> wf_poll_close ops cx f = (Pending, f') \<longrightarrow>
        rep f' (Holds acc)) \<and>
     (\<forall>cx f acc r f'. rep f (Holds acc) \<longrightarrow> wf_poll_close ops cx f = (Ready (Ok r), f') \<longrightarrow>
        committed (f', r) = acc) \<and>
     (\<forall>cx f acc e f'. rep f (Holds acc) \<longrightarrow> wf_poll_close ops cx f = (Ready (Err e), f') \<longrightarrow>
        rep f' Unopened)"

locale write_backend =
  fixes ops :: "('t, 'f, 'e, 'r) write_file"
    and rep :: "'f \<Rightarrow> ('o, 't) attempt \<Rightarrow> bool" and init :: 'o and add :: "'o \<Rightarrow> 't \<Rightarrow> 'o"
    and committed :: "'f \<times> 'r \<Rightarrow> 'o"
  assumes open_rep: "rep f Unopened \<Longrightarrow> wf_poll_open ops cx f = (res, f') \<Longrightarrow> rep f' (opened init res)"
    and write_rep: "rep f a \<Longrightarrow> takes a acc t \<Longrightarrow> wf_poll_write ops cx f t = (res, f') \<Longrightarrow>
      rep f' (wrote add acc t res)"
    and close_pending: "rep f (Holds acc) \<Longrightarrow> wf_poll_close ops cx f = (Pending, f') \<Longrightarrow> rep f' (Holds acc)"
    and close_ok: "rep f (Holds acc) \<Longrightarrow> wf_poll_close ops cx f = (Ready (Ok r), f') \<Longrightarrow>
      committed (f', r) = acc"
    and close_error: "rep f (Holds acc) \<Longrightarrow> wf_poll_close ops cx f = (Ready (Err e), f') \<Longrightarrow> rep f' Unopened"

lemma write_backend_iff:
  "write_backend ops rep init add committed \<longleftrightarrow> write_file_contract ops rep init add committed"
  unfolding write_backend_def write_file_contract_def by meson

lemmas write_phase_defs = opened_def wrote_def

section \<open>Forwarding keeps the contracts\<close>

text \<open>A pinned pointer: what is stored through it is read back.\<close>

definition pin_law :: "('p \<Rightarrow> 'f) \<Rightarrow> ('p \<Rightarrow> 'f \<Rightarrow> 'p) \<Rightarrow> bool" where
  "pin_law get put \<longleftrightarrow> (\<forall>p f. get (put p f) = f)"

locale pinned_read = read_backend ops fits content
  for ops :: "('t, 'f, 'e) read_file" and fits :: "'f \<Rightarrow> 't reading \<Rightarrow> bool" and content :: "'f \<Rightarrow> 't list" +
  fixes get :: "'p \<Rightarrow> 'f" and put :: "'p \<Rightarrow> 'f \<Rightarrow> 'p"
  assumes get_put: "pin_law get put"

sublocale pinned_read \<subseteq> pin: read_backend "pin_read_file get put ops" "\<lambda>p. fits (get p)" "\<lambda>p. content (get p)"
  using get_put
  by unfold_locales (auto simp: pin_read_file_def pin_law_def split: prod.splits
      dest: open_content read_pending read_frame read_eof)

locale pinned_write = write_backend ops rep init add committed
  for ops :: "('t, 'f, 'e, 'r) write_file" and rep :: "'f \<Rightarrow> ('o, 't) attempt \<Rightarrow> bool" and init :: 'o
    and add :: "'o \<Rightarrow> 't \<Rightarrow> 'o" and committed :: "'f \<times> 'r \<Rightarrow> 'o" +
  fixes get :: "'p \<Rightarrow> 'f" and put :: "'p \<Rightarrow> 'f \<Rightarrow> 'p"
  assumes get_put: "pin_law get put"

sublocale pinned_write \<subseteq>
    pin: write_backend "pin_write_file get put ops" "\<lambda>p. rep (get p)" init add
      "\<lambda>(p, r). committed (get p, r)"
  using get_put
  by unfold_locales (auto simp: pin_write_file_def pin_law_def split: prod.splits
      dest: open_rep write_rep close_pending close_ok close_error)

context pinned_read begin

lemma pinned_contract: "read_file_contract (pin_read_file get put ops) (\<lambda>p. fits (get p)) (\<lambda>p. content (get p))"
  using pin.read_backend_axioms by (simp add: read_backend_iff)

end

context pinned_write begin

lemma pinned_contract:
  "write_file_contract (pin_write_file get put ops) (\<lambda>p. rep (get p)) init add
     (\<lambda>(p, r). committed (get p, r))"
  using pin.write_backend_axioms by (simp add: write_backend_iff)

end

end
