(* ===== verification/Read_Scheduler.thy ===== *)
theory Read_Scheduler
  imports Carbon_Traits Budget_Pool
begin

text \<open>
  \<open>src/read.rs\<close>: the read scheduler. The state record holds the fields of \<open>ReadScheduler\<close>; beside
  them \<open>r_budget\<close> is the shared budget that the borrowed permit refers to, as it stands when the
  scheduler runs, and \<open>r_wakes\<close> logs the wakers woken so far, in order. Every operation takes the
  backend trait \<open>ops\<close>; those that can need a buffer also take the factory \<open>mk\<close>, a closure whose
  captured state is \<open>r_factory\<close>. Logical positions (\<open>r_emitted\<close>, \<open>r_discovered\<close>, \<open>s_start\<close>) are \<open>usize\<close>
  words that wrap around.
\<close>

section \<open>State\<close>

datatype read_state = ROpening | RReading

record 'f read_slot =
  s_file :: 'f
  s_start :: usize
  s_count :: u32
  s_received :: u32
  s_retries :: u32
  s_state :: read_state
  s_blocked :: bool

record 't cell =
  c_frame :: "'t option"
  c_complete :: bool

record ('t, 'f, 'e, 'a) reader =
  r_factory :: 'a
  r_config :: scheduler_config
  r_permit :: permit
  r_budget :: budget
  r_wakes :: "waker list"
  r_files :: "'f read_slot list"
  r_frames :: "'t cell list"
  r_recycled :: "'t list"
  r_emitted :: usize
  r_discovered :: usize
  r_cursor :: nat
  r_closed :: bool
  r_terminated :: bool
  r_error :: "'e scheduler_error option"

section \<open>Admission and configuration\<close>

definition rs_new ::
    "'a \<Rightarrow> budget \<Rightarrow> scheduler_config \<Rightarrow> (('t, 'f, 'e, 'a) reader, contract_error) result" where
  "rs_new factory budget config =
     (case window_validate (window config) of
        Err e \<Rightarrow> Err e
      | Ok _ \<Rightarrow>
          if total_capacity budget = 0 then Err ZeroBudget
          else
            let (permit, budget) = permit_new budget
            in Ok \<lparr>r_factory = factory, r_config = config, r_permit = permit, r_budget = budget,
                   r_wakes = [], r_files = [], r_frames = [], r_recycled = [], r_emitted = 0,
                   r_discovered = 0, r_cursor = 0, r_closed = False, r_terminated = False,
                   r_error = None\<rparr>)"

text \<open>\<open>self.permit.shrink_to(n)\<close>, with its effect on the shared budget and the wakers it wakes.\<close>

definition rs_shrink_to ::
    "nat \<Rightarrow> ('t, 'f, 'e, 'a) reader \<Rightarrow> ('t, 'f, 'e, 'a) reader" where
  "rs_shrink_to n s =
     (let (permit, budget, wakes) = shrink_to n (r_permit s) (r_budget s)
      in s\<lparr>r_permit := permit, r_budget := budget, r_wakes := r_wakes s @ wakes\<rparr>)"

definition rs_push_file ::
    "('t, 'f, 'e) read_file \<Rightarrow> 'f \<Rightarrow> ('t, 'f, 'e, 'a) reader
      \<Rightarrow> (unit, push_error \<times> 'f) result \<times> ('t, 'f, 'e, 'a) reader" where
  "rs_push_file ops file s =
     (if r_closed s \<or> r_terminated s then (Err (PushClosed, file), s)
      else if length (r_files s) \<ge> max_active_files (window (r_config s)) \<or>
              unat (r_discovered s - r_emitted s) \<ge> horizon (window (r_config s))
        then (Err (Full, file), s)
      else
        let count = rf_frame_count ops file
        in if count = 0 then (Err (PushContract ZeroFrameCount, file), s)
           else case usize_try_from count of
             None \<Rightarrow> (Err (PushContract InvalidFramePosition, file), s)
           | Some len \<Rightarrow>
             (case usize_checked_add (r_discovered s - r_emitted s) len of
                None \<Rightarrow> (Err (PushContract InvalidFramePosition, file), s)
              | Some _ \<Rightarrow>
                  (Ok (),
                   s\<lparr>r_files := r_files s @
                       [\<lparr>s_file = file, s_start = r_discovered s, s_count = count,
                         s_received = 0, s_retries = 0, s_state = ROpening,
                         s_blocked = False\<rparr>],
                     r_discovered := r_discovered s + len\<rparr>)))"

definition rs_close_files :: "('t, 'f, 'e, 'a) reader \<Rightarrow> ('t, 'f, 'e, 'a) reader" where
  "rs_close_files s = s\<lparr>r_closed := True\<rparr>"

definition rs_used :: "('t, 'f, 'e, 'a) reader \<Rightarrow> nat" where
  "rs_used s = length (r_frames s)"

definition rs_set_window ::
    "window \<Rightarrow> ('t, 'f, 'e, 'a) reader
      \<Rightarrow> (unit, contract_error) result \<times> ('t, 'f, 'e, 'a) reader" where
  "rs_set_window w s =
     (case window_validate w of
        Err e \<Rightarrow> (Err e, s)
      | Ok _ \<Rightarrow>
          let s = s\<lparr>r_config := (r_config s)\<lparr>window := w\<rparr>\<rparr>;
              keep = min (p_capacity (r_permit s)) (max (target_frames w) (rs_used s))
          in (Ok (), rs_shrink_to keep s))"

definition rs_window :: "('t, 'f, 'e, 'a) reader \<Rightarrow> window" where
  "rs_window s = window (r_config s)"

definition rs_granted_frames :: "('t, 'f, 'e, 'a) reader \<Rightarrow> nat" where
  "rs_granted_frames s = capacity (r_permit s)"

definition rs_is_terminated :: "('t, 'f, 'e, 'a) reader \<Rightarrow> bool" where
  "rs_is_terminated s \<longleftrightarrow> r_terminated s \<and> r_error s = None"

section \<open>Internal steps\<close>

definition rs_adjust_capacity :: "('t, 'f, 'e, 'a) reader \<Rightarrow> ('t, 'f, 'e, 'a) reader" where
  "rs_adjust_capacity s =
     (let keep = max (target_frames (window (r_config s))) (rs_used s);
          excess = p_capacity (r_permit s) - keep
      in if excess \<ge> 32 \<or> (excess > 0 \<and> keep = target_frames (window (r_config s)))
         then rs_shrink_to keep s else s)"

definition rs_authorize :: "('t, 'f, 'e, 'a) reader \<Rightarrow> ('t, 'f, 'e, 'a) reader" where
  "rs_authorize s =
     (let limit = min (p_capacity (r_permit s)) (target_frames (window (r_config s)));
          available = limit - rs_used s;
          remaining = unat (r_discovered s - r_emitted s);
          extra = min available (remaining - length (r_frames s))
      in s\<lparr>r_frames := r_frames s @ replicate extra \<lparr>c_frame = None, c_complete = False\<rparr>\<rparr>)"

text \<open>The loop of \<open>retire\<close> over the front of the file queue; the second component is the cursor.\<close>

fun retire_files :: "usize \<Rightarrow> 'f read_slot list \<Rightarrow> nat \<Rightarrow> 'f read_slot list \<times> nat" where
  "retire_files emitted [] cursor = ([], cursor)"
| "retire_files emitted (slot # files) cursor =
     (if emitted = s_start slot + ucast (s_count slot)
      then retire_files emitted files (cursor - 1)
      else (slot # files, cursor))"

definition rs_retire :: "('t, 'f, 'e, 'a) reader \<Rightarrow> ('t, 'f, 'e, 'a) reader" where
  "rs_retire s =
     (let (files, cursor) = retire_files (r_emitted s) (r_files s) (r_cursor s)
      in s\<lparr>r_files := files, r_cursor := cursor\<rparr>)"

definition rs_fail ::
    "'e scheduler_error \<Rightarrow> ('t, 'f, 'e, 'a) reader \<Rightarrow> ('t, 'f, 'e, 'a) reader" where
  "rs_fail error s =
     (rs_shrink_to 0 (s\<lparr>r_files := [], r_frames := [], r_recycled := []\<rparr>))
       \<lparr>r_terminated := True, r_error := Some error\<rparr>"

section \<open>Polling one file\<close>

text \<open>The \<open>Opening\<close> branch of \<open>poll_file\<close>, on the slot at \<open>index\<close>.\<close>

definition rs_poll_opening ::
    "('t, 'f, 'e) read_file \<Rightarrow> waker \<Rightarrow> nat \<Rightarrow> nat \<Rightarrow> ('t, 'f, 'e, 'a) reader
      \<Rightarrow> (bool, 'e scheduler_error) result \<times> nat \<times> ('t, 'f, 'e, 'a) reader" where
  "rs_poll_opening ops cx index remaining s =
     (let slot = r_files s ! index;
          remaining = remaining - 1;
          (res, file) = rf_poll_open ops cx (s_file slot);
          slot = slot\<lparr>s_file := file\<rparr>;
          store = (\<lambda>slot. s\<lparr>r_files := (r_files s)[index := slot]\<rparr>)
      in case res of
           Pending \<Rightarrow> (Ok False, remaining, store (slot\<lparr>s_blocked := True\<rparr>))
         | Ready (Ok _) \<Rightarrow> (Ok True, remaining, store (slot\<lparr>s_state := RReading\<rparr>))
         | Ready (Err error) \<Rightarrow>
             if s_retries slot = max_retries (r_config s)
             then (Err (Backend error), remaining, store slot)
             else (Ok True, remaining,
                   store (slot\<lparr>s_retries := u32_saturating_inc (s_retries slot)\<rparr>)))"

text \<open>
  \<open>cell.frame.get_or_insert_with(|| recycled.pop().unwrap_or_else(make_frame))\<close>: the buffer, the
  recycled buffers and the factory.
\<close>

definition rs_buffer ::
    "('a \<Rightarrow> 't \<times> 'a) \<Rightarrow> 't cell \<Rightarrow> 't list \<Rightarrow> 'a \<Rightarrow> 't \<times> 't list \<times> 'a" where
  "rs_buffer mk cell recycled factory =
     (case c_frame cell of
        Some frame \<Rightarrow> (frame, recycled, factory)
      | None \<Rightarrow>
          if recycled = [] then (let (frame, factory) = mk factory in (frame, recycled, factory))
          else (last recycled, butlast recycled, factory))"

text \<open>The \<open>Reading\<close> branch of \<open>poll_file\<close>.\<close>

definition rs_poll_reading ::
    "('t, 'f, 'e) read_file \<Rightarrow> ('a \<Rightarrow> 't \<times> 'a) \<Rightarrow> waker \<Rightarrow> nat \<Rightarrow> nat \<Rightarrow> ('t, 'f, 'e, 'a) reader
      \<Rightarrow> (bool, 'e scheduler_error) result \<times> nat \<times> ('t, 'f, 'e, 'a) reader" where
  "rs_poll_reading ops mk cx index remaining s =
     (let slot = r_files s ! index;
          store = (\<lambda>slot s. s\<lparr>r_files := (r_files s)[index := slot]\<rparr>)
      in if s_received slot = s_count slot
         then (Ok False, remaining, store (slot\<lparr>s_blocked := True\<rparr>) s)
         else
           let offset = unat (s_start slot + ucast (s_received slot) - r_emitted s)
           in if length (r_frames s) \<le> offset then (Ok False, remaining, s)
              else
                let cell = r_frames s ! offset
                in if c_complete cell then (Err (Contract InvalidFramePosition), remaining, s)
                   else
                     let (frame, recycled, factory) =
                           rs_buffer mk cell (r_recycled s) (r_factory s);
                         remaining = remaining - 1;
                         (res, file, frame) = rf_poll_read ops cx (s_file slot) frame;
                         slot = slot\<lparr>s_file := file\<rparr>;
                         cell = cell\<lparr>c_frame := Some frame\<rparr>;
                         s = s\<lparr>r_recycled := recycled, r_factory := factory\<rparr>;
                         put = (\<lambda>cell s. s\<lparr>r_frames := (r_frames s)[offset := cell]\<rparr>)
                     in case res of
                          Pending \<Rightarrow>
                            (Ok False, remaining, store (slot\<lparr>s_blocked := True\<rparr>) (put cell s))
                        | Ready (Err error) \<Rightarrow>
                            (Err (Backend error), remaining, store slot (put cell s))
                        | Ready (Ok (Some _)) \<Rightarrow>
                            let received = u32_saturating_inc (s_received slot)
                            in (Ok True, remaining,
                                store (slot\<lparr>s_received := received,
                                         s_blocked := (received = s_count slot)\<rparr>)
                                  (put (cell\<lparr>c_complete := True\<rparr>) s))
                        | Ready (Ok None) \<Rightarrow>
                            (Err (Contract UnexpectedEof), remaining, store slot (put cell s)))"

definition rs_poll_file ::
    "('t, 'f, 'e) read_file \<Rightarrow> ('a \<Rightarrow> 't \<times> 'a) \<Rightarrow> waker \<Rightarrow> nat \<Rightarrow> nat \<Rightarrow> ('t, 'f, 'e, 'a) reader
      \<Rightarrow> (bool, 'e scheduler_error) result \<times> nat \<times> ('t, 'f, 'e, 'a) reader" where
  "rs_poll_file ops mk cx index remaining s =
     (if length (r_files s) \<le> index then (Err (Contract InvalidFramePosition), remaining, s)
      else if s_blocked (r_files s ! index) then (Ok False, remaining, s)
      else case s_state (r_files s ! index) of
             ROpening \<Rightarrow> rs_poll_opening ops cx index remaining s
           | RReading \<Rightarrow> rs_poll_reading ops mk cx index remaining s)"


section \<open>The driving loop\<close>

text \<open>
  One pass of \<open>drive\<close> polls as many files as were queued when it started, from the cursor on. It
  ends with an error, with the operation limit exhausted (waking the caller's task when a file
  could still be polled), or done, with the progress made and the operations left.
\<close>

datatype 'e pass_result = PassError 'e | PassExhausted | PassDone bool nat

fun rs_pass ::
    "('t, 'f, 'e) read_file \<Rightarrow> ('a \<Rightarrow> 't \<times> 'a) \<Rightarrow> waker \<Rightarrow> nat \<Rightarrow> nat \<Rightarrow> bool \<Rightarrow> nat
      \<Rightarrow> ('t, 'f, 'e, 'a) reader \<Rightarrow> 'e scheduler_error pass_result \<times> ('t, 'f, 'e, 'a) reader" where
  "rs_pass ops mk cx 0 count progressed remaining s = (PassDone progressed remaining, s)"
| "rs_pass ops mk cx (Suc n) count progressed remaining s =
     (let index = r_cursor s mod count;
          s = s\<lparr>r_cursor := (index + 1) mod count\<rparr>;
          (res, remaining, s) = rs_poll_file ops mk cx index remaining s
      in case res of
           Err error \<Rightarrow> (PassError error, s)
         | Ok moved \<Rightarrow>
             if remaining = 0
             then (PassExhausted,
                   if \<exists>slot \<in> set (r_files s). \<not> s_blocked slot
                   then s\<lparr>r_wakes := r_wakes s @ [cx]\<rparr> else s)
             else rs_pass ops mk cx n count (progressed \<or> moved) remaining s)"

text \<open>A poll that makes progress costs one operation, so a pass with progress leaves fewer.\<close>

lemma rs_poll_file_remaining:
  assumes "rs_poll_file ops mk cx index remaining s = (res, remaining', s')"
  shows "remaining' \<le> remaining" and "res = Ok True \<Longrightarrow> remaining' = remaining - 1"
  using assms
  by (auto simp: rs_poll_file_def rs_poll_opening_def rs_poll_reading_def Let_def
      split: if_splits read_state.splits poll.splits result.splits prod.splits option.splits)

lemma rs_pass_remaining:
  assumes "rs_pass ops mk cx n count progressed remaining s = (PassDone progressed' remaining', s')"
  shows "remaining' \<le> remaining \<and> (progressed' \<and> \<not> progressed \<longrightarrow> remaining' < remaining)"
  using assms
proof (induction n arbitrary: progressed remaining s)
  case 0
  then show ?case by simp
next
  case (Suc n)
  let ?s = "s\<lparr>r_cursor := (r_cursor s mod count + 1) mod count\<rparr>"
  obtain res rem1 s1 where
    p: "rs_poll_file ops mk cx (r_cursor s mod count) remaining ?s = (res, rem1, s1)"
    by (metis prod_cases3)
  with Suc.prems obtain moved where res: "res = Ok moved" and pos: "rem1 \<noteq> 0"
    by (cases res) (auto simp: Let_def split: if_splits)
  with Suc.prems p have
    r: "rs_pass ops mk cx n count (progressed \<or> moved) rem1 s1
        = (PassDone progressed' remaining', s')"
    by (auto simp: Let_def)
  have "remaining' \<le> rem1 \<and> (progressed' \<and> \<not> (progressed \<or> moved) \<longrightarrow> remaining' < rem1)"
    by (rule Suc.IH [OF r])
  moreover have "rem1 \<le> remaining"
    by (rule rs_poll_file_remaining(1) [OF p])
  moreover have "moved \<Longrightarrow> rem1 < remaining"
    using rs_poll_file_remaining(2) [OF p] res pos by simp
  ultimately show ?case by auto
qed

text \<open>\<open>self.permit.shrink_to(0); self.terminated = self.closed;\<close>\<close>

definition rs_finish :: "('t, 'f, 'e, 'a) reader \<Rightarrow> ('t, 'f, 'e, 'a) reader" where
  "rs_finish s = (rs_shrink_to 0 s)\<lparr>r_terminated := r_closed s\<rparr>"

text \<open>The loop of \<open>drive\<close>; it stops because progress uses up the operations that are left.\<close>

function rs_loop ::
    "('t, 'f, 'e) read_file \<Rightarrow> ('a \<Rightarrow> 't \<times> 'a) \<Rightarrow> waker \<Rightarrow> nat \<Rightarrow> ('t, 'f, 'e, 'a) reader
      \<Rightarrow> (unit, 'e scheduler_error) result \<times> ('t, 'f, 'e, 'a) reader" where
  "rs_loop ops mk cx remaining s =
     (let count = length (r_files s)
      in if count = 0 then (Ok (), rs_finish s)
         else case rs_pass ops mk cx count count False remaining s of
           (PassError error, s) \<Rightarrow> (Err error, s)
         | (PassExhausted, s) \<Rightarrow> (Ok (), s)
         | (PassDone progressed remaining, s) \<Rightarrow>
             (let s = rs_retire s
              in if r_files s = [] then (Ok (), rs_finish s)
                 else let s = rs_authorize s
                   in if \<not> progressed then (Ok (), s) else rs_loop ops mk cx remaining s))"
  by pat_completeness auto
termination
  by (relation "measure (\<lambda>(ops, mk, cx, remaining, s). remaining)")
    (auto dest!: rs_pass_remaining [OF sym])

declare rs_loop.simps [simp del]

text \<open>The capacity request at the start of \<open>drive\<close>.\<close>

definition rs_request_capacity ::
    "waker \<Rightarrow> ('t, 'f, 'e, 'a) reader
      \<Rightarrow> (unit, 'e scheduler_error) result \<times> ('t, 'f, 'e, 'a) reader" where
  "rs_request_capacity cx s =
     (let target = min (target_frames (window (r_config s))) (total_capacity (r_budget s))
      in if p_capacity (r_permit s) < target then
           let minimum =
                 min (usize_saturating_add (p_capacity (r_permit s)) (min target 32)) target;
               (res, permit, budget) = poll_grow cx minimum target (r_permit s) (r_budget s);
               s = s\<lparr>r_permit := permit, r_budget := budget\<rparr>
           in case res of
                Ready (Err error) \<Rightarrow> (Err (scheduler_error_from error), s)
              | _ \<Rightarrow> (Ok (), s)
         else (Ok (), s))"

definition rs_drive ::
    "('t, 'f, 'e) read_file \<Rightarrow> ('a \<Rightarrow> 't \<times> 'a) \<Rightarrow> waker \<Rightarrow> ('t, 'f, 'e, 'a) reader
      \<Rightarrow> (unit, 'e scheduler_error) result \<times> ('t, 'f, 'e, 'a) reader" where
  "rs_drive ops mk cx s =
     (case rs_request_capacity cx s of
        (Err error, s) \<Rightarrow> (Err error, s)
      | (Ok _, s) \<Rightarrow>
          let s = rs_authorize s;
              s = s\<lparr>r_files := map (\<lambda>file. file\<lparr>s_blocked := False\<rparr>) (r_files s)\<rparr>;
              remaining = max max_poll_ops (length (r_files s))
          in rs_loop ops mk cx remaining s)"

section \<open>Polling\<close>

definition rs_poll_progress ::
    "('t, 'f, 'e) read_file \<Rightarrow> ('a \<Rightarrow> 't \<times> 'a) \<Rightarrow> waker \<Rightarrow> ('t, 'f, 'e, 'a) reader
      \<Rightarrow> ('t, 'f, 'e, 'a) reader" where
  "rs_poll_progress ops mk cx s =
     (if r_terminated s then s
      else if r_files s = [] then
        let s = (if 0 < p_capacity (r_permit s) then rs_shrink_to 0 s else s)
        in s\<lparr>r_terminated := r_closed s\<rparr>
      else case rs_drive ops mk cx s of
             (Err error, s) \<Rightarrow> rs_fail error s
           | (Ok _, s) \<Rightarrow> s)"

text \<open>Each poll of the future that \<open>progress()\<close> returns.\<close>

definition rs_progress ::
    "('t, 'f, 'e) read_file \<Rightarrow> ('a \<Rightarrow> 't \<times> 'a) \<Rightarrow> waker \<Rightarrow> ('t, 'f, 'e, 'a) reader
      \<Rightarrow> unit poll \<times> ('t, 'f, 'e, 'a) reader" where
  "rs_progress ops mk cx s = (Pending, rs_poll_progress ops mk cx s)"

text \<open>\<open>poll_read(cx, &mut output)\<close>: the second component is what \<open>output\<close> holds afterwards.\<close>

definition rs_poll_read ::
    "('t, 'f, 'e) read_file \<Rightarrow> ('a \<Rightarrow> 't \<times> 'a) \<Rightarrow> waker \<Rightarrow> 't \<Rightarrow> ('t, 'f, 'e, 'a) reader
      \<Rightarrow> (unit option, 'e scheduler_error) result poll \<times> 't \<times> ('t, 'f, 'e, 'a) reader" where
  "rs_poll_read ops mk cx output s =
     (let s = rs_poll_progress ops mk cx s
      in case r_error s of
           Some error \<Rightarrow> (Ready (Err error), output, s\<lparr>r_error := None\<rparr>)
         | None \<Rightarrow>
             if r_terminated s then (Ready (Ok None), output, s)
             else case r_frames s of
               [] \<Rightarrow> (Pending, output, s)
             | cell # cells \<Rightarrow>
                 if \<not> c_complete cell then (Pending, output, s)
                 else
                   let s = s\<lparr>r_frames := cells\<rparr>
                   in case c_frame cell of
                     None \<Rightarrow>
                       let s = rs_fail (scheduler_error_from InvalidFramePosition) s
                       in (Ready (case r_error s of Some error \<Rightarrow> Err error | None \<Rightarrow> Ok None),
                           output, s\<lparr>r_error := None\<rparr>)
                   | Some frame \<Rightarrow>
                       let s = s\<lparr>r_emitted := r_emitted s + 1,
                                 r_recycled := r_recycled s @ [output]\<rparr>;
                           s = rs_adjust_capacity (rs_retire s)
                       in (Ready (Ok (Some ())), frame, s))"

text \<open>Dropping the scheduler drops its permit.\<close>

definition rs_drop :: "('t, 'f, 'e, 'a) reader \<Rightarrow> budget \<times> waker list" where
  "rs_drop s = permit_drop (r_permit s) (r_budget s)"

end
