(* ===== verification/Read_Layout.thy ===== *)
theory Read_Layout
  imports Read_Scheduler
begin

text \<open>
  The geometry of the read buffer. Positions are machine words that wrap around; the lemmas here
  read the distances between them as natural numbers, show where in the buffer the next frame of
  each file belongs, and that completing, authorizing and delivering frames keeps the buffer laid
  out file after file.
\<close>

section \<open>Distances\<close>

text \<open>
  Relative to the position \<open>pos\<close> of the next frame to be delivered (or the start of the file, if
  that comes later): how many frames of a file have been delivered, how many of its frames are
  still to be delivered, and how many of those are complete in the buffer.
\<close>

definition s_end :: "'f read_slot \<Rightarrow> usize" where
  "s_end s = s_start s + ucast (s_count s)"

definition delivered :: "usize \<Rightarrow> 'f read_slot \<Rightarrow> nat" where
  "delivered pos s = unat (pos - s_start s)"

definition undelivered :: "usize \<Rightarrow> 'f read_slot \<Rightarrow> nat" where
  "undelivered pos s = unat (s_count s) - delivered pos s"

definition buffered :: "usize \<Rightarrow> 'f read_slot \<Rightarrow> nat" where
  "buffered pos s = unat (s_received s) - delivered pos s"

definition slot_ok :: "usize \<Rightarrow> 'f read_slot \<Rightarrow> bool" where
  "slot_ok pos s \<longleftrightarrow>
     delivered pos s \<le> unat (s_received s) \<and> unat (s_received s) \<le> unat (s_count s) \<and>
     delivered pos s < unat (s_count s) \<and> (s_state s = ROpening \<longrightarrow> s_received s = 0)"

fun span :: "usize \<Rightarrow> 'f read_slot list \<Rightarrow> nat" where
  "span pos [] = 0"
| "span pos (s # ss) = undelivered pos s + span (s_end s) ss"

definition cells_ok :: "nat \<Rightarrow> nat \<Rightarrow> 't cell list \<Rightarrow> bool" where
  "cells_ok k r cs \<longleftrightarrow>
     k \<le> length cs \<and> (\<forall>i < k. c_complete (cs ! i) \<and> c_frame (cs ! i) \<noteq> None) \<and>
     (\<forall>i. k \<le> i \<longrightarrow> i < r \<longrightarrow> i < length cs \<longrightarrow> \<not> c_complete (cs ! i))"

text \<open>
  The buffer holds, file after file, the complete frames of the file and then cells that are not
  complete; it never reaches beyond the frames of the files.
\<close>

fun layout :: "usize \<Rightarrow> 'f read_slot list \<Rightarrow> 't cell list \<Rightarrow> bool" where
  "layout pos [] cs \<longleftrightarrow> cs = []"
| "layout pos (s # ss) cs \<longleftrightarrow>
     slot_ok pos s \<and> cells_ok (buffered pos s) (undelivered pos s) cs \<and>
     layout (s_end s) ss (drop (undelivered pos s) cs)"

fun slot_off :: "usize \<Rightarrow> 'f read_slot list \<Rightarrow> nat \<Rightarrow> nat" where
  "slot_off pos [] i = 0"
| "slot_off pos (s # ss) 0 = buffered pos s"
| "slot_off pos (s # ss) (Suc i) = undelivered pos s + slot_off (s_end s) ss i"

lemma slot_ok_facts:
  assumes "slot_ok pos s"
  shows "buffered pos s \<le> undelivered pos s" "0 < undelivered pos s"
    "undelivered pos s \<le> unat (s_count s)" "undelivered pos s < 2 ^ 32"
    "buffered pos s < undelivered pos s \<longleftrightarrow> s_received s \<noteq> s_count s"
    "unat (s_received s) = delivered pos s + buffered pos s"
    "unat (s_count s) = delivered pos s + undelivered pos s"
  using assms unat_u32_less [of "s_count s"]
  by (auto simp: slot_ok_def buffered_def undelivered_def word_unat_eq_iff)

lemma ucast_u32_nat: "(ucast (c :: u32) :: usize) = of_nat (unat c)"
  by (simp only: of_nat_unat)

lemma usize_diff_nat: "pos - s_start s = of_nat (delivered pos s)"
  by (simp add: delivered_def)

lemma s_end_minus:
  assumes "slot_ok pos s"
  shows "s_end s - pos = of_nat (undelivered pos s)"
proof -
  have "s_end s - pos = ucast (s_count s) - (pos - s_start s)"
    by (simp add: s_end_def)
  also have "\<dots> = of_nat (delivered pos s + undelivered pos s) - of_nat (delivered pos s)"
    by (simp only: ucast_u32_nat slot_ok_facts(7) [OF assms] usize_diff_nat)
  finally show ?thesis by simp
qed

lemma s_received_minus:
  assumes "slot_ok pos s"
  shows "s_start s + ucast (s_received s) - pos = of_nat (buffered pos s)"
proof -
  have "s_start s + ucast (s_received s) - pos
      = ucast (s_received s) - (pos - s_start s)"
    by simp
  also have "\<dots> = of_nat (delivered pos s + buffered pos s) - of_nat (delivered pos s)"
    by (simp only: ucast_u32_nat slot_ok_facts(6) [OF assms] usize_diff_nat)
  finally show ?thesis by simp
qed

text \<open>The offset the code computes with wrapping arithmetic is the distance in frames.\<close>

lemma slot_off_word:
  assumes "layout pos ss cs" "i < length ss"
  shows "s_start (ss ! i) + ucast (s_received (ss ! i)) - pos = of_nat (slot_off pos ss i)"
  using assms
proof (induction pos ss cs arbitrary: i rule: layout.induct)
  case (1 pos cs)
  then show ?case by simp
next
  case (2 pos s ss cs)
  show ?case
  proof (cases i)
    case 0
    with 2 show ?thesis by (simp add: s_received_minus)
  next
    case (Suc j)
    with 2 have "s_start (ss ! j) + ucast (s_received (ss ! j)) - s_end s
        = of_nat (slot_off (s_end s) ss j)" by simp
    moreover have "s_end s - pos = of_nat (undelivered pos s)"
      using 2 by (simp add: s_end_minus)
    ultimately have "(s_end s - pos) + (s_start (ss ! j) + ucast (s_received (ss ! j)) - s_end s)
        = of_nat (undelivered pos s + slot_off (s_end s) ss j)"
      by simp
    with Suc show ?thesis by (simp add: algebra_simps)
  qed
qed

lemma slot_off_less:
  assumes "layout pos ss cs" "i < length ss"
  shows "slot_off pos ss i \<le> span pos ss"
    and "s_received (ss ! i) \<noteq> s_count (ss ! i) \<Longrightarrow> slot_off pos ss i < span pos ss"
  using assms
  by (induction pos ss cs arbitrary: i rule: layout.induct)
    (auto simp: nth_Cons less_Suc_eq_0_disj slot_ok_facts(1) slot_ok_facts(5) trans_le_add1
      trans_less_add1 split: nat.splits)

lemma slot_off_unat:
  assumes "layout pos ss cs" "i < length ss" "span pos ss < 2 ^ 64"
  shows "unat (s_start (ss ! i) + ucast (s_received (ss ! i)) - pos) = slot_off pos ss i"
  using slot_off_word [OF assms(1,2)] slot_off_less(1) [OF assms(1,2)] assms(3)
  by (simp add: unat_of_nat_usize)

lemma layout_slot_ok: "layout pos ss cs \<Longrightarrow> s \<in> set ss \<Longrightarrow> \<exists>pos. slot_ok pos s"
  by (induction pos ss cs rule: layout.induct) auto

lemma layout_length: "layout pos ss cs \<Longrightarrow> length cs \<le> span pos ss"
  by (induction pos ss cs rule: layout.induct) auto


section \<open>The output still to come\<close>

text \<open>
  What the scheduler still owes for one file: its complete frames in the buffer, then as much of
  the content of the file as it declared and has not delivered to the buffer yet.
\<close>

definition piece :: "('f \<Rightarrow> 't list) \<Rightarrow> usize \<Rightarrow> 'f read_slot \<Rightarrow> 't cell list \<Rightarrow> 't list" where
  "piece content pos s cs =
     map (\<lambda>c. the (c_frame c)) (take (buffered pos s) cs) @
     take (unat (s_count s) - unat (s_received s)) (content (s_file s))"

fun pend :: "('f \<Rightarrow> 't list) \<Rightarrow> usize \<Rightarrow> 'f read_slot list \<Rightarrow> 't cell list \<Rightarrow> 't list" where
  "pend content pos [] cs = []"
| "pend content pos (s # ss) cs =
     piece content pos s cs @ pend content (s_end s) ss (drop (undelivered pos s) cs)"

section \<open>Changing one file\<close>

definition slot_cells :: "usize \<Rightarrow> 'f read_slot \<Rightarrow> 't cell list \<Rightarrow> bool" where
  "slot_cells pos s cs \<longleftrightarrow> slot_ok pos s \<and> cells_ok (buffered pos s) (undelivered pos s) cs"

definition same_span :: "'f read_slot \<Rightarrow> 'f read_slot \<Rightarrow> bool" where
  "same_span s s' \<longleftrightarrow> s_start s' = s_start s \<and> s_count s' = s_count s"

lemma same_span_simps:
  assumes "same_span s s'"
  shows "s_end s' = s_end s" "delivered pos s' = delivered pos s"
    "undelivered pos s' = undelivered pos s"
  using assms by (simp_all add: same_span_def s_end_def delivered_def undelivered_def)

lemma span_update:
  "same_span (ss ! i) s' \<Longrightarrow> i < length ss \<Longrightarrow> span pos (ss[i := s']) = span pos ss"
  by (induction pos ss arbitrary: i rule: span.induct)
    (auto simp: nth_Cons same_span_simps split: nat.splits)

text \<open>
  Replacing a file by one with the same place in the stream and the same local view. The output
  still to come is kept when \<open>E\<close> holds (that the file keeps the contract of its trait); the layout
  is kept in any case.
\<close>

lemma layout_update_slot:
  assumes "layout pos ss cs" "i < length ss" "same_span (ss ! i) s'"
    and "\<And>pos cs. slot_cells pos (ss ! i) cs \<Longrightarrow>
      slot_cells pos s' cs \<and> (E \<longrightarrow> piece content pos s' cs = piece content pos (ss ! i) cs)"
  shows "layout pos (ss[i := s']) cs \<and>
    (E \<longrightarrow> pend content pos (ss[i := s']) cs = pend content pos ss cs)"
  using assms
proof (induction pos ss cs arbitrary: i rule: layout.induct)
  case (2 pos s ss cs)
  show ?case
  proof (cases i)
    case 0
    with 2(2,4) 2(5) [of pos cs] show ?thesis
      by (simp add: slot_cells_def same_span_simps)
  next
    case (Suc j)
    with 2(2-5) 2(1) [of j] show ?thesis by simp
  qed
qed simp

text \<open>The same, when the next cell of the file changes with it.\<close>

lemma layout_update_cell:
  assumes "layout pos ss cs" "i < length ss" "same_span (ss ! i) s'"
    and "slot_off pos ss i < length cs" "s_received (ss ! i) \<noteq> s_count (ss ! i)"
    and "\<And>pos cs'. slot_cells pos (ss ! i) cs' \<Longrightarrow> buffered pos (ss ! i) < length cs' \<Longrightarrow>
      buffered pos (ss ! i) < undelivered pos (ss ! i) \<Longrightarrow>
      cs' ! buffered pos (ss ! i) = c \<Longrightarrow>
      slot_cells pos s' (cs'[buffered pos (ss ! i) := c']) \<and>
      (E \<longrightarrow> piece content pos s' (cs'[buffered pos (ss ! i) := c'])
        = piece content pos (ss ! i) cs')"
    and "cs ! slot_off pos ss i = c"
  shows "layout pos (ss[i := s']) (cs[slot_off pos ss i := c']) \<and>
    (E \<longrightarrow> pend content pos (ss[i := s']) (cs[slot_off pos ss i := c']) = pend content pos ss cs)"
  using assms
proof (induction pos ss cs arbitrary: i rule: layout.induct)
  case (2 pos s ss cs)
  note local = 2(7)
  have ok: "slot_ok pos s" "cells_ok (buffered pos s) (undelivered pos s) cs"
    and rest: "layout (s_end s) ss (drop (undelivered pos s) cs)"
    using 2(2) by simp_all
  show ?case
  proof (cases i)
    case 0
    have less: "buffered pos s < undelivered pos s"
      using 2(6) 0 slot_ok_facts(5) [OF ok(1)] by simp
    with 0 2(2,4,5,8) local [of pos cs] rest show ?thesis
      by (simp add: slot_cells_def same_span_simps)
  next
    case (Suc j)
    let ?r = "undelivered pos s" and ?off = "slot_off (s_end s) ss j"
    have off: "slot_off pos (s # ss) i = ?r + ?off" using Suc by simp
    have k: "buffered pos s \<le> ?r" by (rule slot_ok_facts(1) [OF ok(1)])
    have front: "take (buffered pos s) (cs[?r + ?off := c']) = take (buffered pos s) cs"
      using k by simp
    have "cells_ok (buffered pos s) ?r (cs[?r + ?off := c'])"
      using ok(2) k by (auto simp: cells_ok_def)
    moreover have "drop ?r (cs[?r + ?off := c']) = (drop ?r cs)[?off := c']"
      by (simp add: drop_update_swap)
    moreover have "layout (s_end s) (ss[j := s']) ((drop ?r cs)[?off := c']) \<and>
        (E \<longrightarrow> pend content (s_end s) (ss[j := s']) ((drop ?r cs)[?off := c'])
          = pend content (s_end s) ss (drop ?r cs))"
      using Suc 2(3-6,8) local off by (intro 2(1) rest) auto
    ultimately show ?thesis
      using Suc ok(1) front by (simp add: piece_def)
  qed
qed simp

section \<open>What a poll does to its file\<close>

text \<open>Received frames, span and content as before: the file looks the same.\<close>

lemma slot_cells_keep:
  assumes "slot_cells pos s cs" "same_span s s'" "s_received s' = s_received s"
    and "s_state s' = ROpening \<Longrightarrow> s_received s = 0"
    and "E \<Longrightarrow> content (s_file s') = content (s_file s)"
  shows "slot_cells pos s' cs \<and> (E \<longrightarrow> piece content pos s' cs = piece content pos s cs)"
proof -
  have "s_count s' = s_count s" using assms(2) by (simp add: same_span_def)
  moreover have "buffered pos s' = buffered pos s"
    by (simp add: buffered_def same_span_simps [OF assms(2)] assms(3))
  moreover have "slot_ok pos s'"
    using assms(1,4) \<open>s_count s' = s_count s\<close>
    by (simp add: slot_cells_def slot_ok_def same_span_simps [OF assms(2)] assms(3))
  ultimately show ?thesis
    using assms(1,5)
    by (simp add: slot_cells_def piece_def same_span_simps [OF assms(2)] assms(3))
qed

lemma slot_cells_keep_cell:
  assumes "slot_cells pos s cs" "same_span s s'" "s_received s' = s_received s"
    and "s_state s' = ROpening \<Longrightarrow> s_received s = 0"
    and "E \<Longrightarrow> content (s_file s') = content (s_file s)"
    and "\<not> c_complete c'"
  shows "slot_cells pos s' (cs[buffered pos s := c']) \<and>
    (E \<longrightarrow> piece content pos s' (cs[buffered pos s := c']) = piece content pos s cs)"
proof -
  have "slot_cells pos s (cs[buffered pos s := c'])"
    using assms(1,6) by (auto simp: slot_cells_def cells_ok_def nth_list_update)
  from slot_cells_keep [OF this assms(2-5)] show ?thesis
    by (simp add: piece_def)
qed

text \<open>One more frame received: it moves from the content of the file to the buffer.\<close>

lemma slot_cells_receive:
  assumes "slot_cells pos s cs" "same_span s s'"
    and "s_received s' = u32_saturating_inc (s_received s)"
    and "buffered pos s < length cs" "buffered pos s < undelivered pos s"
    and "s_state s' = RReading" "c_complete c'" "c_frame c' = Some t"
    and "E \<Longrightarrow> content (s_file s) = t # content (s_file s')"
  shows "slot_cells pos s' (cs[buffered pos s := c']) \<and>
    (E \<longrightarrow> piece content pos s' (cs[buffered pos s := c']) = piece content pos s cs)"
proof -
  note same = same_span_simps [OF assms(2)]
  have ok: "slot_ok pos s" and cells: "cells_ok (buffered pos s) (undelivered pos s) cs"
    and count: "s_count s' = s_count s"
    using assms(1,2) by (simp_all add: slot_cells_def same_span_def)
  have less: "unat (s_received s) < unat (s_count s)"
    using slot_ok_facts(6,7) [OF ok] assms(5) by linarith
  then have r: "unat (s_received s') = Suc (unat (s_received s))"
    using assms(3) by (simp add: word_less_nat_alt)
  have b: "buffered pos s' = Suc (buffered pos s)"
    using slot_ok_facts(6) [OF ok] by (simp add: buffered_def same r)
  have "slot_ok pos s'"
    using ok less assms(6) by (simp add: slot_ok_def same r count)
  moreover have "cells_ok (Suc (buffered pos s)) (undelivered pos s) (cs[buffered pos s := c'])"
    using cells assms(4,7,8) by (auto simp: cells_ok_def nth_list_update less_Suc_eq)
  ultimately have "slot_cells pos s' (cs[buffered pos s := c'])"
    by (simp add: slot_cells_def same b)
  moreover have "unat (s_count s) - unat (s_received s) =
      Suc (unat (s_count s) - Suc (unat (s_received s)))"
    using less by simp
  moreover have "take (Suc (buffered pos s)) (cs[buffered pos s := c']) =
      take (buffered pos s) cs @ [c']"
    using assms(4) by (simp add: take_Suc_conv_app_nth)
  ultimately show ?thesis
    using assms(8,9) by (auto simp: piece_def b r count)
qed

text \<open>The cell for the next frame of an unfinished file is not complete yet.\<close>

lemma slot_off_incomplete:
  assumes "layout pos ss cs" "i < length ss" "s_received (ss ! i) \<noteq> s_count (ss ! i)"
    and "slot_off pos ss i < length cs"
  shows "\<not> c_complete (cs ! slot_off pos ss i)"
  using assms
proof (induction pos ss cs arbitrary: i rule: layout.induct)
  case (2 pos s ss cs)
  show ?case
  proof (cases i)
    case 0
    with 2 show ?thesis
      using slot_ok_facts(5) [of pos s] by (simp add: cells_ok_def)
  next
    case (Suc j)
    with 2 show ?thesis by auto
  qed
qed simp

section \<open>Admission, authorization and delivery\<close>

lemma layout_end:
  assumes "layout pos ss cs"
  shows "pos + of_nat (span pos ss) = (if ss = [] then pos else s_end (last ss))"
  using assms
proof (induction pos ss cs rule: layout.induct)
  case (2 pos s ss cs)
  then have "s_end s + of_nat (span (s_end s) ss) = (if ss = [] then s_end s else s_end (last ss))"
    and "s_end s = pos + of_nat (undelivered pos s)"
    using s_end_minus [of pos s] by (simp_all add: diff_eq_eq add.commute)
  then show ?case by (simp add: add.assoc [symmetric])
qed simp

lemma layout_append:
  assumes "layout pos ss cs" "s_start s = pos + of_nat (span pos ss)" "s_received s = 0"
    and "s_count s \<noteq> 0"
  shows "layout pos (ss @ [s]) cs"
    and "span pos (ss @ [s]) = span pos ss + unat (s_count s)"
    and "pend content pos (ss @ [s]) cs =
      pend content pos ss cs @ take (unat (s_count s)) (content (s_file s))"
proof -
  have "layout pos (ss @ [s]) cs \<and> span pos (ss @ [s]) = span pos ss + unat (s_count s) \<and>
    pend content pos (ss @ [s]) cs =
      pend content pos ss cs @ take (unat (s_count s)) (content (s_file s))"
    using assms
  proof (induction pos ss cs rule: layout.induct)
    case (1 pos cs)
    then have "delivered pos s = 0" by (simp add: delivered_def)
    with 1 show ?case
      by (simp add: slot_ok_def cells_ok_def buffered_def undelivered_def piece_def unat_gt_0)
  next
    case (2 pos t ss cs)
    have ok: "slot_ok pos t" and cells: "cells_ok (buffered pos t) (undelivered pos t) cs"
      and rest: "layout (s_end t) ss (drop (undelivered pos t) cs)"
      using 2(2) by simp_all
    have "s_start s = s_end t + of_nat (span (s_end t) ss)"
      using s_end_minus [OF ok] unfolding 2(3) by (simp add: diff_eq_eq)
    from 2(1) [OF rest this 2(4,5)] show ?case
      using ok cells by simp
  qed
  then show "layout pos (ss @ [s]) cs"
    and "span pos (ss @ [s]) = span pos ss + unat (s_count s)"
    and "pend content pos (ss @ [s]) cs =
      pend content pos ss cs @ take (unat (s_count s)) (content (s_file s))"
    by simp_all
qed

lemma drop_append_replicate:
  "drop r (cs @ replicate e x) = drop r cs @ replicate (e - (r - length cs)) x"
  by simp

lemma layout_extend:
  assumes "layout pos ss cs" "length cs + e \<le> span pos ss" "\<not> c_complete x"
  shows "layout pos ss (cs @ replicate e x) \<and>
    pend content pos ss (cs @ replicate e x) = pend content pos ss cs"
  using assms
proof (induction pos ss cs arbitrary: e rule: layout.induct)
  case (2 pos s ss cs)
  let ?r = "undelivered pos s"
  have "cells_ok (buffered pos s) ?r (cs @ replicate e x)"
    using 2(2,4) by (auto simp: cells_ok_def nth_append)
  moreover have "length (drop ?r cs) + (e - (?r - length cs)) \<le> span (s_end s) ss"
    using 2(2,3) layout_length [of "s_end s" ss "drop ?r cs"] by auto
  then have "layout (s_end s) ss (drop ?r cs @ replicate (e - (?r - length cs)) x) \<and>
      pend content (s_end s) ss (drop ?r cs @ replicate (e - (?r - length cs)) x)
      = pend content (s_end s) ss (drop ?r cs)"
    using 2(2,4) by (intro 2(1)) auto
  moreover have "buffered pos s \<le> length cs"
    using 2(2) by (simp add: cells_ok_def)
  ultimately show ?case
    using 2(2) by (simp add: drop_append_replicate piece_def)
qed auto

text \<open>Under the layout no file is finished, so nothing is retired between two deliveries.\<close>

lemma retire_files_layout:
  assumes "layout pos ss cs"
  shows "retire_files pos ss cursor = (ss, cursor)"
proof (cases ss)
  case (Cons s ts)
  with assms have ok: "slot_ok pos s" by simp
  have "s_end s \<noteq> pos"
  proof
    assume "s_end s = pos"
    then have "(of_nat (undelivered pos s) :: usize) = 0"
      using s_end_minus [OF ok] by simp
    then have "unat (of_nat (undelivered pos s) :: usize) = 0" by simp
    moreover have "undelivered pos s < 2 ^ 64"
      using slot_ok_facts(4) [OF ok] by simp
    ultimately show False
      using slot_ok_facts(2) [OF ok] by (simp add: unat_of_nat_usize)
  qed
  with Cons show ?thesis by (auto simp: s_end_def)
qed simp

lemma retire_files_set:
  "retire_files pos ss cursor = (ss', cursor') \<Longrightarrow> set ss' \<subseteq> set ss"
  by (induction pos ss cursor rule: retire_files.induct) (auto split: if_splits)

lemma delivered_Suc:
  assumes "slot_ok pos s"
  shows "delivered (pos + 1) s = Suc (delivered pos s)"
proof -
  have "delivered pos s < 2 ^ 32"
    using assms unat_u32_less [of "s_count s"] by (simp add: slot_ok_def)
  moreover have "pos + 1 - s_start s = of_nat (Suc (delivered pos s))"
    using usize_diff_nat [of pos s] by (simp add: algebra_simps)
  ultimately show ?thesis
    unfolding delivered_def [of "pos + 1"] by (simp add: unat_of_nat_usize del: of_nat_Suc)
qed

text \<open>Delivering the first cell moves on by one frame, and retires its file with its last frame.\<close>

lemma layout_emit:
  assumes lay: "layout pos ss (c # cs)" and "c_complete c"
    and ret: "retire_files (pos + 1) ss cursor = (ss', cursor')"
  shows "c_frame c \<noteq> None \<and> layout (pos + 1) ss' cs \<and> span pos ss = Suc (span (pos + 1) ss') \<and>
    pend content pos ss (c # cs) = the (c_frame c) # pend content (pos + 1) ss' cs"
proof -
  obtain s ts where ss: "ss = s # ts" using lay by (cases ss) auto
  have ok: "slot_ok pos s" and cells: "cells_ok (buffered pos s) (undelivered pos s) (c # cs)"
    and rest: "layout (s_end s) ts (drop (undelivered pos s) (c # cs))"
    using lay by (simp_all add: ss)
  note facts = slot_ok_facts [OF ok]
  have pos: "0 < buffered pos s"
    using cells \<open>c_complete c\<close> facts(2) by (auto simp: cells_ok_def)
  then have frame: "c_frame c \<noteq> None"
    using cells by (auto simp: cells_ok_def)
  have piece: "piece content pos s (c # cs) = the (c_frame c) #
      map (\<lambda>c. the (c_frame c)) (take (buffered pos s - 1) cs) @
      take (unat (s_count s) - unat (s_received s)) (content (s_file s))"
    using pos by (cases "buffered pos s") (simp_all add: piece_def)
  show ?thesis
  proof (cases "undelivered pos s = 1")
    case True
    then have one: "buffered pos s = 1" "unat (s_received s) = unat (s_count s)"
      using pos facts(1,6,7) by simp_all
    have "pos + 1 = s_end s"
      using s_end_minus [OF ok] True by (simp add: algebra_simps)
    then have "ss' = ts"
      using ret retire_files_layout [OF rest] by (simp add: ss s_end_def)
    with \<open>pos + 1 = s_end s\<close> rest show ?thesis
      using True one piece frame by (simp add: ss)
  next
    case False
    have d: "delivered (pos + 1) s = Suc (delivered pos s)" by (rule delivered_Suc [OF ok])
    then have u: "undelivered (pos + 1) s = undelivered pos s - 1"
      and b: "buffered (pos + 1) s = buffered pos s - 1"
      by (simp_all add: undelivered_def buffered_def)
    have ok': "slot_ok (pos + 1) s"
      using ok pos facts(2,6,7) False by (auto simp: slot_ok_def d)
    have cells': "cells_ok (buffered (pos + 1) s) (undelivered (pos + 1) s) cs"
      unfolding cells_ok_def u b
    proof (intro conjI allI impI)
      show "buffered pos s - 1 \<le> length cs" using cells by (auto simp: cells_ok_def)
      show "c_complete (cs ! i)" "c_frame (cs ! i) \<noteq> None" if "i < buffered pos s - 1" for i
        using cells that unfolding cells_ok_def by (metis Suc_less_eq2 less_diff_conv
            Suc_eq_plus1 nth_Cons_Suc)+
      show "\<not> c_complete (cs ! i)"
        if "buffered pos s - 1 \<le> i" "i < undelivered pos s - 1" "i < length cs" for i
      proof -
        have "buffered pos s \<le> Suc i" "Suc i < undelivered pos s" "Suc i < length (c # cs)"
          using that by auto
        then have "\<not> c_complete ((c # cs) ! Suc i)" using cells by (auto simp only: cells_ok_def)
        then show ?thesis by simp
      qed
    qed
    have drop: "drop (undelivered pos s) (c # cs) = drop (undelivered pos s - 1) cs"
      using facts(2) by (cases "undelivered pos s") simp_all
    have lay': "layout (pos + 1) ss cs"
      using ok' cells' rest by (simp add: ss u drop)
    then have "ss' = ss" using ret retire_files_layout by fastforce
    moreover have "span pos ss = Suc (span (pos + 1) ss)"
      using facts(2) by (simp add: ss u)
    moreover have "piece content (pos + 1) s cs = map (\<lambda>c. the (c_frame c))
        (take (buffered pos s - 1) cs) @
        take (unat (s_count s) - unat (s_received s)) (content (s_file s))"
      by (simp add: piece_def b)
    ultimately show ?thesis
      using lay' frame piece drop by (simp add: ss u)
  qed
qed

end
