(* ===== verification/Read_Phase.thy ===== *)
theory Read_Phase
  imports Read_Layout
begin

text \<open>
  The phases of the files of a reader. A file that is within a frame finds the buffer it left in
  its next cell: no other file, no delivery and no growth of the buffer touches that cell until
  the file is polled again.
\<close>

definition cell_off :: "usize \<Rightarrow> 'f read_slot \<Rightarrow> nat" where
  "cell_off emitted slot = unat (s_start slot + ucast (s_received slot) - emitted)"

definition slot_fits ::
    "('f \<Rightarrow> 't reading \<Rightarrow> bool) \<Rightarrow> usize \<Rightarrow> 't cell list \<Rightarrow> 'f read_slot \<Rightarrow> bool" where
  "slot_fits fits emitted cells slot \<longleftrightarrow>
     (case s_state slot of
        ROpening \<Rightarrow> fits (s_file slot) Fresh
      | RReading \<Rightarrow> fits (s_file slot) Between \<or>
          (\<exists>t. fits (s_file slot) (Within t) \<and> s_received slot \<noteq> s_count slot \<and>
             cell_off emitted slot < length cells \<and>
             c_frame (cells ! cell_off emitted slot) = Some t))"

definition files_fit ::
    "('f \<Rightarrow> 't reading \<Rightarrow> bool) \<Rightarrow> usize \<Rightarrow> 'f read_slot list \<Rightarrow> 't cell list \<Rightarrow> bool" where
  "files_fit fits emitted files cells \<longleftrightarrow> list_all (slot_fits fits emitted cells) files"

lemma slot_fits_append:
  "slot_fits fits emitted cells slot \<Longrightarrow> slot_fits fits emitted (cells @ xs) slot"
  by (auto simp: slot_fits_def nth_append split: read_state.splits)

lemma slot_fits_same:
  assumes "slot_fits fits emitted cells slot" "s_file slot' = s_file slot"
    and "s_state slot' = s_state slot" "same_span slot slot'" "s_received slot' = s_received slot"
  shows "slot_fits fits emitted cells slot'"
  using assms by (auto simp: slot_fits_def cell_off_def same_span_def split: read_state.splits)

text \<open>The next cells of two unfinished files are different.\<close>

lemma slot_off_mono:
  assumes "layout pos ss cs" "i < j" "j < length ss" "s_received (ss ! i) \<noteq> s_count (ss ! i)"
  shows "slot_off pos ss i < slot_off pos ss j"
  using assms
proof (induction pos ss cs arbitrary: i j rule: layout.induct)
  case (2 pos s ss cs)
  obtain k where j: "j = Suc k" using 2(3) by (cases j) auto
  have ok: "slot_ok pos s" and rest: "layout (s_end s) ss (drop (undelivered pos s) cs)"
    using 2(2) by simp_all
  show ?case
  proof (cases i)
    case 0
    with 2(5) slot_ok_facts(5) [OF ok] j show ?thesis by simp
  next
    case (Suc h)
    with 2(1) [OF rest, of h k] 2(3-5) j show ?thesis by simp
  qed
qed simp

lemma slot_off_neq:
  assumes "layout pos ss cs" "i < length ss" "j < length ss" "i \<noteq> j"
    and "s_received (ss ! i) \<noteq> s_count (ss ! i)" "s_received (ss ! j) \<noteq> s_count (ss ! j)"
  shows "slot_off pos ss i \<noteq> slot_off pos ss j"
  using slot_off_mono [OF assms(1), of i j] slot_off_mono [OF assms(1), of j i] assms(2-6)
  by (cases i j rule: linorder_cases) auto

lemma cell_off_slot:
  assumes "layout pos ss cs" "i < length ss" "span pos ss < 2 ^ 64"
  shows "cell_off pos (ss ! i) = slot_off pos ss i"
  unfolding cell_off_def by (rule slot_off_unat [OF assms])

text \<open>Storing a slot, and storing a slot with its next cell.\<close>

lemma files_fit_slot:
  assumes "files_fit fits pos ss cs" "slot_fits fits pos cs s'"
  shows "files_fit fits pos (ss[i := s']) cs"
  using assms set_update_subset_insert [of ss i s'] by (auto simp: files_fit_def list_all_iff)

lemma files_fit_cell:
  assumes fit: "files_fit fits pos ss cs" and lay: "layout pos ss cs" "span pos ss < 2 ^ 64"
    and i: "i < length ss" "s_received (ss ! i) \<noteq> s_count (ss ! i)"
    and s': "slot_fits fits pos (cs[slot_off pos ss i := c]) s'"
  shows "files_fit fits pos (ss[i := s']) (cs[slot_off pos ss i := c])"
  unfolding files_fit_def list_all_length
proof (intro allI impI)
  fix j assume "j < length (ss[i := s'])"
  then have j: "j < length ss" by simp
  show "slot_fits fits pos (cs[slot_off pos ss i := c]) (ss[i := s'] ! j)"
  proof (cases "i = j")
    case True
    with s' j show ?thesis by simp
  next
    case False
    have "slot_fits fits pos cs (ss ! j)" using fit j by (simp add: files_fit_def list_all_length)
    moreover have "cell_off pos (ss ! j) \<noteq> slot_off pos ss i"
      if "s_received (ss ! j) \<noteq> s_count (ss ! j)"
      using slot_off_neq [OF lay(1) i(1) j False i(2) that] cell_off_slot [OF lay(1) j lay(2)] by simp
    ultimately show ?thesis using False j
      by (auto simp: slot_fits_def split: read_state.splits)
  qed
qed

text \<open>Growing the buffer, and delivering its first cell.\<close>

lemma files_fit_append: "files_fit fits pos ss cs \<Longrightarrow> files_fit fits pos ss (cs @ xs)"
  by (auto simp: files_fit_def list_all_iff intro: slot_fits_append)

lemma files_fit_emit:
  assumes fit: "files_fit fits pos ss (c # cs)" and lay: "layout pos ss (c # cs)" "span pos ss < 2 ^ 64"
    and c: "c_complete c" and sub: "set ss' \<subseteq> set ss"
  shows "files_fit fits (pos + 1) ss' cs"
proof -
  have "slot_fits fits (pos + 1) cs (ss ! i)" if i: "i < length ss" for i
  proof -
    let ?s = "ss ! i"
    have s: "slot_fits fits pos (c # cs) ?s" using fit i by (simp add: files_fit_def list_all_length)
    have off: "cell_off (pos + 1) ?s < length cs \<and>
        c_frame (cs ! cell_off (pos + 1) ?s) = Some t"
      if t: "s_received ?s \<noteq> s_count ?s" "cell_off pos ?s < length (c # cs)"
        "c_frame ((c # cs) ! cell_off pos ?s) = Some t" for t
    proof -
      have "\<not> c_complete ((c # cs) ! cell_off pos ?s)"
        using slot_off_incomplete [OF lay(1) i t(1)] t(2) cell_off_slot [OF lay(1) i lay(2)] by simp
      then have "cell_off pos ?s \<noteq> 0" using c by (auto intro: ccontr)
      then have "s_start ?s + ucast (s_received ?s) - pos \<noteq> 0"
        by (simp add: cell_off_def unat_eq_zero)
      then have "cell_off pos ?s = Suc (cell_off (pos + 1) ?s)"
        unfolding cell_off_def using unat_minus_one [of "s_start ?s + ucast (s_received ?s) - pos"]
        by (simp add: diff_diff_eq [symmetric] unat_gt_0 Suc_pred)
      with t show ?thesis by simp
    qed
    with s show ?thesis
      by (auto simp: slot_fits_def split: read_state.splits)
  qed
  then show ?thesis using sub by (fastforce simp: files_fit_def list_all_iff in_set_conv_nth)
qed

end
