(* ===== verification/Read_Invariant.thy ===== *)
theory Read_Invariant
  imports Read_Phase
begin

text \<open>
  The invariant of the read scheduler and what every internal step keeps: the buffer is laid out
  file after file and within the grant, logical positions stay consistent, the window stays
  valid, retries stay within their limit, the shared budget is only touched through the permit,
  and, when the files keep the contract of their trait, no step loses, repeats or reorders output.
\<close>

section \<open>Invariant\<close>

definition rs_inv :: "('t, 'f, 'e, 'a) reader \<Rightarrow> bool" where
  "rs_inv s \<longleftrightarrow>
     layout (r_emitted s) (r_files s) (r_frames s) \<and>
     span (r_emitted s) (r_files s) < 2 ^ 64 \<and>
     (\<not> r_terminated s \<longrightarrow>
        r_discovered s = r_emitted s + of_nat (span (r_emitted s) (r_files s))) \<and>
     length (r_frames s) \<le> p_capacity (r_permit s) \<and>
     valid_window (window (r_config s)) \<and>
     (\<forall>slot \<in> set (r_files s). s_retries slot \<le> max_retries (r_config s)) \<and>
     (r_terminated s \<longrightarrow> r_files s = []) \<and>
     (r_error s \<noteq> None \<longrightarrow> r_terminated s)"

text \<open>The output the scheduler still owes, in order.\<close>

definition rs_pend :: "('f \<Rightarrow> 't list) \<Rightarrow> ('t, 'f, 'e, 'a) reader \<Rightarrow> 't list" where
  "rs_pend content s = pend content (r_emitted s) (r_files s) (r_frames s)"

text \<open>Every file is in the phase that its slot and its next cell say.\<close>

definition rs_fits :: "('f \<Rightarrow> 't reading \<Rightarrow> bool) \<Rightarrow> ('t, 'f, 'e, 'a) reader \<Rightarrow> bool" where
  "rs_fits fits s \<longleftrightarrow> files_fit fits (r_emitted s) (r_files s) (r_frames s)"

lemma rs_fits_any [simp]: "rs_fits (\<lambda>_ _. True) s"
  by (auto simp: rs_fits_def files_fit_def slot_fits_def list_all_iff split: read_state.splits)

lemma rs_fits_no_files: "r_files s = [] \<Longrightarrow> rs_fits fits s"
  by (simp add: rs_fits_def files_fit_def)

definition rs_owes ::
    "('f \<Rightarrow> 't list) \<Rightarrow> ('f \<Rightarrow> 't reading \<Rightarrow> bool) \<Rightarrow> ('t, 'f, 'e, 'a) reader \<Rightarrow> ('t, 'f, 'e, 'a) reader \<Rightarrow> bool" where
  "rs_owes content fits s s' \<longleftrightarrow>
     (rs_fits fits s \<longrightarrow> rs_fits fits s' \<and> rs_pend content s' = rs_pend content s)"

text \<open>\<open>rs_moves\<close>: what a step of the driving loop may change. \<open>E\<close> is the contract of the files.\<close>

definition rs_moves ::
    "bool \<Rightarrow> ('f \<Rightarrow> 't list) \<Rightarrow> ('f \<Rightarrow> 't reading \<Rightarrow> bool)
      \<Rightarrow> ('t, 'f, 'e, 'a) reader \<Rightarrow> ('t, 'f, 'e, 'a) reader \<Rightarrow> bool" where
  "rs_moves E content fits s s' \<longleftrightarrow>
     rs_inv s' \<and> (E \<longrightarrow> rs_owes content fits s s') \<and>
     permit_run (r_permit s, r_budget s) (r_permit s', r_budget s') \<and>
     r_config s' = r_config s \<and> r_emitted s' = r_emitted s \<and>
     r_discovered s' = r_discovered s \<and> r_closed s' = r_closed s \<and>
     r_terminated s' = r_terminated s \<and> r_error s' = r_error s \<and>
     length (r_files s') = length (r_files s)"

lemma rs_moves_refl: "rs_inv s \<Longrightarrow> rs_moves E content fits s s"
  by (simp add: rs_moves_def rs_owes_def)

lemma rs_moves_trans:
  "rs_moves E content fits s s' \<Longrightarrow> rs_moves E content fits s' s'' \<Longrightarrow> rs_moves E content fits s s''"
  by (simp add: rs_moves_def) (auto simp: rs_owes_def intro: permit_run_trans)

lemma rs_inv_log [simp]:
  "rs_inv (s\<lparr>r_cursor := c\<rparr>) = rs_inv s" "rs_inv (s\<lparr>r_wakes := w\<rparr>) = rs_inv s"
  by (simp_all add: rs_inv_def)

lemma rs_inv_distance:
  assumes "rs_inv s" "\<not> r_terminated s"
  shows "unat (r_discovered s - r_emitted s) = span (r_emitted s) (r_files s)"
  using assms by (simp add: rs_inv_def unat_of_nat_usize)

lemma rs_inv_no_files:
  assumes "rs_inv s" "r_files s = []"
  shows "r_frames s = []" "rs_pend content s = []"
  using assms by (simp_all add: rs_inv_def rs_pend_def)

text \<open>Fields of the record that play no role in the invariant.\<close>

lemma rs_moves_frame:
  assumes "rs_inv s" "r_files s' = r_files s" "r_frames s' = r_frames s"
    and "r_permit s' = r_permit s" "r_budget s' = r_budget s" "r_config s' = r_config s"
    and "r_emitted s' = r_emitted s" "r_discovered s' = r_discovered s"
    and "r_closed s' = r_closed s" "r_terminated s' = r_terminated s" "r_error s' = r_error s"
  shows "rs_moves E content fits s s'"
  using assms by (simp add: rs_moves_def rs_inv_def rs_owes_def rs_fits_def rs_pend_def)

section \<open>Capacity\<close>

lemma rs_shrink_to_sel:
  "r_files (rs_shrink_to n s) = r_files s" "r_frames (rs_shrink_to n s) = r_frames s"
  "r_config (rs_shrink_to n s) = r_config s" "r_emitted (rs_shrink_to n s) = r_emitted s"
  "r_discovered (rs_shrink_to n s) = r_discovered s" "r_closed (rs_shrink_to n s) = r_closed s"
  "r_terminated (rs_shrink_to n s) = r_terminated s" "r_error (rs_shrink_to n s) = r_error s"
  "r_recycled (rs_shrink_to n s) = r_recycled s" "r_factory (rs_shrink_to n s) = r_factory s"
  "r_cursor (rs_shrink_to n s) = r_cursor s"
  "p_capacity (r_permit (rs_shrink_to n s)) = min (p_capacity (r_permit s)) n"
  "p_request (r_permit (rs_shrink_to n s)) = p_request (r_permit s)"
  by (auto simp: rs_shrink_to_def shrink_to_sel split: prod.splits)

lemma rs_shrink_to_run:
  "permit_run (r_permit s, r_budget s)
     (r_permit (rs_shrink_to n s), r_budget (rs_shrink_to n s))"
  by (auto simp: rs_shrink_to_def split: prod.splits intro: permit_run_shrink1)

lemma rs_shrink_to_moves:
  assumes "rs_inv s" "length (r_frames s) \<le> n"
  shows "rs_moves E content fits s (rs_shrink_to n s)"
  using assms rs_shrink_to_run [of s n]
  by (simp add: rs_moves_def rs_inv_def rs_owes_def rs_fits_def rs_pend_def rs_shrink_to_sel)

lemma rs_adjust_capacity_moves:
  assumes "rs_inv s"
  shows "rs_moves E content fits s (rs_adjust_capacity s)"
  using assms
  by (auto simp: rs_adjust_capacity_def Let_def rs_used_def rs_moves_refl
      intro!: rs_shrink_to_moves)

text \<open>The capacity request is always valid, so it never fails the scheduler.\<close>

lemma rs_request_capacity_moves:
  assumes "rs_inv s"
  shows "\<exists>s'. rs_request_capacity cx s = (Ok (), s') \<and> rs_moves E content fits s s' \<and>
    r_files s' = r_files s \<and> r_frames s' = r_frames s \<and> r_wakes s' = r_wakes s \<and>
    r_recycled s' = r_recycled s \<and> r_factory s' = r_factory s"
proof -
  let ?target = "min (target_frames (window (r_config s))) (total_capacity (r_budget s))"
  let ?min = "min (usize_saturating_add (p_capacity (r_permit s)) (min ?target 32)) ?target"
  obtain res p' b' where g:
    "poll_grow cx ?min ?target (r_permit s) (r_budget s) = (res, p', b')"
    by (metis prod_cases3)
  have "res \<noteq> Ready (Err e)" for e
  proof
    assume "res = Ready (Err e)"
    with g have "poll_grow cx ?min ?target (r_permit s) (r_budget s) = (Ready (Err e), p', b')"
      by simp
    then show False
      by (rule fg.grow_no_error) (simp_all only: min.cobounded2 total_capacity_def)
  qed
  moreover have "rs_moves E content fits s (s\<lparr>r_permit := p', r_budget := b'\<rparr>)"
    using assms permit_run_grow1 [OF g] fg.grow_covers [OF g]
    by (simp add: rs_moves_def rs_inv_def rs_owes_def rs_fits_def rs_pend_def)
  ultimately show ?thesis
    using assms
    by (auto simp: rs_request_capacity_def Let_def g rs_moves_refl
        split: poll.splits result.splits)
qed

lemma rs_authorize_moves:
  assumes "rs_inv s" "\<not> r_terminated s"
  shows "rs_moves E content fits s (rs_authorize s)"
proof -
  let ?x = "\<lparr>c_frame = None, c_complete = False\<rparr>"
  let ?e = "min (min (p_capacity (r_permit s)) (target_frames (window (r_config s)))
      - length (r_frames s)) (span (r_emitted s) (r_files s) - length (r_frames s))"
  have "length (r_frames s) + ?e \<le> span (r_emitted s) (r_files s)"
    using assms(1) layout_length by (fastforce simp: rs_inv_def)
  then have "layout (r_emitted s) (r_files s) (r_frames s @ replicate ?e ?x) \<and>
      pend content (r_emitted s) (r_files s) (r_frames s @ replicate ?e ?x)
      = pend content (r_emitted s) (r_files s) (r_frames s)"
    using assms(1) by (intro layout_extend) (auto simp: rs_inv_def)
  moreover have "length (r_frames s) + ?e \<le> p_capacity (r_permit s)"
    using assms(1) by (auto simp: rs_inv_def)
  ultimately show ?thesis
    using assms(1)
    by (simp add: rs_moves_def rs_authorize_def Let_def rs_used_def rs_inv_distance [OF assms]
        rs_owes_def rs_fits_def files_fit_append rs_pend_def rs_inv_def)
qed

text \<open>Between two deliveries retiring changes nothing.\<close>

lemma rs_retire_inv: "rs_inv s \<Longrightarrow> rs_retire s = s"
  by (simp add: rs_retire_def rs_inv_def
      retire_files_layout [of "r_emitted s" "r_files s" "r_frames s"])

section \<open>Polling a file\<close>

text \<open>
  The errors a reader can end with: an error of a file, or a file that ends early. The checks of
  frame positions and of the capacity request never fire.
\<close>

definition reportable :: "'e scheduler_error \<Rightarrow> bool" where
  "reportable e \<longleftrightarrow> (\<exists>b. e = Backend b) \<or> e = Contract UnexpectedEof"

lemma reportable_simps [simp]:
  "reportable (Backend b)" "reportable (Contract UnexpectedEof)"
  "\<not> reportable (Contract InvalidFramePosition)"
  by (simp_all add: reportable_def)

text \<open>Storing a changed slot, with or without a changed cell.\<close>

lemma rs_moves_slot:
  assumes "rs_inv s" "i < length (r_files s)" "same_span (r_files s ! i) slot"
    and "s_received slot = s_received (r_files s ! i)"
    and "s_state slot = ROpening \<Longrightarrow> s_received (r_files s ! i) = 0"
    and "s_retries slot \<le> max_retries (r_config s)"
    and "E \<Longrightarrow> rs_fits fits s \<Longrightarrow> content (s_file slot) = content (s_file (r_files s ! i)) \<and>
      slot_fits fits (r_emitted s) (r_frames s) slot"
  shows "rs_moves E content fits s (s\<lparr>r_files := (r_files s)[i := slot]\<rparr>)"
proof -
  have "layout (r_emitted s) ((r_files s)[i := slot]) (r_frames s) \<and>
    (E \<and> rs_fits fits s \<longrightarrow> pend content (r_emitted s) ((r_files s)[i := slot]) (r_frames s)
      = pend content (r_emitted s) (r_files s) (r_frames s))"
    using assms by (intro layout_update_slot slot_cells_keep) (auto simp: rs_inv_def)
  moreover have "span (r_emitted s) ((r_files s)[i := slot]) = span (r_emitted s) (r_files s)"
    by (rule span_update [OF assms(3,2)])
  ultimately show ?thesis
    using assms(1,2,6,7)
    by (auto simp: rs_moves_def rs_inv_def rs_owes_def rs_fits_def rs_pend_def files_fit_slot dest!: set_update_subset_insert [THEN subsetD])
qed

lemma rs_fits_slot:
  assumes "rs_fits fits s" "i < length (r_files s)"
  shows "slot_fits fits (r_emitted s) (r_frames s) (r_files s ! i)"
  using assms by (simp add: rs_fits_def files_fit_def list_all_length)

lemma rs_moves_cell:
  fixes s :: "('t, 'f, 'e, 'a) reader" and content :: "'f \<Rightarrow> 't list"
  assumes "rs_inv s" "i < length (r_files s)" "same_span (r_files s ! i) slot"
    and "s_retries slot = s_retries (r_files s ! i)"
    and "s_received (r_files s ! i) \<noteq> s_count (r_files s ! i)"
    and "slot_off (r_emitted s) (r_files s) i < length (r_frames s)"
    and "s_state slot = RReading"
    and "(s_received slot = s_received (r_files s ! i) \<and> \<not> c_complete cell \<and>
          (E \<and> rs_fits fits s \<longrightarrow> content (s_file slot) = content (s_file (r_files s ! i)))) \<or>
         (s_received slot = u32_saturating_inc (s_received (r_files s ! i)) \<and> c_complete cell \<and>
          c_frame cell = Some t \<and>
          (E \<and> rs_fits fits s \<longrightarrow> content (s_file (r_files s ! i)) = t # content (s_file slot)))"
    and fit: "E \<Longrightarrow> rs_fits fits s \<Longrightarrow> slot_fits fits (r_emitted s)
      ((r_frames s)[slot_off (r_emitted s) (r_files s) i := cell]) slot"
  shows "rs_moves E content fits s
    (s\<lparr>r_frames := (r_frames s)[slot_off (r_emitted s) (r_files s) i := cell],
       r_files := (r_files s)[i := slot]\<rparr>)"
proof -
  have "layout (r_emitted s) ((r_files s)[i := slot])
      ((r_frames s)[slot_off (r_emitted s) (r_files s) i := cell]) \<and>
    (E \<and> rs_fits fits s \<longrightarrow> pend content (r_emitted s) ((r_files s)[i := slot])
        ((r_frames s)[slot_off (r_emitted s) (r_files s) i := cell])
      = pend content (r_emitted s) (r_files s) (r_frames s))"
  proof (rule layout_update_cell)
    fix pos :: usize and cs' :: "'t cell list"
    assume local: "slot_cells pos (r_files s ! i) cs'" "buffered pos (r_files s ! i) < length cs'"
      "buffered pos (r_files s ! i) < undelivered pos (r_files s ! i)"
    show "slot_cells pos slot (cs'[buffered pos (r_files s ! i) := cell]) \<and>
      (E \<and> rs_fits fits s \<longrightarrow> piece content pos slot (cs'[buffered pos (r_files s ! i) := cell])
        = piece content pos (r_files s ! i) cs')"
      using assms(8)
    proof
      assume "s_received slot = s_received (r_files s ! i) \<and> \<not> c_complete cell \<and>
          (E \<and> rs_fits fits s \<longrightarrow> content (s_file slot) = content (s_file (r_files s ! i)))"
      then show ?thesis
        using assms(7) by (intro slot_cells_keep_cell local assms(3)) auto
    next
      assume "s_received slot = u32_saturating_inc (s_received (r_files s ! i)) \<and>
          c_complete cell \<and> c_frame cell = Some t \<and>
          (E \<and> rs_fits fits s \<longrightarrow> content (s_file (r_files s ! i)) = t # content (s_file slot))"
      then show ?thesis
        using assms(7) by (intro slot_cells_receive [OF local(1) assms(3)] local) auto
    qed
  qed (use assms in \<open>auto simp: rs_inv_def\<close>)
  moreover have "span (r_emitted s) ((r_files s)[i := slot]) = span (r_emitted s) (r_files s)"
    by (rule span_update [OF assms(3,2)])
  moreover have "s_retries slot \<le> max_retries (r_config s)"
    using assms(1,2,4) by (simp add: rs_inv_def)
  moreover have "files_fit fits (r_emitted s) ((r_files s)[i := slot])
      ((r_frames s)[slot_off (r_emitted s) (r_files s) i := cell])" if "E" "rs_fits fits s"
    using assms(1,2,5) fit [OF that] that(2)
    by (intro files_fit_cell) (simp_all add: rs_inv_def rs_fits_def)
  ultimately show ?thesis
    using assms(1,2)
    by (auto simp: rs_moves_def rs_inv_def rs_owes_def rs_fits_def rs_pend_def files_fit_slot dest!: set_update_subset_insert [THEN subsetD])
qed

lemma u32_saturating_inc_le: "(x :: u32) \<le> y \<Longrightarrow> x \<noteq> y \<Longrightarrow> u32_saturating_inc x \<le> y"
  using u32_saturating_inc_less [of x y] by (simp add: word_le_nat_alt word_less_nat_alt
      Suc_le_eq order_less_le word_unat_eq_iff)

lemma rs_inv_opening:
  assumes "rs_inv s" "i < length (r_files s)" "s_state (r_files s ! i) = ROpening"
  shows "s_received (r_files s ! i) = 0"
  using assms layout_slot_ok [of "r_emitted s" "r_files s" "r_frames s" "r_files s ! i"]
  by (auto simp: rs_inv_def slot_ok_def)

lemma rs_inv_retries:
  "rs_inv s \<Longrightarrow> i < length (r_files s) \<Longrightarrow>
     s_retries (r_files s ! i) \<le> max_retries (r_config s)"
  by (simp add: rs_inv_def)

lemma rs_inv_offset:
  assumes "rs_inv s" "i < length (r_files s)"
  shows "unat (s_start (r_files s ! i) + ucast (s_received (r_files s ! i)) - r_emitted s)
    = slot_off (r_emitted s) (r_files s) i"
  using assms slot_off_unat [of "r_emitted s" "r_files s" "r_frames s" i]
  by (simp add: rs_inv_def)

lemma rs_poll_opening_moves:
  fixes s :: "('t, 'f, 'e, 'a) reader" and content :: "'f \<Rightarrow> 't list"
  assumes inv: "rs_inv s" and i: "i < length (r_files s)"
    and st: "s_state (r_files s ! i) = ROpening"
    and p: "rs_poll_opening ops cx i remaining s = (res, remaining', s')"
  shows "rs_moves (read_file_contract ops fits content) content fits s s' \<and>
    (\<forall>e. res = Err e \<longrightarrow> reportable e)"
proof -
  let ?slot = "r_files s ! i"
  obtain r f where o: "rf_poll_open ops cx (s_file ?slot) = (r, f)" by fastforce
  have f: "content f = content (s_file ?slot) \<and> fits f (ready_read r)"
    if "read_file_contract ops fits content" "rs_fits fits s"
    using that o rs_fits_slot [OF that(2) i] st
    by (auto simp: read_file_contract_def slot_fits_def)
  have z: "s_received ?slot = 0" by (rule rs_inv_opening [OF inv i st])
  have max: "s_retries ?slot \<le> max_retries (r_config s)" by (rule rs_inv_retries [OF inv i])
  have store: "rs_moves (read_file_contract ops fits content) content fits s
      (s\<lparr>r_files := (r_files s)[i := slot]\<rparr>)"
    if "s_start slot = s_start ?slot" "s_count slot = s_count ?slot" "s_file slot = f"
      "s_received slot = s_received ?slot" "s_retries slot \<le> max_retries (r_config s)"
      and ph: "ready_read r = (case s_state slot of ROpening \<Rightarrow> (Fresh :: 't reading) | RReading \<Rightarrow> Between)" for slot
  proof -
    have "slot_fits fits (r_emitted s) (r_frames s) slot"
      if "read_file_contract ops fits content" "rs_fits fits s"
      using f [OF that, unfolded ph] \<open>s_file slot = f\<close>
      by (cases "s_state slot") (simp_all add: slot_fits_def)
    with that f z show ?thesis
      by (intro rs_moves_slot [OF inv i]) (simp_all add: same_span_def)
  qed
  show ?thesis
  proof (cases r)
    case Pending
    with p o max st show ?thesis by (auto simp: ready_read_def rs_poll_opening_def intro!: store)
  next
    case (Ready x)
    with p o max st show ?thesis
      by (cases x) (auto simp: ready_read_def rs_poll_opening_def Let_def intro!: store u32_saturating_inc_le
          split: if_splits)
  qed
qed

text \<open>A read that has filled its cell or left its frame in it, after a buffer was taken.\<close>

lemma rs_moves_buffered:
  fixes s :: "('t, 'f, 'e, 'a) reader" and content :: "'f \<Rightarrow> 't list"
  assumes inv: "rs_inv s" and i: "i < length (r_files s)"
    and off: "off = slot_off (r_emitted s) (r_files s) i" and cells: "off < length (r_frames s)"
    and open_slot: "s_received (r_files s ! i) \<noteq> s_count (r_files s ! i)"
    and span: "s_start slot = s_start (r_files s ! i)" "s_count slot = s_count (r_files s ! i)"
      "s_retries slot = s_retries (r_files s ! i)" "s_state slot = RReading"
    and moved: "(s_received slot = s_received (r_files s ! i) \<and> \<not> c_complete cell \<and>
        (E \<and> rs_fits fits s \<longrightarrow> content (s_file slot) = content (s_file (r_files s ! i)))) \<or>
      (s_received slot = u32_saturating_inc (s_received (r_files s ! i)) \<and> c_complete cell \<and>
        c_frame cell = Some t' \<and>
        (E \<and> rs_fits fits s \<longrightarrow> content (s_file (r_files s ! i)) = t' # content (s_file slot)))"
    and fit: "E \<Longrightarrow> rs_fits fits s \<Longrightarrow> fits (s_file slot) Between \<or> (\<not> c_complete cell \<and>
        c_frame cell = Some t' \<and> fits (s_file slot) (Within t'))"
  shows "rs_moves E content fits s (s\<lparr>r_recycled := recycled, r_factory := factory,
    r_frames := (r_frames s)[off := cell], r_files := (r_files s)[i := slot]\<rparr>)"
proof -
  let ?s = "s\<lparr>r_recycled := recycled, r_factory := factory\<rparr>"
  have off': "off = unat (s_start (r_files s ! i) + ucast (s_received (r_files s ! i)) - r_emitted s)"
    using rs_inv_offset [OF inv i] off by simp
  have fs: "rs_fits fits ?s = rs_fits fits s" by (simp add: rs_fits_def)
  have inv': "rs_inv ?s" and m: "rs_moves E content fits s ?s"
    using inv by (simp_all add: rs_inv_def rs_moves_def rs_owes_def rs_fits_def rs_pend_def)
  have stored: "slot_fits fits (r_emitted s) ((r_frames s)[off := cell]) slot"
    if "fits (s_file slot) Between \<or> (s_received slot = s_received (r_files s ! i) \<and>
        c_frame cell = Some t' \<and> fits (s_file slot) (Within t'))"
    using that cells span off' open_slot by (auto simp: slot_fits_def cell_off_def)
  show ?thesis
    by (rule rs_moves_trans [OF m])
      (use rs_moves_cell [OF inv', where i = i and slot = slot and cell = cell and E = E and fits = fits
          and content = content and t = t'] i open_slot cells span moved fit stored in
        \<open>auto simp: same_span_def fs off\<close>)
qed

lemma rs_poll_reading_moves:
  fixes s :: "('t, 'f, 'e, 'a) reader" and content :: "'f \<Rightarrow> 't list"
  assumes inv: "rs_inv s" and i: "i < length (r_files s)"
    and st: "s_state (r_files s ! i) = RReading"
    and p: "rs_poll_reading ops mk cx i remaining s = (res, remaining', s')"
  shows "rs_moves (read_file_contract ops fits content \<and> (\<exists>m. res = Ok m)) content fits s s' \<and>
    (\<forall>e. res = Err e \<longrightarrow> reportable e)"
proof -
  let ?slot = "r_files s ! i" and ?off = "slot_off (r_emitted s) (r_files s) i"
  note off = rs_inv_offset [OF inv i]
  consider (full) "s_received ?slot = s_count ?slot"
    | (wait) "s_received ?slot \<noteq> s_count ?slot" "length (r_frames s) \<le> ?off"
    | (poll) "s_received ?slot \<noteq> s_count ?slot" "?off < length (r_frames s)"
    by linarith
  then show ?thesis
  proof cases
    case full
    then show ?thesis
      using p rs_inv_retries [OF inv i] st
      by (auto simp: rs_poll_reading_def same_span_def intro!: rs_moves_slot [OF inv i]
          slot_fits_same [OF rs_fits_slot [OF _ i]])
  next
    case wait
    then show ?thesis
      using p inv by (auto simp: rs_poll_reading_def off intro: rs_moves_refl)
  next
    case poll
    let ?cell = "r_frames s ! ?off"
    have inc: "\<not> c_complete ?cell"
      using slot_off_incomplete [of "r_emitted s" "r_files s" "r_frames s" i] inv i poll
      by (simp add: rs_inv_def)
    obtain t recycled factory where b:
      "rs_buffer mk ?cell (r_recycled s) (r_factory s) = (t, recycled, factory)"
      by (metis prod_cases3)
    obtain r f t' where o: "rf_poll_read ops cx (s_file ?slot) t = (r, f, t')"
      by (metis prod_cases3)
    let ?s = "s\<lparr>r_recycled := recycled, r_factory := factory\<rparr>"
    note store = rs_moves_buffered [OF inv i refl poll(2,1), where t' = t']
    have resumed: "\<exists>a. fits (s_file ?slot) a \<and> resumes a t" if "rs_fits fits s"
      using rs_fits_slot [OF that i] st b off by (fastforce simp: slot_fits_def cell_off_def rs_buffer_def)
    have keep: "content f = content (s_file ?slot) \<and> fits f (Within t')"
      if "read_file_contract ops fits content" "rs_fits fits s" "r = Pending"
      using that(1,3) o resumed [OF that(2)] unfolding read_file_contract_def by metis
    have take: "content (s_file ?slot) = t' # content f \<and> fits f Between"
      if "read_file_contract ops fits content" "rs_fits fits s" "r = Ready (Ok (Some u))" for u
      using that(1,3) o resumed [OF that(2)] unfolding read_file_contract_def
      by (metis old.unit.exhaust)
    have "\<not> length (r_frames s) \<le> ?off" using poll(2) by simp
    note simps = rs_poll_reading_def off b o poll(1) this inc Let_def
    show ?thesis
    proof (cases r)
      case Pending
      then show ?thesis
        using p st inc o
        by (auto simp: simps keep intro!: store)
    next
      case (Ready x)
      note r = this
      show ?thesis
      proof (cases x)
        case (Ok y)
        show ?thesis
        proof (cases y)
          case None
          then show ?thesis
            using p st inc r Ok by (auto simp: simps intro!: store)
        next
          case (Some u)
          then show ?thesis
            using p st inc o r Ok
            by (auto simp: simps take intro!: store)
        qed
      next
        case (Err e)
        then show ?thesis
          using p st inc r by (auto simp: simps intro!: store)
      qed
    qed
  qed
qed

lemma rs_moves_weaken: "rs_moves E content fits s s' \<Longrightarrow> (E' \<Longrightarrow> E) \<Longrightarrow> rs_moves E' content fits s s'"
  by (auto simp: rs_moves_def)

lemma rs_poll_file_moves:
  assumes inv: "rs_inv s" and i: "i < length (r_files s)"
    and p: "rs_poll_file ops mk cx i remaining s = (res, remaining', s')"
  shows "rs_moves (read_file_contract ops fits content \<and> (\<exists>m. res = Ok m)) content fits s s' \<and>
    (\<forall>e. res = Err e \<longrightarrow> reportable e)"
proof (cases "s_blocked (r_files s ! i)")
  case True
  with p i inv show ?thesis by (auto simp: rs_poll_file_def intro: rs_moves_refl)
next
  case False
  show ?thesis
  proof (cases "s_state (r_files s ! i)")
    case ROpening
    then have "rs_poll_opening ops cx i remaining s = (res, remaining', s')"
      using p i False by (simp add: rs_poll_file_def)
    from rs_poll_opening_moves [OF inv i ROpening this, of fits content] show ?thesis
      by (auto intro: rs_moves_weaken)
  next
    case RReading
    then have "rs_poll_reading ops mk cx i remaining s = (res, remaining', s')"
      using p i False by (simp add: rs_poll_file_def)
    from rs_poll_reading_moves [OF inv i RReading this] show ?thesis .
  qed
qed

section \<open>The driving loop\<close>

lemma rs_pass_moves:
  assumes "rs_pass ops mk cx n count progressed remaining s = (pr, s')"
    and "rs_inv s" "count = length (r_files s)" "0 < count"
  shows "rs_moves (read_file_contract ops fits content \<and> (\<forall>e. pr \<noteq> PassError e)) content fits s s' \<and>
    (\<forall>e. pr = PassError e \<longrightarrow> reportable e)"
  using assms
proof (induction n arbitrary: progressed remaining s)
  case 0
  then show ?case by (auto intro: rs_moves_refl)
next
  case (Suc n)
  let ?i = "r_cursor s mod count"
  let ?s = "s\<lparr>r_cursor := (?i + 1) mod count\<rparr>"
  let ?E = "read_file_contract ops fits content"
  have m0: "rs_moves E content fits s ?s" for E
    using Suc.prems(2) by (intro rs_moves_frame) simp_all
  obtain res rem1 s1 where p: "rs_poll_file ops mk cx ?i remaining ?s = (res, rem1, s1)"
    by (metis prod_cases3)
  have "rs_inv ?s" "?i < length (r_files ?s)"
    using m0 Suc.prems(3,4) by (auto simp: rs_moves_def)
  from rs_poll_file_moves [OF this p, of fits content]
  have m1: "rs_moves (?E \<and> (\<exists>m. res = Ok m)) content fits s s1"
    and ne: "(\<forall>e. res = Err e \<longrightarrow> reportable e)"
    using rs_moves_trans [OF m0] by blast+
  show ?case
  proof (cases res)
    case (Err e)
    with Suc.prems(1) p have "pr = PassError e" "s' = s1" by (simp_all add: Let_def)
    with m1 ne Err show ?thesis by (auto intro: rs_moves_weaken)
  next
    case (Ok moved)
    with m1 have m2: "rs_moves ?E content fits s s1" by (auto intro: rs_moves_weaken)
    then have s1: "rs_inv s1" "count = length (r_files s1)"
      using Suc.prems(3) by (simp_all add: rs_moves_def)
    show ?thesis
    proof (cases "rem1 = 0")
      case True
      let ?w = "if \<exists>slot \<in> set (r_files s1). \<not> s_blocked slot
        then s1\<lparr>r_wakes := r_wakes s1 @ [cx]\<rparr> else s1"
      have "rs_moves ?E content fits s1 ?w"
        by (rule rs_moves_frame [OF s1(1)]) simp_all
      moreover have "pr = PassExhausted" "s' = ?w"
        using Suc.prems(1) p Ok True by (auto simp: Let_def)
      ultimately show ?thesis
        using rs_moves_trans [OF m2] by (auto intro: rs_moves_weaken)
    next
      case False
      then have "rs_pass ops mk cx n count (progressed \<or> moved) rem1 s1 = (pr, s')"
        using Suc.prems(1) p Ok by (simp add: Let_def)
      from Suc.IH [OF this s1 Suc.prems(4)] m2 show ?thesis
        by (auto intro: rs_moves_trans rs_moves_weaken)
    qed
  qed
qed

lemma rs_loop_moves:
  assumes "rs_loop ops mk cx remaining s = (res, s')"
    and "rs_inv s" "\<not> r_terminated s" "r_files s \<noteq> []"
  shows "rs_moves (read_file_contract ops fits content \<and> res = Ok ()) content fits s s' \<and>
    (\<forall>e. res = Err e \<longrightarrow> reportable e)"
  using assms
proof (induction remaining arbitrary: s rule: less_induct)
  case (less remaining)
  let ?E = "read_file_contract ops fits content"
  obtain pr s1 where p:
    "rs_pass ops mk cx (length (r_files s)) (length (r_files s)) False remaining s = (pr, s1)"
    by fastforce
  from rs_pass_moves [OF p less.prems(2) refl, of fits content] less.prems(4)
  have m: "rs_moves (?E \<and> (\<forall>e. pr \<noteq> PassError e)) content fits s s1"
    and ne: "(\<forall>e. pr = PassError e \<longrightarrow> reportable e)" by auto
  note step = less.prems(1) [unfolded rs_loop.simps [of _ _ _ remaining]]
  show ?case
  proof (cases pr)
    case (PassError e)
    with step p m ne less.prems(4) show ?thesis by (auto intro: rs_moves_weaken)
  next
    case PassExhausted
    with step p m less.prems(4) show ?thesis by (auto intro: rs_moves_weaken)
  next
    case (PassDone progressed remaining')
    with m have m1: "rs_moves ?E content fits s s1" by (auto intro: rs_moves_weaken)
    then have s1: "rs_inv s1" "\<not> r_terminated s1" "r_files s1 \<noteq> []"
      using less.prems(3,4) by (auto simp: rs_moves_def)
    have m2: "rs_moves ?E content fits s (rs_authorize s1)"
      by (rule rs_moves_trans [OF m1 rs_authorize_moves [OF s1(1,2)]])
    then have s2: "rs_inv (rs_authorize s1)" "\<not> r_terminated (rs_authorize s1)"
      "r_files (rs_authorize s1) \<noteq> []"
      using less.prems(3,4) by (auto simp: rs_moves_def)
    have eq: "(if \<not> progressed then (Ok (), rs_authorize s1)
        else rs_loop ops mk cx remaining' (rs_authorize s1)) = (res, s')"
      using step p PassDone less.prems(4) s1(3) by (simp add: Let_def rs_retire_inv [OF s1(1)])
    show ?thesis
    proof (cases progressed)
      case False
      with eq m2 show ?thesis by (auto intro: rs_moves_weaken)
    next
      case True
      have "remaining' < remaining"
        using rs_pass_remaining [of ops mk cx _ _ False] p PassDone True by blast
      from less.IH [OF this _ s2] eq True m2 show ?thesis
        by (auto intro: rs_moves_trans rs_moves_weaken)
    qed
  qed
qed

lemma rs_unblock_moves:
  fixes s :: "('t, 'f, 'e, 'a) reader" and content :: "'f \<Rightarrow> 't list"
  assumes "rs_inv s"
  shows "rs_moves E content fits s
    (s\<lparr>r_files := map (\<lambda>file. file\<lparr>s_blocked := False\<rparr>) (r_files s)\<rparr>)"
proof -
  let ?f = "\<lambda>file :: 'f read_slot. file\<lparr>s_blocked := False\<rparr>"
  have u: "undelivered pos (?f slot) = undelivered pos slot"
    "buffered pos (?f slot) = buffered pos slot" "s_end (?f slot) = s_end slot"
    "slot_ok pos (?f slot) = slot_ok pos slot"
    "piece content pos (?f slot) cs = piece content pos slot cs" for pos slot cs
    by (simp_all add: undelivered_def buffered_def delivered_def s_end_def slot_ok_def piece_def)
  have "layout pos (map ?f ss) cs \<longleftrightarrow> layout pos ss cs" for pos ss and cs :: "'t cell list"
    by (induction pos ss cs rule: layout.induct) (simp_all add: u)
  moreover have "span pos (map ?f ss) = span pos ss" for pos ss
    by (induction pos ss rule: span.induct) (simp_all add: u)
  moreover have "pend content pos (map ?f ss) cs = pend content pos ss cs" for pos ss cs
    by (induction pos ss cs rule: layout.induct) (simp_all add: u)
  moreover have "rs_fits fits s \<Longrightarrow>
      files_fit fits (r_emitted s) (map ?f (r_files s)) (r_frames s)"
    by (auto simp: rs_fits_def files_fit_def list_all_iff same_span_def intro: slot_fits_same)
  ultimately show ?thesis
    using assms by (simp add: rs_moves_def rs_inv_def rs_owes_def rs_fits_def rs_pend_def)
qed

lemma rs_drive_moves:
  assumes d: "rs_drive ops mk cx s = (res, s')"
    and inv: "rs_inv s" "\<not> r_terminated s" "r_files s \<noteq> []"
  shows "rs_moves (read_file_contract ops fits content \<and> res = Ok ()) content fits s s' \<and>
    (\<forall>e. res = Err e \<longrightarrow> reportable e)"
proof -
  let ?E = "read_file_contract ops fits content"
  obtain s1 where r: "rs_request_capacity cx s = (Ok (), s1)" and m1: "rs_moves ?E content fits s s1"
    using rs_request_capacity_moves [OF inv(1)] by blast
  then have s1: "rs_inv s1" "\<not> r_terminated s1"
    using inv by (simp_all add: rs_moves_def)
  let ?s = "(rs_authorize s1)
    \<lparr>r_files := map (\<lambda>file. file\<lparr>s_blocked := False\<rparr>) (r_files (rs_authorize s1))\<rparr>"
  have m2: "rs_moves ?E content fits s1 (rs_authorize s1)" by (rule rs_authorize_moves [OF s1])
  moreover from m2 have "rs_moves ?E content fits (rs_authorize s1) ?s"
    by (intro rs_unblock_moves) (simp add: rs_moves_def)
  ultimately have m3: "rs_moves ?E content fits s ?s"
    using m1 by (blast intro: rs_moves_trans)
  then have "rs_inv ?s" "\<not> r_terminated ?s" "r_files ?s \<noteq> []"
    using inv by (auto simp: rs_moves_def)
  moreover have "rs_loop ops mk cx (max max_poll_ops (length (r_files ?s))) ?s = (res, s')"
    using d r by (simp add: rs_drive_def Let_def)
  ultimately have "rs_moves (?E \<and> res = Ok ()) content fits ?s s' \<and>
      (\<forall>e. res = Err e \<longrightarrow> reportable e)"
    by (intro rs_loop_moves)
  then show ?thesis
    using m3 by (auto intro: rs_moves_trans rs_moves_weaken)
qed

section \<open>Operations\<close>

text \<open>A failed scheduler holds nothing; a finished one releases its grant.\<close>

lemma rs_fail_sel:
  "r_files (rs_fail e s) = []" "r_frames (rs_fail e s) = []" "r_recycled (rs_fail e s) = []"
  "r_terminated (rs_fail e s)" "r_error (rs_fail e s) = Some e"
  "p_capacity (r_permit (rs_fail e s)) = 0" "p_request (r_permit (rs_fail e s)) = p_request (r_permit s)"
  "r_config (rs_fail e s) = r_config s" "r_closed (rs_fail e s) = r_closed s"
  "r_emitted (rs_fail e s) = r_emitted s" "r_discovered (rs_fail e s) = r_discovered s"
  by (simp_all add: rs_fail_def rs_shrink_to_sel)

lemma rs_fail_run:
  "permit_run (r_permit s, r_budget s) (r_permit (rs_fail e s), r_budget (rs_fail e s))"
  using rs_shrink_to_run [of "s\<lparr>r_files := [], r_frames := [], r_recycled := []\<rparr>" 0]
  by (simp add: rs_fail_def)

lemma rs_fail_inv: "valid_window (window (r_config s)) \<Longrightarrow> rs_inv (rs_fail e s)"
  by (simp add: rs_inv_def rs_fail_sel)

text \<open>The three outcomes of \<open>poll_progress\<close>: nothing to drive, driven, failed.\<close>

lemma rs_poll_progress_cases [consumes 2, case_names terminated empty driven failed]:
  assumes p: "rs_poll_progress ops mk cx s = s'" and inv: "rs_inv s"
  obtains
    "r_terminated s" "s' = s"
  | "\<not> r_terminated s" "r_files s = []" "p_capacity (r_permit s') = 0"
    "s' = (if 0 < p_capacity (r_permit s) then rs_shrink_to 0 s else s)
       \<lparr>r_terminated := r_closed s\<rparr>"
  | "\<not> r_terminated s" "r_files s \<noteq> []" "rs_drive ops mk cx s = (Ok (), s')"
    "\<And>content fits. rs_moves (read_file_contract ops fits content) content fits s s'"
  | e s1 where "\<not> r_terminated s" "r_files s \<noteq> []" "rs_drive ops mk cx s = (Err e, s1)"
    "\<And>content fits. rs_moves False content fits s s1" "s' = rs_fail e s1"
    "reportable e"
proof -
  consider "r_terminated s" | "\<not> r_terminated s" "r_files s = []"
    | "\<not> r_terminated s" "r_files s \<noteq> []" by blast
  then show thesis
  proof cases
    case 1
    with p show thesis by (intro that(1)) (simp_all add: rs_poll_progress_def)
  next
    case 2
    with p show thesis
      by (intro that(2)) (auto simp: rs_poll_progress_def Let_def rs_shrink_to_sel)
  next
    case 3
    obtain res s1 where d: "rs_drive ops mk cx s = (res, s1)" by fastforce
    note m = rs_drive_moves [OF d inv 3]
    show thesis
    proof (cases res)
      case (Ok u)
      with p d 3 m show thesis by (intro that(3)) (auto simp: rs_poll_progress_def)
    next
      case (Err e)
      with p d 3 m show thesis by (intro that(4)) (auto simp: rs_poll_progress_def)
    qed
  qed
qed

text \<open>What every operation keeps, for any files.\<close>

definition rs_safe :: "('t, 'f, 'e, 'a) reader \<Rightarrow> ('t, 'f, 'e, 'a) reader \<Rightarrow> bool" where
  "rs_safe s s' \<longleftrightarrow> rs_inv s' \<and> permit_run (r_permit s, r_budget s) (r_permit s', r_budget s') \<and>
     max_retries (r_config s') = max_retries (r_config s)"

lemma rs_safe_trans: "rs_safe s s' \<Longrightarrow> rs_safe s' s'' \<Longrightarrow> rs_safe s s''"
  by (auto simp: rs_safe_def intro: permit_run_trans)

lemma rs_moves_safe: "rs_moves E content fits s s' \<Longrightarrow> rs_safe s s'"
  by (simp add: rs_moves_def rs_safe_def)

lemma rs_poll_progress_safe:
  assumes "rs_inv s"
  shows "rs_safe s (rs_poll_progress ops mk cx s)"
  using refl [of "rs_poll_progress ops mk cx s"] assms
proof (cases rule: rs_poll_progress_cases)
  case terminated
  with assms show ?thesis by (simp add: rs_safe_def)
next
  case empty
  then show ?thesis
    using assms rs_shrink_to_run [of s 0] rs_inv_no_files(1) [OF assms]
    by (auto simp: rs_safe_def rs_inv_def rs_shrink_to_sel)
next
  case driven
  from rs_moves_safe [OF driven(4)] show ?thesis .
next
  case (failed e s1)
  from failed(4) have m: "rs_safe s s1" by (rule rs_moves_safe)
  then have "rs_safe s1 (rs_fail e s1)"
    by (simp add: rs_safe_def rs_fail_inv rs_inv_def [of s1] rs_fail_run rs_fail_sel)
  with m show ?thesis unfolding failed(5) by (rule rs_safe_trans)
qed

text \<open>Delivering a frame: the frame is the first of what is owed, the rest is kept.\<close>

lemma rs_emit:
  assumes inv: "rs_inv s" and f: "r_frames s = cell # cells" "c_complete cell"
    and s1_def: "s1 = rs_retire (s\<lparr>r_frames := cells, r_emitted := r_emitted s + 1,
      r_recycled := r_recycled s @ [output]\<rparr>)"
  shows "\<exists>frame. c_frame cell = Some frame \<and> rs_inv s1 \<and>
    rs_pend content s = frame # rs_pend content s1 \<and> (rs_fits fits s \<longrightarrow> rs_fits fits s1) \<and>
    span (r_emitted s) (r_files s) = Suc (span (r_emitted s1) (r_files s1)) \<and>
    r_permit s1 = r_permit s \<and> r_budget s1 = r_budget s \<and> r_config s1 = r_config s \<and>
    r_closed s1 = r_closed s \<and> r_terminated s1 = r_terminated s \<and> r_error s1 = r_error s \<and>
    r_emitted s1 = r_emitted s + 1 \<and> r_discovered s1 = r_discovered s"
proof -
  obtain fs cur where r: "retire_files (r_emitted s + 1) (r_files s) (r_cursor s) = (fs, cur)"
    by fastforce
  have s1: "s1 = s\<lparr>r_frames := cells, r_emitted := r_emitted s + 1,
      r_recycled := r_recycled s @ [output], r_files := fs, r_cursor := cur\<rparr>"
    by (simp add: s1_def rs_retire_def r)
  have lay: "layout (r_emitted s) (r_files s) (cell # cells)"
    using inv f(1) by (simp add: rs_inv_def)
  from layout_emit [OF lay f(2) r, of content]
  obtain frame where e: "c_frame cell = Some frame" "layout (r_emitted s + 1) fs cells"
    "span (r_emitted s) (r_files s) = Suc (span (r_emitted s + 1) fs)"
    "pend content (r_emitted s) (r_files s) (cell # cells)
      = frame # pend content (r_emitted s + 1) fs cells"
    by auto
  have "\<not> r_terminated s"
    using inv f(1) by (auto simp: rs_inv_def)
  with inv e retire_files_set [OF r] f(1) have "rs_inv s1"
    by (auto simp: s1 rs_inv_def)
  moreover have "files_fit fits (r_emitted s + 1) fs cells" if "rs_fits fits s"
    using files_fit_emit [OF _ lay _ f(2) retire_files_set [OF r]] inv that f(1)
    by (simp add: rs_fits_def rs_inv_def)
  ultimately show ?thesis using e f(1) by (simp add: s1 rs_pend_def rs_fits_def)
qed

text \<open>\<open>rs_keeps\<close>: a step that neither delivers nor admits anything.\<close>

definition rs_keeps ::
    "('f \<Rightarrow> 't list) \<Rightarrow> ('f \<Rightarrow> 't reading \<Rightarrow> bool) \<Rightarrow> ('t, 'f, 'e, 'a) reader \<Rightarrow> ('t, 'f, 'e, 'a) reader \<Rightarrow> bool" where
  "rs_keeps content fits s s' \<longleftrightarrow>
     rs_safe s s' \<and> r_error s' = r_error s \<and> r_terminated s' = r_terminated s \<and>
     r_closed s' = r_closed s \<and> r_emitted s' = r_emitted s \<and> r_discovered s' = r_discovered s \<and>
     rs_owes content fits s s'"

lemma rs_moves_keeps: "rs_moves True content fits s s' \<Longrightarrow> rs_keeps content fits s s'"
  by (auto simp: rs_keeps_def rs_moves_safe) (simp_all add: rs_moves_def)

lemma rs_keeps_span:
  assumes "rs_inv s" "rs_keeps content fits s s'"
  shows "span (r_emitted s') (r_files s') = span (r_emitted s) (r_files s)"
proof (cases "r_terminated s")
  case True
  with assms show ?thesis by (auto simp: rs_keeps_def rs_safe_def rs_inv_def)
next
  case False
  with assms have "rs_inv s'" "\<not> r_terminated s'" by (auto simp: rs_keeps_def rs_safe_def)
  with False assms show ?thesis
    using rs_inv_distance [of s] rs_inv_distance [of s'] by (simp add: rs_keeps_def)
qed

lemma rs_poll_read_cases [consumes 2, case_names error eof pending frame]:
  fixes s s' :: "('t, 'f, 'e, 'a) reader"
  assumes p: "rs_poll_read ops mk cx output s = (res, out, s')" and inv: "rs_inv s"
  obtains
    e where "r_error (rs_poll_progress ops mk cx s) = Some e" "res = Ready (Err e)" "out = output"
      "s' = (rs_poll_progress ops mk cx s)\<lparr>r_error := None\<rparr>"
  | "r_error (rs_poll_progress ops mk cx s) = None" "r_terminated (rs_poll_progress ops mk cx s)"
    "res = Ready (Ok None)" "out = output" "s' = rs_poll_progress ops mk cx s"
  | "r_error (rs_poll_progress ops mk cx s) = None" "\<not> r_terminated (rs_poll_progress ops mk cx s)"
    "res = Pending" "out = output" "s' = rs_poll_progress ops mk cx s"
    "r_frames s' \<noteq> [] \<Longrightarrow> \<not> c_complete (hd (r_frames s'))"
  | "r_error (rs_poll_progress ops mk cx s) = None" "\<not> r_terminated (rs_poll_progress ops mk cx s)"
    "res = Ready (Ok (Some ()))" "rs_safe (rs_poll_progress ops mk cx s) s'"
    "\<And>content. rs_pend content (rs_poll_progress ops mk cx s) = out # rs_pend content s'"
    "\<And>fits. rs_fits fits (rs_poll_progress ops mk cx s) \<Longrightarrow> rs_fits fits s'"
    "r_error s' = None" "\<not> r_terminated s'"
    "r_closed s' = r_closed (rs_poll_progress ops mk cx s)"
    "r_emitted s' = r_emitted (rs_poll_progress ops mk cx s) + 1"
    "r_discovered s' = r_discovered (rs_poll_progress ops mk cx s)"
    "span (r_emitted (rs_poll_progress ops mk cx s)) (r_files (rs_poll_progress ops mk cx s))
      = Suc (span (r_emitted s') (r_files s'))"
proof -
  let ?s1 = "rs_poll_progress ops mk cx s"
  have inv1: "rs_inv ?s1" using rs_poll_progress_safe [OF inv] by (simp add: rs_safe_def)
  note step = p [unfolded rs_poll_read_def Let_def]
  consider (error) e where "r_error ?s1 = Some e"
    | (eof) "r_error ?s1 = None" "r_terminated ?s1"
    | (pending) "r_error ?s1 = None" "\<not> r_terminated ?s1"
        "r_frames ?s1 = [] \<or> \<not> c_complete (hd (r_frames ?s1))"
    | (frame) cell cells where "r_error ?s1 = None" "\<not> r_terminated ?s1"
        "r_frames ?s1 = cell # cells" "c_complete cell"
    by (cases "r_frames ?s1"; cases "r_error ?s1") auto
  then show thesis
  proof cases
    case error
    with step show thesis by (intro that(1)) auto
  next
    case eof
    with step show thesis by (intro that(2)) auto
  next
    case pending
    with step show thesis by (intro that(3)) (auto split: list.splits)
  next
    case frame
    let ?s2 = "rs_retire (?s1\<lparr>r_frames := cells, r_emitted := r_emitted ?s1 + 1,
      r_recycled := r_recycled ?s1 @ [output]\<rparr>)"
    note emit = rs_emit [OF inv1 frame(3,4) refl]
    have e: "c_frame cell \<noteq> None" "rs_inv ?s2"
      "\<And>content. rs_pend content ?s1 = the (c_frame cell) # rs_pend content ?s2"
      "\<And>fits. rs_fits fits ?s1 \<Longrightarrow> rs_fits fits ?s2"
      "r_permit ?s2 = r_permit ?s1" "r_budget ?s2 = r_budget ?s1" "r_config ?s2 = r_config ?s1"
      "r_closed ?s2 = r_closed ?s1" "r_terminated ?s2 = r_terminated ?s1"
      "r_error ?s2 = r_error ?s1" "r_emitted ?s2 = r_emitted ?s1 + 1"
      "r_discovered ?s2 = r_discovered ?s1"
      "span (r_emitted ?s1) (r_files ?s1) = Suc (span (r_emitted ?s2) (r_files ?s2))"
      using emit by fastforce+
    have s': "res = Ready (Ok (Some ()))" "out = the (c_frame cell)" "s' = rs_adjust_capacity ?s2"
      using step frame e(1) by auto
    have k: "rs_keeps content fits ?s2 s'" for content fits
      unfolding s'(3) by (intro rs_moves_keeps rs_adjust_capacity_moves e(2))
    have "rs_safe ?s1 s'"
      using k [of "\<lambda>_. []" "\<lambda>_ _. True"] e(2,5-7) by (auto simp: rs_keeps_def rs_safe_def)
    moreover have "rs_pend content s' = rs_pend content ?s2" for content
      using k [of content "\<lambda>_ _. True"] by (simp add: rs_keeps_def rs_owes_def)
    moreover have "rs_fits fits ?s2 \<Longrightarrow> rs_fits fits s'" for fits :: "'f \<Rightarrow> 't reading \<Rightarrow> bool"
      using k [of "\<lambda>_. []" fits] by (simp add: rs_keeps_def rs_owes_def)
    moreover note rs_keeps_span [OF e(2) k [of "\<lambda>_. []" "\<lambda>_ _. True"]]
    ultimately show thesis
      using frame(1,2) k [of "\<lambda>_. []" "\<lambda>_ _. True"] e s'
      by (intro that(4)) (auto simp: rs_keeps_def)
  qed
qed

lemma rs_clear_error: "rs_inv s \<Longrightarrow> rs_safe s (s\<lparr>r_error := None\<rparr>)"
  by (simp add: rs_safe_def rs_inv_def)

lemma rs_poll_read_safe:
  assumes "rs_poll_read ops mk cx output s = (res, out, s')" "rs_inv s"
  shows "rs_safe s s'"
proof -
  let ?s1 = "rs_poll_progress ops mk cx s"
  have m: "rs_safe s ?s1" by (rule rs_poll_progress_safe [OF assms(2)])
  have clear: "rs_safe ?s1 (?s1\<lparr>r_error := None\<rparr>)"
    using m by (intro rs_clear_error) (simp add: rs_safe_def)
  show ?thesis
    using assms by (cases rule: rs_poll_read_cases) (auto intro: m rs_safe_trans [OF m] clear)
qed

lemma rs_push_file_cases [consumes 2, case_names refused accepted]:
  assumes "rs_push_file ops file s = (res, s')" "rs_inv s"
  obtains
    e where "res = Err (e, file)" "s' = s"
  | "res = Ok ()" "rs_safe s s'" "\<not> r_terminated s" "\<not> r_closed s" "rf_frame_count ops file \<noteq> 0"
    "\<And>content. rs_pend content s' =
       rs_pend content s @ take (unat (rf_frame_count ops file)) (content file)"
    "\<And>fits. rs_fits fits s \<Longrightarrow> fits file Fresh \<Longrightarrow> rs_fits fits s'"
    "span (r_emitted s') (r_files s') =
       span (r_emitted s) (r_files s) + unat (rf_frame_count ops file)"
    "r_error s' = r_error s" "\<not> r_terminated s'" "\<not> r_closed s'" "r_emitted s' = r_emitted s"
    "length (r_files s) < max_active_files (window (r_config s))"
    "span (r_emitted s) (r_files s) < horizon (window (r_config s))"
proof (cases "\<exists>e. res = Err (e, file) \<and> s' = s")
  case True
  with that(1) show thesis by blast
next
  case False
  let ?n = "rf_frame_count ops file"
  let ?slot = "\<lparr>s_file = file, s_start = r_discovered s, s_count = ?n,
    s_received = 0, s_retries = 0, s_state = ROpening, s_blocked = False\<rparr>"
  have p: "res = Ok ()" "\<not> r_closed s" "\<not> r_terminated s" "?n \<noteq> 0"
    "length (r_files s) < max_active_files (window (r_config s))"
    "unat (r_discovered s - r_emitted s) < horizon (window (r_config s))"
    "usize_checked_add (r_discovered s - r_emitted s) (ucast ?n) \<noteq> None"
    "s' = s\<lparr>r_files := r_files s @ [?slot], r_discovered := r_discovered s + ucast ?n\<rparr>"
    using assms(1) False
    by (auto simp: rs_push_file_def Let_def not_le split: if_splits option.splits)
  note dist = rs_inv_distance [OF assms(2) p(3)]
  have lay: "layout (r_emitted s) (r_files s) (r_frames s)"
    and disc: "s_start ?slot = r_emitted s + of_nat (span (r_emitted s) (r_files s))"
    using assms(2) p(3) by (simp_all add: rs_inv_def)
  note app = layout_append [OF lay disc]
  have "span (r_emitted s) (r_files s) + unat ?n < 2 ^ 64"
    using p(7) by (simp add: usize_checked_add_def dist split: if_splits)
  moreover have "r_discovered s + ucast ?n =
      r_emitted s + of_nat (span (r_emitted s) (r_files s) + unat ?n)"
    using disc by (simp only: ucast_u32_nat read_slot.simps of_nat_add add.assoc)
  ultimately have "rs_inv s'"
    using assms(2) p(3,4) app by (auto simp: p(8) rs_inv_def)
  then show thesis
    using p dist app by (intro that(2)) (auto simp: rs_safe_def rs_pend_def rs_fits_def files_fit_def slot_fits_def)
qed

lemma rs_close_files_safe: "rs_inv s \<Longrightarrow> rs_safe s (rs_close_files s)"
  by (simp add: rs_safe_def rs_inv_def rs_close_files_def)

lemma rs_set_window_cases [consumes 2, case_names refused accepted]:
  assumes "rs_set_window w s = (res, s')" "rs_inv s"
  obtains
    "\<not> valid_window w" "res = Err InvalidWindow" "s' = s"
  | "valid_window w" "res = Ok ()" "\<And>content fits. rs_keeps content fits s s'" "rs_window s' = w"
    "p_capacity (r_permit s') \<le> p_capacity (r_permit s)"
proof (cases "valid_window w")
  case False
  with assms(1) show thesis by (intro that(1)) (auto simp: rs_set_window_def window_validate_cases)
next
  case True
  let ?s = "s\<lparr>r_config := (r_config s)\<lparr>window := w\<rparr>\<rparr>"
  let ?keep = "min (p_capacity (r_permit s)) (max (target_frames w) (rs_used s))"
  have inv: "rs_inv ?s" using assms(2) True by (simp add: rs_inv_def)
  have s': "res = Ok ()" "s' = rs_shrink_to ?keep ?s"
    using assms(1) True
    by (auto simp: rs_set_window_def window_validate_cases Let_def rs_used_def)
  have "length (r_frames ?s) \<le> ?keep"
    using assms(2) by (simp add: rs_inv_def rs_used_def)
  then have "rs_keeps content fits ?s s'" for content fits
    unfolding s'(2) by (intro rs_moves_keeps rs_shrink_to_moves inv)
  moreover have "rs_keeps content fits ?s s' \<Longrightarrow> rs_keeps content fits s s'" for content fits
    by (auto simp: rs_keeps_def rs_safe_def rs_pend_def rs_owes_def rs_fits_def)
  ultimately have "rs_keeps content fits s s'" for content fits by blast
  then show thesis
    using True s' by (intro that(2)) (auto simp: rs_window_def rs_shrink_to_sel)
qed

lemma rs_new_inv:
  assumes "rs_new factory b config = Ok s"
  shows "rs_inv s" "permit_new b = (r_permit s, r_budget s)" "r_config s = config"
    "rs_pend content s = []" "rs_fits fits s" "\<not> r_terminated s" "\<not> r_closed s" "r_error s = None"
    "r_files s = []" "p_capacity (r_permit s) = 0"
  using assms
  by (auto simp: rs_new_def Let_def rs_inv_def rs_pend_def permit_new_def rs_fits_no_files
      split: result.splits if_splits)

end
