(* ===== verification/Read_Wakeup.thy ===== *)
theory Read_Wakeup
  imports Read_Invariant
begin

text \<open>
  Wakeups and polling limits of the driving loop. When a drive ends, either the caller's task has
  been woken again, or every file is settled: it has received everything, or its pending operation
  registered the caller's waker in this very drive, or it waits for a buffer cell while the buffer
  is as large as the grant and the window allow. A file that is pending is polled once per drive,
  and the whole drive makes a bounded number of backend polls.
\<close>

section \<open>What one poll leaves alone\<close>

lemma rs_poll_file_frame:
  assumes "rs_poll_file ops mk cx i remaining s = (res, remaining', s')"
  shows "r_permit s' = r_permit s \<and> r_budget s' = r_budget s \<and> r_wakes s' = r_wakes s \<and>
    r_config s' = r_config s \<and> r_emitted s' = r_emitted s \<and> r_discovered s' = r_discovered s \<and>
    r_cursor s' = r_cursor s \<and> length (r_files s') = length (r_files s) \<and>
    length (r_frames s') = length (r_frames s) \<and>
    (\<forall>j. j \<noteq> i \<longrightarrow> r_files s' ! j = r_files s ! j)"
  using assms
  by (auto simp: rs_poll_file_def rs_poll_opening_def rs_poll_reading_def Let_def
      split: if_splits read_state.splits poll.splits result.splits prod.splits option.splits)

section \<open>Settled files\<close>

text \<open>\<open>reg cx f\<close>: the file has registered the waker \<open>cx\<close>. The trait asks for it on every pending.\<close>

definition read_registers :: "('t, 'f, 'e) read_file \<Rightarrow> (waker \<Rightarrow> 'f \<Rightarrow> bool) \<Rightarrow> bool" where
  "read_registers ops reg \<longleftrightarrow>
     (\<forall>cx f f'. rf_poll_open ops cx f = (Pending, f') \<longrightarrow> reg cx f') \<and>
     (\<forall>cx f t f' t'. rf_poll_read ops cx f t = (Pending, f', t') \<longrightarrow> reg cx f')"

lemma read_registersD:
  "read_registers ops reg \<Longrightarrow> rf_poll_open ops cx f = (Pending, f') \<Longrightarrow> reg cx f'"
  "read_registers ops reg \<Longrightarrow> rf_poll_read ops cx f t = (Pending, f', t') \<Longrightarrow> reg cx f'"
  unfolding read_registers_def by blast+

definition slot_waits :: "('t, 'f, 'e, 'a) reader \<Rightarrow> 'f read_slot \<Rightarrow> bool" where
  "slot_waits s slot \<longleftrightarrow> s_state slot = RReading \<and>
     length (r_frames s) \<le> unat (s_start slot + ucast (s_received slot) - r_emitted s)"

definition slot_settled :: "('t, 'f, 'e, 'a) reader \<Rightarrow> 'f read_slot \<Rightarrow> bool" where
  "slot_settled s slot \<longleftrightarrow> s_blocked slot \<or> slot_waits s slot"

definition blocked_ok :: "(waker \<Rightarrow> 'f \<Rightarrow> bool) \<Rightarrow> waker \<Rightarrow> 'f read_slot \<Rightarrow> bool" where
  "blocked_ok reg cx slot \<longleftrightarrow>
     (s_blocked slot \<longrightarrow> reg cx (s_file slot) \<or> s_received slot = s_count slot)"

lemma rs_poll_file_settled:
  assumes "rs_poll_file ops mk cx i remaining s = (Ok False, remaining', s')"
    and "i < length (r_files s)"
  shows "slot_settled s' (r_files s' ! i)"
  using assms
  by (auto simp: rs_poll_file_def rs_poll_opening_def rs_poll_reading_def Let_def
      slot_settled_def slot_waits_def
      split: if_splits read_state.splits poll.splits result.splits prod.splits option.splits)

lemma rs_poll_file_blocked_ok:
  assumes "rs_poll_file ops mk cx i remaining s = (res, remaining', s')"
    and "i < length (r_files s)" "read_registers ops reg"
    and "\<forall>slot \<in> set (r_files s). blocked_ok reg cx slot"
  shows "\<forall>slot \<in> set (r_files s'). blocked_ok reg cx slot"
proof -
  have "blocked_ok reg cx (r_files s ! i)" using assms(2,4) by simp
  then have "blocked_ok reg cx (r_files s' ! i)"
    using assms(1,2)
    by (auto simp: rs_poll_file_def rs_poll_opening_def rs_poll_reading_def Let_def
        blocked_ok_def
        dest: read_registersD [OF assms(3)]
        split: if_splits read_state.splits poll.splits result.splits prod.splits option.splits)
  then have "blocked_ok reg cx (r_files s' ! j)" if "j < length (r_files s)" for j
    using rs_poll_file_frame [OF assms(1)] assms(4) that by (cases "j = i") auto
  then show ?thesis
    using rs_poll_file_frame [OF assms(1)] by (auto simp: in_set_conv_nth)
qed

text \<open>A settled file costs nothing and stays settled, whichever file is polled.\<close>

lemma rs_poll_file_keeps_settled:
  assumes p: "rs_poll_file ops mk cx i remaining s = (res, remaining', s')"
    and j: "j < length (r_files s)" and settled: "slot_settled s (r_files s ! j)"
  shows "slot_settled s' (r_files s' ! j)"
proof (cases "j = i")
  case True
  then have "res = Ok False"
    using p j settled
    by (auto simp: rs_poll_file_def rs_poll_reading_def Let_def slot_settled_def slot_waits_def
        split: if_splits)
  with p j True show ?thesis by (auto intro: rs_poll_file_settled)
next
  case False
  with settled rs_poll_file_frame [OF p] show ?thesis
    by (simp add: slot_settled_def slot_waits_def)
qed

section \<open>One pass\<close>

lemma rs_pass_settled:
  assumes "rs_pass ops mk cx n count progressed remaining s = (PassDone False remaining', s')"
    and "count = length (r_files s)" "0 < count"
  shows "(\<forall>k < n. slot_settled s' (r_files s' ! ((r_cursor s + k) mod count))) \<and>
    (\<forall>j < count. slot_settled s (r_files s ! j) \<longrightarrow> slot_settled s' (r_files s' ! j))"
  using assms
proof (induction n arbitrary: progressed remaining s)
  case 0
  then show ?case by simp
next
  case (Suc n)
  let ?i = "r_cursor s mod count"
  let ?s = "s\<lparr>r_cursor := (?i + 1) mod count\<rparr>"
  obtain res rem1 s1 where p: "rs_poll_file ops mk cx ?i remaining ?s = (res, rem1, s1)"
    by (metis prod_cases3)
  note fr = rs_poll_file_frame [OF p]
  have i: "?i < count" using Suc.prems(3) by simp
  obtain moved where res: "res = Ok moved"
    and r: "rs_pass ops mk cx n count (progressed \<or> moved) rem1 s1
      = (PassDone False remaining', s')"
    using Suc.prems(1) p by (cases res) (auto simp: Let_def split: if_splits)
  have len: "count = length (r_files s1)" using fr Suc.prems(2) by simp
  note ih = Suc.IH [OF r len Suc.prems(3)]
  have "\<not> moved"
  proof
    assume moved
    with r have "rs_pass ops mk cx n count True rem1 s1 = (PassDone False remaining', s')" by simp
    moreover have "rs_pass ops mk cx n count True rem1 s1 = (PassDone False remaining', s') \<Longrightarrow> False"
      for rem1 s1
      by (induction n arbitrary: rem1 s1)
        (auto simp: Let_def split: if_splits prod.splits result.splits)
    ultimately show False by blast
  qed
  then have "slot_settled s1 (r_files s1 ! ?i)"
    using p res i Suc.prems(2) by (auto intro: rs_poll_file_settled)
  then have first: "slot_settled s' (r_files s' ! ?i)" using ih i by blast
  have old: "slot_settled s' (r_files s' ! j)" if "j < count" "slot_settled s (r_files s ! j)" for j
  proof -
    have "slot_settled ?s (r_files ?s ! j)"
      using that(2) by (simp add: slot_settled_def slot_waits_def)
    then have "slot_settled s1 (r_files s1 ! j)"
      using rs_poll_file_keeps_settled [OF p] that(1) Suc.prems(2) by simp
    with ih that(1) show ?thesis by blast
  qed
  have "slot_settled s' (r_files s' ! ((r_cursor s + k) mod count))" if "k < Suc n" for k
  proof (cases k)
    case 0
    with first show ?thesis by simp
  next
    case (Suc l)
    have "(r_cursor s1 + l) mod count = (r_cursor s + k) mod count"
      using fr Suc by (simp add: mod_simps add.assoc)
    moreover have "l < n" using that Suc by simp
    ultimately show ?thesis using ih by metis
  qed
  with old show ?case by blast
qed

text \<open>A pass only polls: grant, window, positions and buffer length stay, and it wakes once at most.\<close>

lemma rs_pass_frame:
  assumes "rs_pass ops mk cx n count progressed remaining s = (pr, s')"
    and "count = length (r_files s)" "0 < count" "read_registers ops reg"
    and "\<forall>slot \<in> set (r_files s). blocked_ok reg cx slot"
  shows "r_permit s' = r_permit s \<and> r_budget s' = r_budget s \<and> r_config s' = r_config s \<and>
    r_emitted s' = r_emitted s \<and> r_discovered s' = r_discovered s \<and>
    length (r_files s') = length (r_files s) \<and> length (r_frames s') = length (r_frames s) \<and>
    (\<forall>slot \<in> set (r_files s'). blocked_ok reg cx slot) \<and>
    (pr = PassExhausted \<and> r_wakes s' = r_wakes s @ [cx] \<or>
     pr = PassExhausted \<and> r_wakes s' = r_wakes s \<and> (\<forall>slot \<in> set (r_files s'). s_blocked slot) \<or>
     pr \<noteq> PassExhausted \<and> r_wakes s' = r_wakes s)"
  using assms
proof (induction n arbitrary: progressed remaining s)
  case 0
  then show ?case by auto
next
  case (Suc n)
  let ?i = "r_cursor s mod count"
  let ?s = "s\<lparr>r_cursor := (?i + 1) mod count\<rparr>"
  obtain res rem1 s1 where p: "rs_poll_file ops mk cx ?i remaining ?s = (res, rem1, s1)"
    by (metis prod_cases3)
  note fr = rs_poll_file_frame [OF p]
  have "?i < length (r_files ?s)" using Suc.prems(2,3) by simp
  from rs_poll_file_blocked_ok [OF p this Suc.prems(4)]
  have b: "\<forall>slot \<in> set (r_files s1). blocked_ok reg cx slot" using Suc.prems(5) by simp
  show ?case
  proof (cases res)
    case (Err e)
    with Suc.prems(1) p fr b show ?thesis by (auto simp: Let_def)
  next
    case (Ok moved)
    show ?thesis
    proof (cases "rem1 = 0")
      case True
      with Suc.prems(1) p Ok fr b show ?thesis by (auto simp: Let_def split: if_splits)
    next
      case False
      then have "rs_pass ops mk cx n count (progressed \<or> moved) rem1 s1 = (pr, s')"
        using Suc.prems(1) p Ok by (simp add: Let_def)
      from Suc.IH [OF this _ Suc.prems(3,4) b] fr Suc.prems(2) show ?thesis by simp
    qed
  qed
qed

section \<open>The loop\<close>

text \<open>The buffer is as large as the grant, the window and the known input allow.\<close>

definition rs_full :: "('t, 'f, 'e, 'a) reader \<Rightarrow> bool" where
  "rs_full s \<longleftrightarrow>
     min (p_capacity (r_permit s)) (target_frames (window (r_config s))) \<le> length (r_frames s) \<or>
     unat (r_discovered s - r_emitted s) \<le> length (r_frames s)"

lemma rs_authorize_full: "rs_full s \<Longrightarrow> rs_authorize s = s"
  by (auto simp: rs_full_def rs_authorize_def Let_def rs_used_def)

lemma rs_full_authorize: "rs_full (rs_authorize s)"
  by (auto simp: rs_full_def rs_authorize_def Let_def rs_used_def)

text \<open>How a drive may end: woken again, or settled.\<close>

definition rs_quiet ::
    "(waker \<Rightarrow> 'f \<Rightarrow> bool) \<Rightarrow> waker \<Rightarrow> waker list \<Rightarrow> ('t, 'f, 'e, 'a) reader \<Rightarrow> bool" where
  "rs_quiet reg cx wakes s \<longleftrightarrow>
     rs_full s \<and> (\<forall>slot \<in> set (r_files s). blocked_ok reg cx slot) \<and>
     (r_wakes s = wakes @ [cx] \<or>
      r_wakes s = wakes \<and> (\<forall>slot \<in> set (r_files s). slot_settled s slot))"

lemma rs_loop_quiet:
  assumes "rs_loop ops mk cx remaining s = (Ok (), s')"
    and "rs_inv s" "\<not> r_terminated s" "r_files s \<noteq> []" "rs_full s" "read_registers ops reg"
    and "\<forall>slot \<in> set (r_files s). blocked_ok reg cx slot"
  shows "rs_quiet reg cx (r_wakes s) s' \<and> r_permit s' = r_permit s \<and> r_budget s' = r_budget s"
  using assms
proof (induction remaining arbitrary: s rule: less_induct)
  case (less remaining)
  let ?n = "length (r_files s)"
  obtain pr s1 where p: "rs_pass ops mk cx ?n ?n False remaining s = (pr, s1)" by fastforce
  have n: "0 < ?n" using less.prems(4) by simp
  note fr = rs_pass_frame [OF p refl n less.prems(6,7)]
  have full: "rs_full s1" using less.prems(5) fr by (simp add: rs_full_def)
  note step = less.prems(1) [unfolded rs_loop.simps [of _ _ _ remaining]]
  show ?case
  proof (cases pr)
    case (PassError e)
    with step p less.prems(4) show ?thesis by simp
  next
    case PassExhausted
    then have "s' = s1" using step p less.prems(4) by simp
    with full fr PassExhausted show ?thesis
      by (auto simp: rs_quiet_def slot_settled_def)
  next
    case (PassDone progressed remaining')
    from rs_pass_moves [OF p less.prems(2) refl n, of "\<lambda>_ _. True" "\<lambda>_. []"]
    have s1: "rs_inv s1" "\<not> r_terminated s1" "r_files s1 \<noteq> []"
      using less.prems(3,4) by (auto simp: rs_moves_def)
    have eq: "(if \<not> progressed then (Ok (), s1) else rs_loop ops mk cx remaining' s1) = (Ok (), s')"
      using step p PassDone less.prems(4) s1(3)
      by (simp add: Let_def rs_retire_inv [OF s1(1)] rs_authorize_full [OF full])
    show ?thesis
    proof (cases progressed)
      case False
      then have "s' = s1" using eq by simp
      have "\<forall>k < ?n. slot_settled s1 (r_files s1 ! ((r_cursor s + k) mod ?n))"
        using rs_pass_settled [of ops mk cx ?n ?n False remaining s] p PassDone False n by simp
      then have "slot_settled s1 (r_files s1 ! i)" if "i < ?n" for i
        using rotation_covers [OF n that] by metis
      then have "\<forall>slot \<in> set (r_files s1). slot_settled s1 slot"
        using fr by (metis in_set_conv_nth)
      with full fr PassDone \<open>s' = s1\<close> show ?thesis by (simp add: rs_quiet_def)
    next
      case True
      have "remaining' < remaining"
        using rs_pass_remaining [of ops mk cx ?n ?n False] p PassDone True by blast
      from less.IH [OF this _ s1 full less.prems(6)] eq True fr PassDone show ?thesis by simp
    qed
  qed
qed

section \<open>The drive\<close>

lemma poll_grow_registers:
  assumes "poll_grow cx m d p b = (res, p', b')" "0 < m" "\<And>e. res \<noteq> Ready (Err e)"
  shows "0 < p_capacity p' \<or>
    req_waiting (b_requests b' (p_request p')) \<and> req_waker (b_requests b' (p_request p')) = Some cx"
  using assms(1)
proof (cases rule: poll_grow_cases)
  case invalid
  with assms(3) [of InvalidBudgetRequest] show ?thesis by blast
next
  case claimed
  with assms(2) show ?thesis by simp
next
  case enough
  with assms(2) show ?thesis by simp
next
  case granted
  with assms(2) show ?thesis by auto
qed simp_all

lemma rs_request_capacity_outcome:
  assumes r: "rs_request_capacity cx s = (Ok (), s')" and total: "0 < b_total (r_budget s)"
    and w: "valid_window (window (r_config s))"
  shows "0 < p_capacity (r_permit s') \<or>
    req_waiting (b_requests (r_budget s') (p_request (r_permit s'))) \<and>
    req_waker (b_requests (r_budget s') (p_request (r_permit s'))) = Some cx"
proof -
  let ?target = "min (target_frames (window (r_config s))) (total_capacity (r_budget s))"
  let ?min = "min (usize_saturating_add (p_capacity (r_permit s)) (min ?target 32)) ?target"
  have t: "0 < ?target" "0 < ?min"
    using total w by (auto simp: total_capacity_def valid_window_def usize_saturating_add_def
        usize_max_def)
  show ?thesis
  proof (cases "p_capacity (r_permit s) < ?target")
    case True
    obtain res p' b' where g:
      "poll_grow cx ?min ?target (r_permit s) (r_budget s) = (res, p', b')"
      by (metis prod_cases3)
    have s': "s' = s\<lparr>r_permit := p', r_budget := b'\<rparr>" and ok: "\<And>e. res \<noteq> Ready (Err e)"
      using r True g
      by (auto simp: rs_request_capacity_def Let_def split: poll.splits result.splits)
    from poll_grow_registers [OF g t(2) ok] show ?thesis by (simp add: s')
  next
    case False
    then show ?thesis
      using r t(1) by (auto simp: rs_request_capacity_def)
  qed
qed

text \<open>What \<open>drive\<close> hands to its loop.\<close>

lemma rs_drive_loop:
  fixes s :: "('t, 'f, 'e, 'a) reader"
  assumes inv: "rs_inv s" "\<not> r_terminated s"
  obtains s0 where
    "rs_drive ops mk cx s = rs_loop ops mk cx (max max_poll_ops (length (r_files s))) s0"
    "rs_moves False (\<lambda>_. [] :: 't list) (\<lambda>_ _. True) s s0" "rs_full s0" "r_wakes s0 = r_wakes s"
    "r_files s0 = map (\<lambda>file. file\<lparr>s_blocked := False\<rparr>) (r_files s)"
    "\<forall>slot \<in> set (r_files s0). \<not> s_blocked slot"
    "\<exists>e. r_frames s0 = r_frames s @ replicate e \<lparr>c_frame = None, c_complete = False\<rparr>"
    "r_recycled s0 = r_recycled s" "r_factory s0 = r_factory s"
    "0 < b_total (r_budget s) \<longrightarrow> 0 < p_capacity (r_permit s0) \<or>
      req_waiting (b_requests (r_budget s0) (p_request (r_permit s0))) \<and>
      req_waker (b_requests (r_budget s0) (p_request (r_permit s0))) = Some cx"
proof -
  obtain s1 where r: "rs_request_capacity cx s = (Ok (), s1)"
    and m1: "rs_moves False (\<lambda>_. [] :: 't list) (\<lambda>_ _. True) s s1" and f1: "r_files s1 = r_files s"
    and w1: "r_wakes s1 = r_wakes s" "r_frames s1 = r_frames s" "r_recycled s1 = r_recycled s"
      "r_factory s1 = r_factory s"
    using rs_request_capacity_moves [OF inv(1)] by blast
  let ?a = "rs_authorize s1"
  let ?s = "?a\<lparr>r_files := map (\<lambda>file. file\<lparr>s_blocked := False\<rparr>) (r_files ?a)\<rparr>"
  have s1: "rs_inv s1" "\<not> r_terminated s1"
    using m1 inv by (auto simp: rs_moves_def)
  have ma: "rs_moves False (\<lambda>_. [] :: 't list) (\<lambda>_ _. True) s1 ?a" by (rule rs_authorize_moves [OF s1])
  then have "rs_moves False (\<lambda>_. [] :: 't list) (\<lambda>_ _. True) ?a ?s"
    by (intro rs_unblock_moves) (simp add: rs_moves_def)
  with m1 ma have ms: "rs_moves False (\<lambda>_. [] :: 't list) (\<lambda>_ _. True) s ?s"
    by (blast intro: rs_moves_trans)
  have fa: "r_files ?a = r_files s"
    by (simp add: rs_authorize_def Let_def f1)
  show thesis
  proof
    show "rs_moves False (\<lambda>_. [] :: 't list) (\<lambda>_ _. True) s ?s" by (rule ms)
    show "rs_drive ops mk cx s = rs_loop ops mk cx (max max_poll_ops (length (r_files s))) ?s"
      by (simp add: rs_drive_def Let_def r fa)
    show "rs_full ?s" using rs_full_authorize [of s1] by (simp add: rs_full_def)
    show "r_files ?s = map (\<lambda>file. file\<lparr>s_blocked := False\<rparr>) (r_files s)" by (simp add: fa)
    have "valid_window (window (r_config s))" using inv(1) by (simp add: rs_inv_def)
    from rs_request_capacity_outcome [OF r _ this]
    show "0 < b_total (r_budget s) \<longrightarrow> 0 < p_capacity (r_permit ?s) \<or>
      req_waiting (b_requests (r_budget ?s) (p_request (r_permit ?s))) \<and>
      req_waker (b_requests (r_budget ?s) (p_request (r_permit ?s))) = Some cx"
      by (simp add: rs_authorize_def Let_def)
  qed (auto simp: rs_authorize_def Let_def w1)
qed

lemma rs_drive_quiet:
  assumes d: "rs_drive ops mk cx s = (Ok (), s')"
    and inv: "rs_inv s" "\<not> r_terminated s" "r_files s \<noteq> []" and reg: "read_registers ops reg"
  shows "rs_quiet reg cx (r_wakes s) s' \<and>
    (0 < b_total (r_budget s) \<longrightarrow> 0 < p_capacity (r_permit s') \<or>
      req_waiting (b_requests (r_budget s') (p_request (r_permit s'))) \<and>
      req_waker (b_requests (r_budget s') (p_request (r_permit s'))) = Some cx)"
  using inv(1,2)
proof (cases rule: rs_drive_loop [of _ ops mk cx])
  case (1 s0)
  have s0: "rs_inv s0" "\<not> r_terminated s0" "r_files s0 \<noteq> []"
    using 1(2) inv by (auto simp: rs_moves_def)
  have "\<forall>slot \<in> set (r_files s0). blocked_ok reg cx slot"
    using 1(6) by (simp add: blocked_ok_def)
  from rs_loop_quiet [OF _ s0 1(3) reg this] d 1(1)
  have "rs_quiet reg cx (r_wakes s0) s' \<and> r_permit s' = r_permit s0 \<and> r_budget s' = r_budget s0"
    by simp
  with 1(4,10) show ?thesis by metis
qed

text \<open>The head of the stream is never held up by the buffer.\<close>

lemma rs_head_not_waiting:
  assumes "rs_inv s" "r_files s = slot # slots" "r_frames s = cell # cells" "\<not> c_complete cell"
  shows "\<not> slot_waits s slot \<and> s_received slot \<noteq> s_count slot"
proof -
  have ok: "slot_ok (r_emitted s) slot"
    and c: "cells_ok (buffered (r_emitted s) slot) (undelivered (r_emitted s) slot) (cell # cells)"
    using assms by (simp_all add: rs_inv_def)
  have z: "buffered (r_emitted s) slot = 0"
    using c assms(4) by (auto simp: cells_ok_def gr0_conv_Suc)
  then have "s_received slot \<noteq> s_count slot"
    using slot_ok_facts(2,5) [OF ok] by simp
  moreover have "unat (s_start slot + ucast (s_received slot) - r_emitted s) = 0"
    using s_received_minus [OF ok] z by simp
  ultimately show ?thesis
    using assms(3) by (simp add: slot_waits_def)
qed

text \<open>A quiet reader with some capacity and no frame to deliver will be woken.\<close>

lemma rs_quiet_head:
  assumes q: "rs_quiet reg cx wakes s" and inv: "rs_inv s" "r_files s \<noteq> []" "\<not> r_terminated s"
    and cap: "0 < p_capacity (r_permit s)"
    and head: "r_frames s \<noteq> [] \<Longrightarrow> \<not> c_complete (hd (r_frames s))"
  shows "r_wakes s = wakes @ [cx] \<or> reg cx (s_file (hd (r_files s)))"
proof -
  obtain slot slots where f: "r_files s = slot # slots" using inv(2) by (cases "r_files s") auto
  have ok: "slot_ok (r_emitted s) slot" using inv(1) f by (simp add: rs_inv_def)
  have "0 < span (r_emitted s) (r_files s)" using slot_ok_facts(2) [OF ok] f by simp
  moreover have "0 < min (p_capacity (r_permit s)) (target_frames (window (r_config s)))"
    using cap inv(1) by (simp add: rs_inv_def valid_window_def)
  ultimately have "r_frames s \<noteq> []"
    using q by (auto simp: rs_quiet_def rs_full_def rs_inv_distance [OF inv(1,3)])
  then obtain cell cells where c: "r_frames s = cell # cells" "\<not> c_complete cell"
    using head by (cases "r_frames s") auto
  from rs_head_not_waiting [OF inv(1) f c] q f show ?thesis
    by (auto simp: rs_quiet_def slot_settled_def blocked_ok_def)
qed

text \<open>
  What a pending \<open>poll_read\<close> with files waits for: the task is woken already, or the file at the head
  or the budget has the waker.
\<close>

lemma rs_poll_read_pending:
  assumes p: "rs_poll_read ops mk cx old s = (Pending, out, s')" and inv: "rs_inv s"
    and files: "r_files s \<noteq> []" and reg: "read_registers ops reg" and total: "0 < b_total (r_budget s)"
  shows "out = old \<and>
    (r_wakes s' = r_wakes s @ [cx] \<or>
     r_files s' \<noteq> [] \<and> reg cx (s_file (hd (r_files s'))) \<or>
     rs_granted_frames s' = 0 \<and>
       req_waiting (b_requests (r_budget s') (p_request (r_permit s'))) \<and>
       req_waker (b_requests (r_budget s') (p_request (r_permit s'))) = Some cx)"
proof -
  from p inv have s': "s' = rs_poll_progress ops mk cx s" "out = old" "\<not> r_terminated s'"
    "r_error s' = None" "r_frames s' \<noteq> [] \<Longrightarrow> \<not> c_complete (hd (r_frames s'))"
    by (cases rule: rs_poll_read_cases; simp)+
  from s'(1) [symmetric] inv show ?thesis
  proof (cases rule: rs_poll_progress_cases)
    case terminated
    with s'(3) show ?thesis by simp
  next
    case empty
    with files show ?thesis by simp
  next
    case (failed e s1)
    with s'(4) show ?thesis by (simp add: rs_fail_sel)
  next
    case driven
    have m: "rs_inv s'" "r_files s' \<noteq> []"
      using driven(4) [of "\<lambda>_ _. True" "\<lambda>_. []"] files by (auto simp: rs_moves_def)
    note q = rs_drive_quiet [OF driven(3) inv driven(1,2) reg]
    have "r_wakes s' = r_wakes s @ [cx] \<or> reg cx (s_file (hd (r_files s')))"
      if "0 < p_capacity (r_permit s')"
      using rs_quiet_head [OF conjunct1 [OF q] m s'(3) that s'(5)] .
    with q total m(2) s'(2) show ?thesis
      by (auto simp: rs_granted_frames_def capacity_def)
  qed
qed

section \<open>Invariants of a drive\<close>

text \<open>
  What every poll of a file keeps, and what does not depend on the cursor and the woken wakers,
  holds after a pass, a loop and a drive; \<open>Q\<close> is what a poll that fails establishes.
\<close>

definition poll_invariant ::
    "('t, 'f, 'e) read_file \<Rightarrow> ('a \<Rightarrow> 't \<times> 'a) \<Rightarrow> waker \<Rightarrow> (('t, 'f, 'e, 'a) reader \<Rightarrow> bool)
      \<Rightarrow> (('t, 'f, 'e, 'a) reader \<Rightarrow> bool) \<Rightarrow> bool" where
  "poll_invariant ops mk cx P Q \<longleftrightarrow>
     (\<forall>s c w. P s \<longrightarrow> P (s\<lparr>r_cursor := c\<rparr>) \<and> P (s\<lparr>r_wakes := w\<rparr>)) \<and>
     (\<forall>s. P s \<and> rs_inv s \<longrightarrow> P (rs_authorize s)) \<and>
     (\<forall>s i remaining res remaining' s'. P s \<and> rs_inv s \<and> i < length (r_files s) \<and>
        rs_poll_file ops mk cx i remaining s = (res, remaining', s') \<longrightarrow>
        (if \<exists>e. res = Err e then Q s' else P s'))"

lemma rs_pass_invariant:
  assumes "rs_pass ops mk cx n count progressed remaining s = (pr, s')"
    and "poll_invariant ops mk cx P Q" "P s" "rs_inv s" "count = length (r_files s)" "0 < count"
  shows "if \<exists>e. pr = PassError e then Q s' else P s'"
  using assms
proof (induction n arbitrary: progressed remaining s)
  case 0
  then show ?case by auto
next
  case (Suc n)
  let ?i = "r_cursor s mod count"
  let ?s = "s\<lparr>r_cursor := (?i + 1) mod count\<rparr>"
  obtain res rem1 s1 where p: "rs_poll_file ops mk cx ?i remaining ?s = (res, rem1, s1)"
    by (metis prod_cases3)
  have "P ?s" using Suc.prems(2,3) unfolding poll_invariant_def by blast
  moreover have s0: "rs_inv ?s" "?i < length (r_files ?s)"
    using Suc.prems(4-6) by simp_all
  ultimately have P1: "if \<exists>e. res = Err e then Q s1 else P s1"
    using Suc.prems(2) p unfolding poll_invariant_def by blast
  have m1: "rs_inv s1" "count = length (r_files s1)"
    using rs_poll_file_moves [OF s0 p, of "\<lambda>_ _. True" "\<lambda>_. []"] Suc.prems(5)
    by (auto simp: rs_moves_def)
  show ?case
  proof (cases "\<exists>moved. res = Ok moved \<and> rem1 \<noteq> 0")
    case True
    then obtain moved where
      "rs_pass ops mk cx n count (progressed \<or> moved) rem1 s1 = (pr, s')"
      using Suc.prems(1) p by (auto simp: Let_def)
    moreover have "P s1" using P1 True by auto
    ultimately show ?thesis using Suc.IH [OF _ Suc.prems(2) _ m1 Suc.prems(6)] by blast
  next
    case False
    with Suc.prems(1,2) p P1 show ?thesis
      by (cases res) (auto simp: Let_def poll_invariant_def split: if_splits)
  qed
qed

lemma rs_loop_invariant:
  assumes "rs_loop ops mk cx remaining s = (res, s')" "poll_invariant ops mk cx P Q" "P s"
    and "rs_inv s" "\<not> r_terminated s" "r_files s \<noteq> []"
  shows "if \<exists>e. res = Err e then Q s' else P s'"
  using assms
proof (induction remaining arbitrary: s rule: less_induct)
  case (less remaining)
  let ?n = "length (r_files s)"
  obtain pr s1 where p: "rs_pass ops mk cx ?n ?n False remaining s = (pr, s1)" by fastforce
  have P0: "if \<exists>e. pr = PassError e then Q s1 else P s1"
    using rs_pass_invariant [OF p less.prems(2-4) refl] less.prems(6) by simp
  note step = less.prems(1) [unfolded rs_loop.simps [of _ _ _ remaining]]
  show ?case
  proof (cases pr)
    case (PassDone progressed remaining')
    with P0 have P1: "P s1" by simp
    from rs_pass_moves [OF p less.prems(4) refl, of "\<lambda>_ _. True" "\<lambda>_. []"] less.prems(5,6)
    have s1: "rs_inv s1" "\<not> r_terminated s1" "r_files s1 \<noteq> []"
      by (auto simp: rs_moves_def)
    from rs_authorize_moves [OF s1(1,2), of False "\<lambda>_. []" "\<lambda>_ _. True"]
    have s2: "rs_inv (rs_authorize s1)" "\<not> r_terminated (rs_authorize s1)"
      "r_files (rs_authorize s1) \<noteq> []"
      using s1 by (auto simp: rs_moves_def)
    have P2: "P (rs_authorize s1)"
      using less.prems(2) P1 s1(1) by (simp add: poll_invariant_def)
    have eq: "(if \<not> progressed then (Ok (), rs_authorize s1)
        else rs_loop ops mk cx remaining' (rs_authorize s1)) = (res, s')"
      using step p PassDone less.prems(6) s1(3) by (simp add: Let_def rs_retire_inv [OF s1(1)])
    show ?thesis
    proof (cases progressed)
      case False
      with eq P2 show ?thesis by auto
    next
      case True
      have "remaining' < remaining"
        using rs_pass_remaining [of ops mk cx ?n ?n False] p PassDone True by blast
      with eq True less.IH [OF _ _ less.prems(2) P2 s2] show ?thesis by simp
    qed
  qed (use step p P0 less.prems(6) in auto)
qed

section \<open>How often files are polled\<close>

text \<open>\<open>m\<close> counts the polls of a file: it grows by at most one with each of them.\<close>

definition counts_polls :: "('t, 'f, 'e) read_file \<Rightarrow> ('f \<Rightarrow> nat) \<Rightarrow> bool" where
  "counts_polls ops m \<longleftrightarrow>
     (\<forall>cx f. m (snd (rf_poll_open ops cx f)) \<le> Suc (m f)) \<and>
     (\<forall>cx f t. m (fst (snd (rf_poll_read ops cx f t))) \<le> Suc (m f))"

text \<open>\<open>m\<close> counts the polls that were pending.\<close>

definition counts_pending :: "('t, 'f, 'e) read_file \<Rightarrow> ('f \<Rightarrow> nat) \<Rightarrow> bool" where
  "counts_pending ops m \<longleftrightarrow>
     (\<forall>cx f. m (snd (rf_poll_open ops cx f)) \<le>
        m f + (if fst (rf_poll_open ops cx f) = Pending then 1 else 0)) \<and>
     (\<forall>cx f t. m (fst (snd (rf_poll_read ops cx f t))) \<le>
        m f + (if fst (rf_poll_read ops cx f t) = Pending then 1 else 0))"

lemma counts_pollsD:
  "counts_polls ops m \<Longrightarrow> rf_poll_open ops cx f = (res, f') \<Longrightarrow> m f' \<le> Suc (m f)"
  "counts_polls ops m \<Longrightarrow> rf_poll_read ops cx f t = (res', f', t') \<Longrightarrow> m f' \<le> Suc (m f)"
  unfolding counts_polls_def by (metis fst_conv snd_conv)+

lemma counts_pendingD:
  "counts_pending ops m \<Longrightarrow> rf_poll_open ops cx f = (res, f') \<Longrightarrow>
     m f' \<le> m f + (if res = Pending then 1 else 0)"
  "counts_pending ops m \<Longrightarrow> rf_poll_read ops cx f t = (res', f', t') \<Longrightarrow>
     m f' \<le> m f + (if res' = Pending then 1 else 0)"
  unfolding counts_pending_def by (metis fst_conv snd_conv)+

definition polls_of :: "('f \<Rightarrow> nat) \<Rightarrow> ('t, 'f, 'e, 'a) reader \<Rightarrow> nat" where
  "polls_of m s = (\<Sum>slot \<leftarrow> r_files s. m (s_file slot))"

lemma sum_list_update_le:
  fixes f :: "'x \<Rightarrow> nat"
  assumes "i < length xs" "f y \<le> f (xs ! i) + k"
  shows "(\<Sum>x \<leftarrow> xs[i := y]. f x) \<le> (\<Sum>x \<leftarrow> xs. f x) + k"
  using assms
proof (induction xs arbitrary: i)
  case (Cons x xs)
  then show ?case by (cases i) (auto simp: add.assoc)
qed simp

lemma rs_poll_file_polls:
  assumes p: "rs_poll_file ops mk cx i remaining s = (res, remaining', s')"
    and m: "counts_polls ops m" and pos: "0 < remaining"
  shows "polls_of m s' + remaining' \<le> polls_of m s + remaining"
proof -
  consider (none) "r_files s' = r_files s" "remaining' = remaining"
    | (flag) slot where "i < length (r_files s)" "r_files s' = (r_files s)[i := slot]"
        "s_file slot = s_file (r_files s ! i)" "remaining' = remaining"
    | (poll) slot where "i < length (r_files s)" "r_files s' = (r_files s)[i := slot]"
        "m (s_file slot) \<le> Suc (m (s_file (r_files s ! i)))" "remaining' = remaining - 1"
    using p
    by (auto simp: rs_poll_file_def rs_poll_opening_def rs_poll_reading_def Let_def
        dest: counts_pollsD [OF m]
        split: if_splits read_state.splits poll.splits result.splits prod.splits option.splits)
  then show ?thesis
  proof cases
    case none
    then show ?thesis by (simp add: polls_of_def)
  next
    case flag
    with sum_list_update_le [of i "r_files s" "\<lambda>slot. m (s_file slot)" slot 0]
    show ?thesis by (simp add: polls_of_def)
  next
    case poll
    with sum_list_update_le [of i "r_files s" "\<lambda>slot. m (s_file slot)" slot 1] pos
    show ?thesis by (simp add: polls_of_def)
  qed
qed

fun operations_left :: "'e pass_result \<Rightarrow> nat" where
  "operations_left (PassDone progressed remaining) = remaining"
| "operations_left _ = 0"

lemma rs_pass_polls:
  assumes "rs_pass ops mk cx n count progressed remaining s = (pr, s')"
    and "counts_polls ops m" "0 < remaining"
  shows "polls_of m s' + operations_left pr \<le> polls_of m s + remaining \<and>
    ((\<exists>p r. pr = PassDone p r) \<longrightarrow> 0 < operations_left pr)"
  using assms
proof (induction n arbitrary: progressed remaining s)
  case 0
  then show ?case by auto
next
  case (Suc n)
  let ?s = "s\<lparr>r_cursor := (r_cursor s mod count + 1) mod count\<rparr>"
  obtain res rem1 s1 where
    p: "rs_poll_file ops mk cx (r_cursor s mod count) remaining ?s = (res, rem1, s1)"
    by (metis prod_cases3)
  from rs_poll_file_polls [OF p Suc.prems(2,3)]
  have le: "polls_of m s1 + rem1 \<le> polls_of m s + remaining" by (simp add: polls_of_def)
  show ?case
  proof (cases res)
    case (Err e)
    with Suc.prems(1) p le show ?thesis by (auto simp: Let_def)
  next
    case (Ok moved)
    show ?thesis
    proof (cases "rem1 = 0")
      case True
      with Suc.prems(1) p Ok le show ?thesis by (auto simp: Let_def polls_of_def split: if_splits)
    next
      case False
      then have "rs_pass ops mk cx n count (progressed \<or> moved) rem1 s1 = (pr, s')"
        using Suc.prems(1) p Ok by (simp add: Let_def)
      from Suc.IH [OF this Suc.prems(2)] False le show ?thesis by auto
    qed
  qed
qed

lemma rs_loop_polls:
  assumes "rs_loop ops mk cx remaining s = (res, s')" "counts_polls ops m" "0 < remaining"
    and "rs_inv s" "\<not> r_terminated s" "r_files s \<noteq> []"
  shows "polls_of m s' \<le> polls_of m s + remaining"
  using assms
proof (induction remaining arbitrary: s rule: less_induct)
  case (less remaining)
  let ?n = "length (r_files s)"
  obtain pr s1 where p: "rs_pass ops mk cx ?n ?n False remaining s = (pr, s1)" by fastforce
  note b = rs_pass_polls [OF p less.prems(2,3)]
  note step = less.prems(1) [unfolded rs_loop.simps [of _ _ _ remaining]]
  show ?case
  proof (cases pr)
    case (PassDone progressed remaining')
    from rs_pass_moves [OF p less.prems(4) refl, of "\<lambda>_ _. True" "\<lambda>_. []"] less.prems(5,6)
    have s1: "rs_inv s1" "\<not> r_terminated s1" "r_files s1 \<noteq> []"
      by (auto simp: rs_moves_def)
    from rs_authorize_moves [OF s1(1,2), of False "\<lambda>_. []" "\<lambda>_ _. True"]
    have s2: "rs_inv (rs_authorize s1)" "\<not> r_terminated (rs_authorize s1)"
      "r_files (rs_authorize s1) \<noteq> []"
      using s1 by (auto simp: rs_moves_def)
    have same: "polls_of m (rs_authorize s1) = polls_of m s1"
      by (simp add: polls_of_def rs_authorize_def Let_def)
    have eq: "(if \<not> progressed then (Ok (), rs_authorize s1)
        else rs_loop ops mk cx remaining' (rs_authorize s1)) = (res, s')"
      using step p PassDone less.prems(6) s1(3) by (simp add: Let_def rs_retire_inv [OF s1(1)])
    show ?thesis
    proof (cases progressed)
      case False
      with eq b same show ?thesis by simp
    next
      case True
      have "remaining' < remaining"
        using rs_pass_remaining [of ops mk cx ?n ?n False] p PassDone True by blast
      moreover have "0 < remaining'" using b PassDone by simp
      ultimately have "polls_of m s' \<le> polls_of m (rs_authorize s1) + remaining'"
        using eq True less.IH [OF _ _ less.prems(2) _ s2] by simp
      with b same PassDone show ?thesis by simp
    qed
  qed (use step p b less.prems(6) in auto)
qed

lemma rs_drive_polls:
  assumes d: "rs_drive ops mk cx s = (res, s')"
    and inv: "rs_inv s" "\<not> r_terminated s" "r_files s \<noteq> []" and m: "counts_polls ops m"
  shows "polls_of m s' \<le> polls_of m s + max max_poll_ops (length (r_files s))"
  using inv(1,2)
proof (cases rule: rs_drive_loop [of _ ops mk cx])
  case (1 s0)
  have s0: "rs_inv s0" "\<not> r_terminated s0" "r_files s0 \<noteq> []"
    using 1(2) inv by (auto simp: rs_moves_def)
  have same: "polls_of m s0 = polls_of m s"
    by (simp add: 1(5) polls_of_def comp_def)
  have "rs_loop ops mk cx (max max_poll_ops (length (r_files s))) s0 = (res, s')"
    using d 1(1) by simp
  from rs_loop_polls [OF this m _ s0] show ?thesis by (simp add: same max_poll_ops_def)
qed

text \<open>In one drive each file is pending at most once.\<close>

definition pending_within :: "('f \<Rightarrow> nat) \<Rightarrow> nat list \<Rightarrow> ('t, 'f, 'e, 'a) reader \<Rightarrow> bool" where
  "pending_within m start s \<longleftrightarrow>
     (\<forall>i < length (r_files s). m (s_file (r_files s ! i)) \<le>
        start ! i + (if s_blocked (r_files s ! i) then 1 else 0))"

lemma rs_poll_file_pending:
  assumes p: "rs_poll_file ops mk cx i remaining s = (res, remaining', s')"
    and m: "counts_pending ops m" and i: "i < length (r_files s)" and b: "pending_within m start s"
  shows "pending_within m start s'"
proof -
  have "m (s_file (r_files s ! i)) \<le> start ! i + (if s_blocked (r_files s ! i) then 1 else 0)"
    using b i by (simp add: pending_within_def)
  then have "m (s_file (r_files s' ! i)) \<le> start ! i + (if s_blocked (r_files s' ! i) then 1 else 0)"
    using p i
    by (auto simp: rs_poll_file_def rs_poll_opening_def rs_poll_reading_def Let_def
        dest!: counts_pendingD [OF m]
        split: if_splits read_state.splits poll.splits result.splits prod.splits option.splits)
  then show ?thesis
    using b rs_poll_file_frame [OF p] unfolding pending_within_def by metis
qed

lemma pending_within_invariant:
  assumes "counts_pending ops m"
  shows "poll_invariant ops mk cx (pending_within m start) (pending_within m start)"
  unfolding poll_invariant_def
proof (intro conjI allI impI)
  fix s i remaining res remaining' s'
  assume "pending_within m start s \<and> rs_inv s \<and> i < length (r_files s) \<and>
    rs_poll_file ops mk cx i remaining s = (res, remaining', s')"
  then show "if \<exists>e. res = Err e then pending_within m start s' else pending_within m start s'"
    using rs_poll_file_pending [OF _ assms] by (simp add: if_cancel) blast
qed (auto simp: pending_within_def rs_authorize_def Let_def)

lemma rs_drive_pending:
  assumes d: "rs_drive ops mk cx s = (res, s')"
    and inv: "rs_inv s" "\<not> r_terminated s" "r_files s \<noteq> []" and m: "counts_pending ops m"
    and i: "i < length (r_files s)"
  shows "length (r_files s') = length (r_files s) \<and>
    m (s_file (r_files s' ! i)) \<le> m (s_file (r_files s ! i)) + 1"
  using inv(1,2)
proof (cases rule: rs_drive_loop [of _ ops mk cx])
  case (1 s0)
  let ?start = "map m (map s_file (r_files s))"
  have s0: "rs_inv s0" "\<not> r_terminated s0" "r_files s0 \<noteq> []"
    using 1(2) inv by (auto simp: rs_moves_def)
  have "pending_within m ?start s0"
    by (simp add: 1(5) pending_within_def)
  with rs_loop_invariant [OF _ pending_within_invariant [OF m] _ s0] d 1(1)
  have "pending_within m ?start s'" by (metis (full_types))
  moreover have "length (r_files s') = length (r_files s)"
    using rs_drive_moves [OF d inv, of "\<lambda>_ _. True" "\<lambda>_. []"] by (simp add: rs_moves_def)
  ultimately show ?thesis
    using i by (auto simp: pending_within_def split: if_splits)
qed

end
