(* ===== verification/Pool_Client.thy ===== *)
theory Pool_Client
  imports Budget_Pool
begin

text \<open>
  The pool as one of its permits sees it: the owner of the permit grows and shrinks it
  (\<open>permit_run\<close>), all other permits of the pool take any steps, and new ones appear. Both
  schedulers are such clients.
\<close>

section \<open>Steps of the owner and of the others\<close>

fun event_rid :: "pool_event \<Rightarrow> rid option" where
  "event_rid NewPermit = None"
| "event_rid (Grow r cx m d res) = Some r"
| "event_rid (Shrink r n wakes) = Some r"
| "event_rid (DropPermit r wakes) = Some r"

lemma permit_run_pool:
  assumes "permit_run x y" "b_alive (snd x) (p_request (fst x))"
    and "pool_reachable n (snd x, caps(p_request (fst x) := p_capacity (fst x)))"
  shows "pool_reachable n (snd y, caps(p_request (fst y) := p_capacity (fst y)))"
  using assms
proof (induction rule: permit_run.induct)
  case (run_grow x p b cx m d res p' b')
  let ?caps = "caps(p_request p := p_capacity p)"
  have a: "b_alive b (p_request p)" and p': "p_request p' = p_request p"
    using permit_run_frame [OF run_grow(1)] run_grow(4) poll_grow_frame [OF run_grow(2)] by auto
  have "poll_grow cx m d \<lparr>p_capacity = ?caps (p_request p), p_request = p_request p\<rparr> b = (res, p', b')"
    using run_grow(2) by (cases p) simp
  note step = pool_step.pool_grow [where caps = ?caps, OF a this]
  have "pool_reachable n (b, ?caps)"
    using run_grow(3) [OF run_grow(4,5)] by (simp only: fst_conv snd_conv)
  from pool_next [OF this step] show ?case
    by (simp only: fst_conv snd_conv fun_upd_upd p')
next
  case (run_shrink x p b n' p' b' wakes)
  let ?caps = "caps(p_request p := p_capacity p)"
  have a: "b_alive b (p_request p)" and p': "p_request p' = p_request p"
    using permit_run_frame [OF run_shrink(1)] run_shrink(4) shrink_to_sel [OF run_shrink(2)] by auto
  have "shrink_to n' \<lparr>p_capacity = ?caps (p_request p), p_request = p_request p\<rparr> b = (p', b', wakes)"
    using run_shrink(2) by (cases p) simp
  note step = pool_step.pool_shrink [where caps = ?caps, OF a this]
  have "pool_reachable n (b, ?caps)"
    using run_shrink(3) [OF run_shrink(4,5)] by (simp only: fst_conv snd_conv)
  from pool_next [OF this step] show ?case
    by (simp only: fst_conv snd_conv fun_upd_upd p')
qed simp

text \<open>A step of another permit leaves this permit alive and its capacity alone.\<close>

lemma pool_step_other:
  assumes "pool_step x ev y" "event_rid ev \<noteq> Some r" "b_alive (fst x) r" "r < b_next (fst x)"
  shows "snd y r = snd x r \<and> b_alive (fst y) r"
  using assms
  by (induction rule: pool_step.induct)
    (auto simp: permit_new_def Let_def dest: poll_grow_frame(1) shrink_to_frame(1)
      permit_drop_frame(1))

section \<open>A client's share\<close>

text \<open>\<open>caps\<close> holds the capacities of the other permits; the client knows its own.\<close>

definition client_ok :: "nat \<Rightarrow> permit \<Rightarrow> budget \<Rightarrow> (rid \<Rightarrow> nat) \<Rightarrow> bool" where
  "client_ok n p b caps \<longleftrightarrow>
     pool_reachable n (b, caps(p_request p := p_capacity p)) \<and> b_alive b (p_request p)"

lemma client_run:
  assumes "client_ok n p b caps" "permit_run (p, b) (p', b')"
  shows "client_ok n p' b' caps"
  using assms permit_run_pool [OF assms(2), of n caps] permit_run_frame [OF assms(2)]
  by (simp add: client_ok_def)

lemma client_new:
  assumes "pool_reachable n (b, caps)" "permit_new b = (p, b')"
  shows "client_ok n p b' caps"
proof -
  have "budget_inv b caps" using pool_reachable_inv [OF assms(1)] by simp
  from permit_new_inv(1) [OF this assms(2)] have "b_alive b' (p_request p)"
    by (simp add: permit_inv_def)
  then show ?thesis
    using pool_next [OF assms(1) pool_step.pool_new [OF assms(2)]] by (simp add: client_ok_def)
qed

lemma client_other:
  assumes ok: "client_ok n p b caps" and other: "event_rid ev \<noteq> Some (p_request p)"
    and st: "pool_step (b, caps(p_request p := p_capacity p)) ev (b', caps')"
  shows "client_ok n p b' caps'"
proof -
  let ?r = "p_request p"
  have reach: "pool_reachable n (b, caps(?r := p_capacity p))" and live: "b_alive b ?r"
    using ok by (simp_all add: client_ok_def)
  from pool_reachable_inv [OF reach] live have "?r < b_next b"
    by (auto simp: budget_inv_def)
  with pool_step_other [OF st other] live have o: "caps' ?r = p_capacity p" "b_alive b' ?r"
    by simp_all
  from o(1) have "caps'(?r := p_capacity p) = caps'" by (simp add: fun_upd_idem)
  with pool_next [OF reach st] o(2) show ?thesis by (simp add: client_ok_def)
qed

text \<open>A client never holds more than the pool has.\<close>

lemma client_capacity:
  assumes "client_ok n p b caps"
  shows "p_capacity p \<le> n" "b_total b = n" "permit_inv p b caps"
proof -
  have "budget_inv b (caps(p_request p := p_capacity p)) \<and> b_total b = n"
    using assms pool_reachable_inv by (fastforce simp: client_ok_def)
  then show "b_total b = n" and inv: "permit_inv p b caps"
    using assms by (simp_all add: client_ok_def permit_inv_def)
  from permit_capacity_bound [OF inv] \<open>b_total b = n\<close> show "p_capacity p \<le> n" by simp
qed

text \<open>The owner of the only permit of a pool never waits.\<close>

definition alone :: "permit \<Rightarrow> budget \<Rightarrow> bool" where
  "alone p b \<longleftrightarrow> (\<forall>r. b_alive b r \<longrightarrow> r = p_request p)"

lemma alone_run: "permit_run (p, b) (p', b') \<Longrightarrow> alone p b \<Longrightarrow> alone p' b'"
  using permit_run_frame [of "(p, b)" "(p', b')"] by (simp add: alone_def)

lemma alone_new: "permit_new (budget_new n) = (p, b) \<Longrightarrow> alone p b"
  by (auto simp: alone_def permit_new_def budget_new_def Let_def split: if_splits)

lemma alone_not_waiting:
  assumes ok: "client_ok n p b caps" and alone: "alone p b"
  shows "\<not> req_waiting (b_requests b (p_request p))"
proof
  let ?caps = "caps(p_request p := p_capacity p)"
  assume "req_waiting (b_requests b (p_request p))"
  moreover have reach: "pool_reachable n (b, ?caps)" and live: "b_alive b (p_request p)"
    using ok by (simp_all add: client_ok_def)
  ultimately obtain r rs where q: "b_waiters b = r # rs"
    using pool_reachable_inv [OF reach] by (cases "b_waiters b") (auto simp: budget_inv_defs)
  then have "b_alive b r" using pool_reachable_inv [OF reach] by (auto simp: budget_inv_defs)
  with head_waits_for_other [OF reach q] alone show False by (auto simp: alone_def)
qed

end
