(* ===== verification/Read_Run.thy ===== *)
theory Read_Run
  imports Read_Invariant Pool_Client
begin

text \<open>
  Runs of a read scheduler on a budget that it shares: the caller's operations in any order, each
  with its result, and between them any steps of the other permits of the pool. A run is a list of
  events; its files, output and errors are read off the list.
\<close>

section \<open>Events and steps\<close>

datatype ('t, 'f, 'e) read_event =
    PushFile 'f "(unit, push_error \<times> 'f) result"
  | CloseFiles
  | SetWindow window "(unit, contract_error) result"
  | PollProgress waker
  | PollRead waker 't "(unit option, 'e scheduler_error) result poll" 't
  | OtherPermit pool_event

text \<open>The pool that the reader draws on: the others' capacities and its own.\<close>

definition rs_pool :: "('t, 'f, 'e, 'a) reader \<times> (rid \<Rightarrow> nat) \<Rightarrow> pool" where
  "rs_pool x = (r_budget (fst x),
     (snd x)(p_request (r_permit (fst x)) := p_capacity (r_permit (fst x))))"

inductive rs_step ::
    "('t, 'f, 'e) read_file \<Rightarrow> ('a \<Rightarrow> 't \<times> 'a) \<Rightarrow> ('t, 'f, 'e, 'a) reader \<times> (rid \<Rightarrow> nat)
      \<Rightarrow> ('t, 'f, 'e) read_event \<Rightarrow> ('t, 'f, 'e, 'a) reader \<times> (rid \<Rightarrow> nat) \<Rightarrow> bool"
  for ops mk where
  step_push: "rs_push_file ops file s = (res, s') \<Longrightarrow>
    rs_step ops mk (s, caps) (PushFile file res) (s', caps)"
| step_close: "rs_step ops mk (s, caps) CloseFiles (rs_close_files s, caps)"
| step_window: "rs_set_window w s = (res, s') \<Longrightarrow>
    rs_step ops mk (s, caps) (SetWindow w res) (s', caps)"
| step_progress: "rs_step ops mk (s, caps) (PollProgress cx) (rs_poll_progress ops mk cx s, caps)"
| step_read: "rs_poll_read ops mk cx output s = (res, out, s') \<Longrightarrow>
    rs_step ops mk (s, caps) (PollRead cx output res out) (s', caps)"
| step_other: "pool_step (rs_pool (s, caps)) ev (b', caps') \<Longrightarrow>
    event_rid ev \<noteq> Some (p_request (r_permit s)) \<Longrightarrow>
    rs_step ops mk (s, caps) (OtherPermit ev) (s\<lparr>r_budget := b'\<rparr>, caps')"

inductive rs_run ::
    "('t, 'f, 'e) read_file \<Rightarrow> ('a \<Rightarrow> 't \<times> 'a) \<Rightarrow> nat \<Rightarrow> 'a
      \<Rightarrow> ('t, 'f, 'e) read_event list \<Rightarrow> ('t, 'f, 'e, 'a) reader \<times> (rid \<Rightarrow> nat) \<Rightarrow> bool"
  for ops mk n factory where
  run_new: "pool_reachable n (b, caps) \<Longrightarrow> rs_new factory b config = Ok s \<Longrightarrow>
    rs_run ops mk n factory [] (s, caps)"
| run_step: "rs_run ops mk n factory evs x \<Longrightarrow> rs_step ops mk x ev y \<Longrightarrow> rs_run ops mk n factory (evs @ [ev]) y"

fun accepted_file :: "('t, 'f, 'e) read_event \<Rightarrow> 'f list" where
  "accepted_file (PushFile file (Ok u)) = [file]"
| "accepted_file _ = []"

fun output_frame :: "('t, 'f, 'e) read_event \<Rightarrow> 't list" where
  "output_frame (PollRead cx old (Ready (Ok (Some u))) new) = [new]"
| "output_frame _ = []"

fun reported_error :: "('t, 'f, 'e) read_event \<Rightarrow> 'e scheduler_error list" where
  "reported_error (PollRead cx old (Ready (Err e)) new) = [e]"
| "reported_error _ = []"

definition pushed_files :: "('t, 'f, 'e) read_event list \<Rightarrow> 'f list" where
  "pushed_files evs = concat (map accepted_file evs)"

definition output_frames :: "('t, 'f, 'e) read_event list \<Rightarrow> 't list" where
  "output_frames evs = concat (map output_frame evs)"

definition reported_errors :: "('t, 'f, 'e) read_event list \<Rightarrow> 'e scheduler_error list" where
  "reported_errors evs = concat (map reported_error evs)"

text \<open>What the accepted files declare: the first \<open>frame_count\<close> frames of each, in order.\<close>

definition declared_frames ::
    "('t, 'f, 'e) read_file \<Rightarrow> ('f \<Rightarrow> 't list) \<Rightarrow> ('t, 'f, 'e) read_event list \<Rightarrow> 't list" where
  "declared_frames ops content evs =
     concat (map (\<lambda>file. take (unat (rf_frame_count ops file)) (content file)) (pushed_files evs))"

definition declared_count :: "('t, 'f, 'e) read_file \<Rightarrow> ('t, 'f, 'e) read_event list \<Rightarrow> nat" where
  "declared_count ops evs = (\<Sum>file \<leftarrow> pushed_files evs. unat (rf_frame_count ops file))"

lemmas run_reading_defs =
  pushed_files_def output_frames_def reported_errors_def declared_frames_def declared_count_def

lemma run_reading_Nil [simp]:
  "pushed_files [] = []" "output_frames [] = []" "reported_errors [] = []"
  "declared_frames ops content [] = []" "declared_count ops [] = 0"
  by (simp_all add: run_reading_defs)

lemma run_reading_snoc [simp]:
  "pushed_files (evs @ [ev]) = pushed_files evs @ accepted_file ev"
  "output_frames (evs @ [ev]) = output_frames evs @ output_frame ev"
  "reported_errors (evs @ [ev]) = reported_errors evs @ reported_error ev"
  "declared_frames ops content (evs @ [ev]) = declared_frames ops content evs @
     concat (map (\<lambda>file. take (unat (rf_frame_count ops file)) (content file)) (accepted_file ev))"
  "declared_count ops (evs @ [ev]) =
     declared_count ops evs + (\<Sum>file \<leftarrow> accepted_file ev. unat (rf_frame_count ops file))"
  by (simp_all add: run_reading_defs)

section \<open>One poll of the driver, abstractly\<close>

text \<open>
  Seen from outside, \<open>poll_progress\<close> either keeps everything that is owed (and may then find that
  the closed input is used up), or fails once and for all.
\<close>

definition progress_keeps ::
    "bool \<Rightarrow> ('f \<Rightarrow> 't list) \<Rightarrow> ('f \<Rightarrow> 't reading \<Rightarrow> bool)
      \<Rightarrow> ('t, 'f, 'e, 'a) reader \<Rightarrow> ('t, 'f, 'e, 'a) reader \<Rightarrow> bool" where
  "progress_keeps E content fits s s' \<longleftrightarrow>
     r_error s' = r_error s \<and> span (r_emitted s') (r_files s') = span (r_emitted s) (r_files s) \<and>
     (E \<longrightarrow> rs_owes content fits s s') \<and>
     (r_terminated s \<longrightarrow> s' = s) \<and>
     (r_terminated s' \<and> \<not> r_terminated s \<longrightarrow>
        r_closed s \<and> r_files s' = [] \<and> p_capacity (r_permit s') = 0)"

definition progress_fails :: "('t, 'f, 'e, 'a) reader \<Rightarrow> ('t, 'f, 'e, 'a) reader \<Rightarrow> bool" where
  "progress_fails s s' \<longleftrightarrow>
     \<not> r_terminated s \<and> (\<exists>e. r_error s' = Some e \<and> reportable e) \<and> r_terminated s' \<and> p_capacity (r_permit s') = 0"

lemma rs_poll_progress_view:
  fixes s :: "('t, 'f, 'e, 'a) reader"
  assumes inv: "rs_inv s" and s'_def: "s' = rs_poll_progress ops mk cx s"
  shows "rs_safe s s'" "r_closed s' = r_closed s"
    "progress_keeps (read_file_contract ops fits content) content fits s s' \<or> progress_fails s s'"
proof -
  show "rs_safe s s'" unfolding s'_def by (rule rs_poll_progress_safe [OF inv])
  have "r_closed s' = r_closed s \<and>
    (progress_keeps (read_file_contract ops fits content) content fits s s' \<or> progress_fails s s')"
    using s'_def [symmetric] inv
  proof (cases rule: rs_poll_progress_cases)
    case terminated
    then show ?thesis by (simp add: progress_keeps_def rs_owes_def)
  next
    case empty
    then have "r_files s' = []" "r_error s' = r_error s" "r_emitted s' = r_emitted s"
      "r_frames s' = r_frames s" "r_terminated s' = r_closed s" "r_closed s' = r_closed s"
      by (auto simp: rs_shrink_to_sel)
    with empty show ?thesis
      by (simp add: progress_keeps_def rs_owes_def rs_fits_no_files rs_pend_def)
  next
    case driven
    have m: "rs_moves (read_file_contract ops fits content) content fits s s'" by (rule driven(4))
    then have "rs_inv s'" "\<not> r_terminated s'" using driven(1) by (simp_all add: rs_moves_def)
    then have "span (r_emitted s') (r_files s') = span (r_emitted s) (r_files s)"
      using rs_inv_distance [OF inv driven(1)] rs_inv_distance [of s'] m
      by (simp add: rs_moves_def)
    with m driven(1) show ?thesis by (simp add: progress_keeps_def rs_moves_def)
  next
    case (failed e s1)
    have "r_closed s1 = r_closed s" using failed(4) by (simp add: rs_moves_def)
    with failed show ?thesis by (simp add: progress_fails_def rs_fail_sel)
  qed
  then show "r_closed s' = r_closed s"
    "progress_keeps (read_file_contract ops fits content) content fits s s' \<or> progress_fails s s'"
    by simp_all
qed

section \<open>The invariant of runs\<close>

text \<open>The reader's state and the shared pool; whatever the files do.\<close>

definition run_state :: "nat \<Rightarrow> ('t, 'f, 'e, 'a) reader \<times> (rid \<Rightarrow> nat) \<Rightarrow> bool" where
  "run_state n x \<longleftrightarrow>
     rs_inv (fst x) \<and> pool_reachable n (rs_pool x) \<and>
     b_alive (r_budget (fst x)) (p_request (r_permit (fst x)))"

lemma run_state_client:
  "run_state n (s, caps) \<longleftrightarrow> rs_inv s \<and> client_ok n (r_permit s) (r_budget s) caps"
  by (simp add: run_state_def client_ok_def rs_pool_def)

lemma run_state_safe:
  assumes "run_state n (s, caps)" "rs_safe s s'"
  shows "run_state n (s', caps)"
  using assms client_run [of n "r_permit s" "r_budget s" caps]
  by (simp add: run_state_client rs_safe_def)

lemma rs_step_state:
  assumes "rs_step ops mk x ev y" "run_state n x"
  shows "run_state n y"
  using assms
proof (induction rule: rs_step.induct)
  case (step_push f s res s' caps)
  then have inv: "rs_inv s" by (simp add: run_state_def)
  from step_push(1) inv show ?case
  proof (cases rule: rs_push_file_cases)
    case accepted
    from run_state_safe [OF step_push(2) accepted(2)] show ?thesis .
  qed (use step_push in simp)
next
  case (step_close s caps)
  then have inv: "rs_inv s" by (simp add: run_state_def)
  show ?case by (rule run_state_safe [OF step_close rs_close_files_safe [OF inv]])
next
  case (step_window w s res s' caps)
  then have inv: "rs_inv s" by (simp add: run_state_def)
  from step_window(1) inv show ?case
  proof (cases rule: rs_set_window_cases)
    case accepted
    have "rs_safe s s'" using accepted(3) [of "\<lambda>_. []" "\<lambda>_ _. True"] by (simp add: rs_keeps_def)
    from run_state_safe [OF step_window(2) this] show ?thesis .
  qed (use step_window in simp)
next
  case (step_progress s caps cx)
  then have inv: "rs_inv s" by (simp add: run_state_def)
  show ?case by (rule run_state_safe [OF step_progress rs_poll_progress_safe [OF inv]])
next
  case (step_read cx old s res out s' caps)
  then have inv: "rs_inv s" by (simp add: run_state_def)
  show ?case
    by (rule run_state_safe [OF step_read(2) rs_poll_read_safe [OF step_read(1) inv]])
next
  case (step_other s caps ev b' caps')
  then have inv: "rs_inv s" and ok: "client_ok n (r_permit s) (r_budget s) caps"
    by (simp_all add: run_state_client)
  have "pool_step (r_budget s, caps(p_request (r_permit s) := p_capacity (r_permit s))) ev (b', caps')"
    using step_other(1) by (simp add: rs_pool_def)
  from client_other [OF ok step_other(2) this] inv show ?case
    by (simp add: run_state_client rs_inv_def)
qed

lemma rs_run_state: "rs_run ops mk n factory evs x \<Longrightarrow> run_state n x"
proof (induction rule: rs_run.induct)
  case (run_new b caps config s)
  note new = rs_new_inv [OF run_new(2)]
  from client_new [OF run_new(1) new(2)] new(1) show ?case by (simp add: run_state_client)
qed (auto intro: rs_step_state)

lemma rs_run_positive: "rs_run ops mk n factory evs x \<Longrightarrow> 0 < n"
proof (induction rule: rs_run.induct)
  case (run_new b caps config s)
  then show ?case
    using pool_reachable_inv [OF run_new(1)]
    by (auto simp: rs_new_def total_capacity_def split: result.splits if_splits)
qed

section \<open>Runs as functions, to evaluate examples\<close>

datatype ('t, 'f) read_command =
    DoPush 'f
  | DoClose
  | DoWindow window
  | DoProgress waker
  | DoRead waker 't

fun rs_exec1 ::
    "('t, 'f, 'e) read_file \<Rightarrow> ('a \<Rightarrow> 't \<times> 'a) \<Rightarrow> ('t, 'f, 'e, 'a) reader \<Rightarrow> ('t, 'f) read_command
      \<Rightarrow> ('t, 'f, 'e) read_event \<times> ('t, 'f, 'e, 'a) reader" where
  "rs_exec1 ops mk s (DoPush f) = (let (res, s') = rs_push_file ops f s in (PushFile f res, s'))"
| "rs_exec1 ops mk s DoClose = (CloseFiles, rs_close_files s)"
| "rs_exec1 ops mk s (DoWindow w) = (let (res, s') = rs_set_window w s in (SetWindow w res, s'))"
| "rs_exec1 ops mk s (DoProgress cx) = (PollProgress cx, rs_poll_progress ops mk cx s)"
| "rs_exec1 ops mk s (DoRead cx old) =
     (let (res, out, s') = rs_poll_read ops mk cx old s in (PollRead cx old res out, s'))"

fun rs_exec ::
    "('t, 'f, 'e) read_file \<Rightarrow> ('a \<Rightarrow> 't \<times> 'a) \<Rightarrow> ('t, 'f, 'e, 'a) reader \<Rightarrow> ('t, 'f) read_command list
      \<Rightarrow> ('t, 'f, 'e) read_event list \<times> ('t, 'f, 'e, 'a) reader" where
  "rs_exec ops mk s [] = ([], s)"
| "rs_exec ops mk s (c # cs) =
     (let (ev, s1) = rs_exec1 ops mk s c; (evs, s2) = rs_exec ops mk s1 cs in (ev # evs, s2))"

lemma rs_exec1_step:
  assumes "rs_exec1 ops mk s c = (ev, s')"
  shows "rs_step ops mk (s, caps) ev (s', caps)"
  using assms by (cases c) (auto intro: rs_step.intros split: prod.splits)

lemma rs_exec_run:
  assumes "rs_run ops mk n factory evs (s, caps)" "rs_exec ops mk s cs = (evs', s')"
  shows "rs_run ops mk n factory (evs @ evs') (s', caps)"
  using assms
proof (induction cs arbitrary: s evs evs')
  case Nil
  then show ?case by simp
next
  case (Cons c cs)
  obtain ev s1 evs1 where e: "rs_exec1 ops mk s c = (ev, s1)" "rs_exec ops mk s1 cs = (evs1, s')"
    "evs' = ev # evs1"
    using Cons.prems(2) by (auto simp: Let_def split: prod.splits)
  have "rs_run ops mk n factory (evs @ [ev]) (s1, caps)"
    by (rule run_step [OF Cons.prems(1) rs_exec1_step [OF e(1)]])
  from Cons.IH [OF this e(2)] e(3) show ?case by simp
qed

text \<open>A reader started on a fresh budget.\<close>

definition rs_start :: "'a \<Rightarrow> nat \<Rightarrow> scheduler_config \<Rightarrow> ('t, 'f, 'e, 'a) reader" where
  "rs_start factory n config =
     (let (p, b) = permit_new (budget_new n)
      in \<lparr>r_factory = factory, r_config = config, r_permit = p, r_budget = b, r_wakes = [],
          r_files = [], r_frames = [], r_recycled = [], r_emitted = 0, r_discovered = 0,
          r_cursor = 0, r_closed = False, r_terminated = False, r_error = None\<rparr>)"

lemma rs_start_run:
  assumes "0 < n" "valid_window (window config)"
  shows "rs_run ops mk n factory [] (rs_start factory n config, \<lambda>_. 0)"
proof (rule run_new [OF pool_start])
  show "rs_new factory (budget_new n) config = Ok (rs_start factory n config)"
    using assms
    by (simp add: rs_new_def rs_start_def window_validate_cases total_capacity_def budget_new_def
        Let_def split: prod.splits)
qed

lemma rs_exec_start:
  assumes "0 < n" "valid_window (window config)"
    and "rs_exec ops mk (rs_start factory n config) cs = (evs, s)"
  shows "rs_run ops mk n factory evs (s, \<lambda>_. 0)"
  using rs_exec_run [OF rs_start_run [OF assms(1,2)] assms(3)] by simp

end
