(* ===== verification/Read_Order.thy ===== *)
theory Read_Order
  imports Read_Run
begin

text \<open>
  What a run delivers. Two invariants of runs: \<open>run_status\<close>, which holds whatever the files do (the
  number of frames, errors, termination), and \<open>run_order\<close>, which holds when the files keep their
  contract: the output so far, followed by what the scheduler owes, is what was declared.
\<close>

definition run_failed :: "('t, 'f, 'e) read_event list \<Rightarrow> ('t, 'f, 'e, 'a) reader \<Rightarrow> bool" where
  "run_failed evs s \<longleftrightarrow> reported_errors evs \<noteq> [] \<or> r_error s \<noteq> None"

definition run_status ::
    "('t, 'f, 'e) read_file \<Rightarrow> ('t, 'f, 'e) read_event list \<Rightarrow> ('t, 'f, 'e, 'a) reader \<Rightarrow> bool" where
  "run_status ops evs s \<longleftrightarrow>
     (\<not> run_failed evs s \<longrightarrow>
        declared_count ops evs = length (output_frames evs) + span (r_emitted s) (r_files s)) \<and>
     (reported_errors evs \<noteq> [] \<longrightarrow>
        r_terminated s \<and> r_error s = None \<and> length (reported_errors evs) = 1) \<and>
     (r_terminated s \<longrightarrow> p_capacity (r_permit s) = 0 \<and> (run_failed evs s \<or> r_closed s)) \<and>
     (\<forall>e. e \<in> set (reported_errors evs) \<or> r_error s = Some e \<longrightarrow> reportable e) \<and>
     (r_closed s \<longleftrightarrow> CloseFiles \<in> set evs)"

definition run_order ::
    "('t, 'f, 'e) read_file \<Rightarrow> ('f \<Rightarrow> 't reading \<Rightarrow> bool) \<Rightarrow> ('f \<Rightarrow> 't list)
      \<Rightarrow> ('t, 'f, 'e) read_event list \<Rightarrow> ('t, 'f, 'e, 'a) reader \<Rightarrow> bool" where
  "run_order ops fits content evs s \<longleftrightarrow>
     (\<exists>rest. declared_frames ops content evs = output_frames evs @ rest \<and>
        (\<not> run_failed evs s \<longrightarrow> rest = rs_pend content s \<and> rs_fits fits s))"

section \<open>Status\<close>

lemma run_status_progress:
  assumes st: "run_status ops evs s" and inv: "rs_inv s"
    and ev: "accepted_file ev = []" "output_frame ev = []" "reported_error ev = []"
      "ev \<noteq> CloseFiles"
    and s': "s' = rs_poll_progress ops mk cx s"
  shows "run_status ops (evs @ [ev]) s'"
proof -
  note view = rs_poll_progress_view [OF inv s']
  from view(3) [of "\<lambda>_ _. True" "\<lambda>_. []"] show ?thesis
  proof
    assume k: "progress_keeps (read_file_contract ops (\<lambda>_ _. True) (\<lambda>_. [])) (\<lambda>_. []) (\<lambda>_ _. True) s s'"
    then have f: "run_failed (evs @ [ev]) s' \<longleftrightarrow> run_failed evs s"
      using ev by (simp add: progress_keeps_def run_failed_def)
    with k st view(2) ev show ?thesis
      by (cases "r_terminated s") (auto simp: progress_keeps_def run_status_def)
  next
    assume "progress_fails s s'"
    with st view(2) ev show ?thesis
      by (auto simp: progress_fails_def run_status_def run_failed_def)
  qed
qed

lemma run_status_step:
  assumes "rs_step ops mk x ev y" "run_status ops evs (fst x)" "rs_inv (fst x)"
  shows "run_status ops (evs @ [ev]) (fst y)"
  using assms
proof (induction rule: rs_step.induct)
  case (step_push f s res s' caps)
  then have inv: "rs_inv s" by simp
  from step_push(1) inv show ?case
  proof (cases rule: rs_push_file_cases)
    case refused
    with step_push show ?thesis by (auto simp: run_status_def run_failed_def)
  next
    case accepted
    with step_push show ?thesis by (auto simp: run_status_def run_failed_def)
  qed
next
  case (step_close s caps)
  then show ?case by (auto simp: run_status_def run_failed_def rs_close_files_def)
next
  case (step_window w s res s' caps)
  then have inv: "rs_inv s" by simp
  from step_window(1) inv show ?case
  proof (cases rule: rs_set_window_cases)
    case refused
    with step_window show ?thesis by (auto simp: run_status_def run_failed_def)
  next
    case accepted
    have k: "rs_keeps (\<lambda>_. []) (\<lambda>_ _. True) s s'" by (rule accepted(3))
    with step_window accepted(5) rs_keeps_span [OF inv k] show ?thesis
      by (auto simp: run_status_def run_failed_def rs_keeps_def)
  qed
next
  case (step_progress s caps cx)
  then show ?case
    by (auto intro: run_status_progress [of ops evs s _ _ mk cx])
next
  case (step_read cx old s res out s' caps)
  then have inv: "rs_inv s" by simp
  let ?s1 = "rs_poll_progress ops mk cx s"
  have st1: "run_status ops (evs @ [PollProgress cx]) ?s1"
    using step_read by (intro run_status_progress [of ops evs s _ _ mk cx]) auto
  have inv1: "rs_inv ?s1" using rs_poll_progress_safe [OF inv] by (simp add: rs_safe_def)
  from step_read(1) inv show ?case
  proof (cases rule: rs_poll_read_cases)
    case (error e)
    with st1 inv1 show ?thesis by (auto simp: run_status_def run_failed_def rs_inv_def)
  next
    case eof
    with st1 show ?thesis by (auto simp: run_status_def run_failed_def)
  next
    case pending
    with st1 show ?thesis by (auto simp: run_status_def run_failed_def)
  next
    case frame
    with st1 show ?thesis by (auto simp: run_status_def run_failed_def)
  qed
next
  case (step_other s caps ev b' caps')
  then show ?case by (auto simp: run_status_def run_failed_def)
qed

lemma rs_run_status: "rs_run ops mk n factory evs x \<Longrightarrow> run_status ops evs (fst x)"
proof (induction rule: rs_run.induct)
  case (run_new b caps config s)
  note new = rs_new_inv [OF run_new(2)]
  then show ?case by (simp add: run_status_def run_failed_def)
next
  case (run_step evs x ev y)
  then show ?case
    using rs_run_state [OF run_step(1)]
    by (intro run_status_step) (auto simp: run_state_def)
qed

section \<open>Order\<close>

text \<open>Steps that neither admit nor deliver keep the order, failed or not.\<close>

lemma run_order_keep:
  assumes "run_order ops fits content evs s"
    and "accepted_file ev = []" "output_frame ev = []"
    and "run_failed (evs @ [ev]) s' \<or>
      (\<not> run_failed evs s \<and> rs_owes content fits s s')"
  shows "run_order ops fits content (evs @ [ev]) s'"
  using assms by (auto simp: run_order_def rs_owes_def)

lemma run_order_progress:
  assumes "run_order ops fits content evs s" "rs_inv s" "read_file_contract ops fits content"
    and "accepted_file ev = []" "output_frame ev = []" "reported_error ev = []"
  shows "run_order ops fits content (evs @ [ev]) (rs_poll_progress ops mk cx s)"
proof (rule run_order_keep [OF assms(1,4,5)])
  show "run_failed (evs @ [ev]) (rs_poll_progress ops mk cx s) \<or>
    (\<not> run_failed evs s \<and> rs_owes content fits s (rs_poll_progress ops mk cx s))"
    using rs_poll_progress_view(3) [OF assms(2) refl, where content = content and fits = fits and ops = ops and mk = mk and cx = cx] assms(3,6)
    by (auto simp: progress_keeps_def progress_fails_def run_failed_def)
qed

lemma run_order_step:
  assumes "rs_step ops mk x ev y" "run_order ops fits content evs (fst x)" "rs_inv (fst x)"
    and "read_file_contract ops fits content"
    and "run_status ops evs (fst x)" and "\<forall>file \<in> set (accepted_file ev). fits file Fresh"
  shows "run_order ops fits content (evs @ [ev]) (fst y)"
  using assms
proof (induction rule: rs_step.induct)
  case (step_push f s res s' caps)
  then have inv: "rs_inv s" by simp
  from step_push(1) inv show ?case
  proof (cases rule: rs_push_file_cases)
    case refused
    with step_push(2) show ?thesis by (auto simp: run_order_def run_failed_def)
  next
    case accepted
    with step_push(2,6) show ?thesis by (auto simp: run_order_def run_failed_def)
  qed
next
  case (step_close s caps)
  then show ?case
    by (auto simp: run_order_def run_failed_def rs_close_files_def rs_pend_def rs_fits_def)
next
  case (step_window w s res s' caps)
  then have inv: "rs_inv s" by simp
  from step_window(1) inv show ?case
  proof (cases rule: rs_set_window_cases)
    case refused
    with step_window(2) show ?thesis by (auto simp: run_order_def run_failed_def)
  next
    case accepted
    from accepted(3) [of content fits] step_window(2) show ?thesis
      by (auto simp: run_order_def run_failed_def rs_keeps_def rs_owes_def)
  qed
next
  case (step_progress s caps cx)
  then show ?case by (simp add: run_order_progress)
next
  case (step_read cx old s res out s' caps)
  then have inv: "rs_inv s" by simp
  let ?s1 = "rs_poll_progress ops mk cx s"
  have ord1: "run_order ops fits content (evs @ [PollProgress cx]) ?s1"
    using step_read by (intro run_order_progress) auto
  from step_read(1) inv show ?case
  proof (cases rule: rs_poll_read_cases)
    case (error e)
    with ord1 show ?thesis by (auto simp: run_order_def run_failed_def)
  next
    case eof
    with ord1 show ?thesis by (auto simp: run_order_def run_failed_def)
  next
    case pending
    with ord1 show ?thesis by (auto simp: run_order_def run_failed_def)
  next
    case frame
    have "reported_errors evs = []"
    proof (rule ccontr)
      assume "reported_errors evs \<noteq> []"
      with step_read(5) have "r_terminated s" by (simp add: run_status_def)
      then have "?s1 = s" by (simp add: rs_poll_progress_def)
      with \<open>r_terminated s\<close> frame(2) show False by simp
    qed
    with ord1 frame(1,3,5-7) show ?thesis by (auto simp: run_order_def run_failed_def)
  qed
next
  case (step_other s caps ev b' caps')
  then show ?case by (auto simp: run_order_def run_failed_def rs_pend_def rs_fits_def)
qed

lemma rs_run_order:
  assumes "rs_run ops mk n factory evs x" "read_file_contract ops fits content"
    and "\<forall>file \<in> set (pushed_files evs). fits file Fresh"
  shows "run_order ops fits content evs (fst x)"
  using assms
proof (induction rule: rs_run.induct)
  case (run_new b caps config s)
  note new = rs_new_inv [OF run_new(2)]
  then show ?case by (simp add: run_order_def run_failed_def)
next
  case (run_step evs x ev y)
  then show ?case
    using rs_run_state [OF run_step(1)] rs_run_status [OF run_step(1)]
    by (intro run_order_step) (auto simp: run_state_def pushed_files_def)
qed

end
