(* ===== verification/Read_Buffers.thy ===== *)
theory Read_Buffers
  imports Read_Wakeup Read_Order
begin

text \<open>
  The buffers of a reader. Each is made by the factory, lives in a cell of the buffer or among the
  recycled ones, and is exchanged one for one with the caller. The factory is only called when no
  recycled buffer is left, so a reader never makes more buffers than the shared budget has frames.
\<close>

definition frames_held :: "'t cell list \<Rightarrow> nat" where
  "frames_held cs = length (filter (\<lambda>c. c_frame c \<noteq> None) cs)"

definition buffers :: "('t, 'f, 'e, 'a) reader \<Rightarrow> nat" where
  "buffers s = frames_held (r_frames s) + length (r_recycled s)"

text \<open>\<open>m\<close> counts the buffers made.\<close>

definition counts_made :: "('a \<Rightarrow> 't \<times> 'a) \<Rightarrow> ('a \<Rightarrow> nat) \<Rightarrow> bool" where
  "counts_made mk m \<longleftrightarrow> (\<forall>a. m (snd (mk a)) = Suc (m a))"

definition buffers_ok ::
    "('a \<Rightarrow> nat) \<Rightarrow> nat \<Rightarrow> nat \<Rightarrow> ('t, 'f, 'e, 'a) reader \<Rightarrow> bool" where
  "buffers_ok m start n s \<longleftrightarrow>
     m (r_factory s) = start + buffers s \<and> m (r_factory s) \<le> start + n \<and>
     p_capacity (r_permit s) \<le> n"

lemma frames_held_le: "frames_held cs \<le> length cs"
  by (simp add: frames_held_def)

lemma frames_held_simps [simp]:
  "frames_held [] = 0"
  "frames_held (c # cs) = (if c_frame c = None then 0 else 1) + frames_held cs"
  "frames_held (cs @ cs') = frames_held cs + frames_held cs'"
  by (auto simp: frames_held_def)

lemma frames_held_replicate [simp]:
  "c_frame c = None \<Longrightarrow> frames_held (replicate e c) = 0"
  by (simp add: frames_held_def)

lemma frames_held_update:
  assumes "i < length cs" "c_frame c \<noteq> None"
  shows "frames_held (cs[i := c]) = frames_held cs + (if c_frame (cs ! i) = None then 1 else 0)"
  using assms by (induction cs arbitrary: i) (auto simp: nth_Cons split: nat.splits)

text \<open>The effect of one poll on the buffers.\<close>

lemma rs_poll_reading_cell:
  fixes s :: "('t, 'f, 'e, 'a) reader"
  assumes p: "rs_poll_reading ops mk cx i remaining s = (res, remaining', s')"
  defines "off \<equiv> unat (s_start (r_files s ! i) + ucast (s_received (r_files s ! i)) - r_emitted s)"
  shows "r_frames s' = r_frames s \<and> r_recycled s' = r_recycled s \<and> r_factory s' = r_factory s \<or>
    off < length (r_frames s) \<and>
    (\<exists>c. c_frame c \<noteq> None \<and> r_frames s' = (r_frames s)[off := c]) \<and>
    r_recycled s' = fst (snd (rs_buffer mk (r_frames s ! off) (r_recycled s) (r_factory s))) \<and>
    r_factory s' = snd (snd (rs_buffer mk (r_frames s ! off) (r_recycled s) (r_factory s)))"
proof (cases "s_received (r_files s ! i) = s_count (r_files s ! i) \<or>
    length (r_frames s) \<le> off \<or> c_complete (r_frames s ! off)")
  case True
  then show ?thesis
    using p unfolding rs_poll_reading_def off_def [symmetric] Let_def
    by (elim disjE) (auto split: if_splits)
next
  case False
  obtain t recycled factory where
    b: "rs_buffer mk (r_frames s ! off) (r_recycled s) (r_factory s) = (t, recycled, factory)"
    by (metis prod_cases3)
  obtain r f t' where o: "rf_poll_read ops cx (s_file (r_files s ! i)) t = (r, f, t')"
    by (metis prod_cases3)
  from False have c: "s_received (r_files s ! i) \<noteq> s_count (r_files s ! i)"
    "\<not> length (r_frames s) \<le> off" "\<not> c_complete (r_frames s ! off)" by auto
  have "r_recycled s' = recycled \<and> r_factory s' = factory \<and>
      (\<exists>c. c_frame c = Some t' \<and> r_frames s' = (r_frames s)[off := c])"
    using p unfolding rs_poll_reading_def off_def [symmetric] Let_def
    by (auto simp: c b o split: poll.splits result.splits option.splits intro!: exI)
  with c(2) show ?thesis by (auto simp: b)
qed

lemma rs_poll_file_buffers:
  fixes s :: "('t, 'f, 'e, 'a) reader"
  assumes p: "rs_poll_file ops mk cx i remaining s = (res, remaining', s')"
    and m: "counts_made mk m"
  shows "buffers s' = buffers s \<and> m (r_factory s') = m (r_factory s) \<or>
    buffers s' = Suc (buffers s) \<and> m (r_factory s') = Suc (m (r_factory s)) \<and> r_recycled s' = []"
proof -
  have made: "m a' = Suc (m a)" if "mk a = (t, a')" for a t a'
    using m that unfolding counts_made_def by (metis snd_conv)
  let ?slot = "r_files s ! i"
  let ?off = "unat (s_start ?slot + ucast (s_received ?slot) - r_emitted s)"
  let ?buf = "rs_buffer mk (r_frames s ! ?off) (r_recycled s) (r_factory s)"
  consider (none) "r_frames s' = r_frames s" "r_recycled s' = r_recycled s"
      "r_factory s' = r_factory s"
    | (cell) c where "?off < length (r_frames s)" "c_frame c \<noteq> None"
      "r_frames s' = (r_frames s)[?off := c]"
      "r_recycled s' = fst (snd ?buf)" "r_factory s' = snd (snd ?buf)"
  proof (cases "s_state ?slot = RReading \<and> i < length (r_files s) \<and> \<not> s_blocked ?slot")
    case True
    then have "rs_poll_reading ops mk cx i remaining s = (res, remaining', s')"
      using p by (simp add: rs_poll_file_def)
    from rs_poll_reading_cell [OF this] that show thesis by blast
  next
    case False
    with p have "r_frames s' = r_frames s \<and> r_recycled s' = r_recycled s \<and>
        r_factory s' = r_factory s"
      by (auto simp: rs_poll_file_def rs_poll_opening_def Let_def
          split: if_splits read_state.splits poll.splits result.splits prod.splits)
    with that(1) show thesis by blast
  qed
  then show ?thesis
  proof cases
    case none
    then show ?thesis by (simp add: buffers_def)
  next
    case cell
    have held: "frames_held (r_frames s') = frames_held (r_frames s) +
        (if c_frame (r_frames s ! ?off) = None then 1 else 0)"
      using frames_held_update [OF cell(1,2)] cell(3) by simp
    show ?thesis
    proof (cases "c_frame (r_frames s ! ?off)")
      case None
      obtain t a' where "mk (r_factory s) = (t, a')" by fastforce
      then show ?thesis
        using None held cell(4,5) made
        by (cases "r_recycled s = []") (auto simp: buffers_def rs_buffer_def)
    next
      case (Some f)
      then show ?thesis using held cell(4,5) by (simp add: buffers_def rs_buffer_def)
    qed
  qed
qed

lemma buffers_ok_invariant:
  assumes m: "counts_made mk m"
  shows "poll_invariant ops mk cx (buffers_ok m start n) (buffers_ok m start n)"
  unfolding poll_invariant_def
proof (intro conjI allI impI)
  fix s i remaining res remaining' s'
  assume a: "buffers_ok m start n s \<and> rs_inv s \<and> i < length (r_files s) \<and>
    rs_poll_file ops mk cx i remaining s = (res, remaining', s')"
  then have p: "rs_poll_file ops mk cx i remaining s = (res, remaining', s')" by blast
  have "length (r_frames s) \<le> p_capacity (r_permit s)" using a by (simp add: rs_inv_def)
  then have "r_recycled s' = [] \<Longrightarrow> buffers s' \<le> n"
    using a rs_poll_file_frame [OF p] frames_held_le [of "r_frames s'"]
    by (simp add: buffers_def buffers_ok_def)
  then show "if \<exists>e. res = Err e then buffers_ok m start n s' else buffers_ok m start n s'"
    using rs_poll_file_buffers [OF p m] a rs_poll_file_frame [OF p]
    by (auto simp: buffers_ok_def)
qed (auto simp: buffers_ok_def buffers_def rs_authorize_def Let_def)

section \<open>Along a run\<close>

lemma run_state_capacity:
  assumes "run_state n (s, caps)"
  shows "permit_inv (r_permit s) (r_budget s) caps" "p_capacity (r_permit s) \<le> n"
    "b_total (r_budget s) = n"
proof -
  have "budget_inv (fst (rs_pool (s, caps))) (snd (rs_pool (s, caps))) \<and>
      b_total (fst (rs_pool (s, caps))) = n"
    using assms by (intro pool_reachable_inv) (simp add: run_state_def)
  then show inv: "permit_inv (r_permit s) (r_budget s) caps"
    and "b_total (r_budget s) = n"
    using assms by (simp_all add: run_state_def permit_inv_def rs_pool_def)
  then show "p_capacity (r_permit s) \<le> n" using fg.cap_bound by metis
qed

definition buffers_bound ::
    "('a \<Rightarrow> nat) \<Rightarrow> nat \<Rightarrow> nat \<Rightarrow> ('t, 'f, 'e, 'a) reader \<Rightarrow> bool" where
  "buffers_bound m start n s \<longleftrightarrow>
     m (r_factory s) \<le> start + n \<and>
     (\<not> r_terminated s \<longrightarrow> m (r_factory s) = start + buffers s)"

lemma rs_poll_progress_buffers:
  assumes st: "run_state n (s, caps)" and b: "buffers_bound m start n s" and m: "counts_made mk m"
  shows "buffers_bound m start n (rs_poll_progress ops mk cx s)"
proof -
  let ?s' = "rs_poll_progress ops mk cx s"
  have inv: "rs_inv s" using st by (simp add: run_state_def)
  have drive: "buffers_ok m start n s'"
    if d: "rs_drive ops mk cx s = (res, s')" and t: "\<not> r_terminated s" "r_files s \<noteq> []"
    for res and s'
    using inv t(1)
  proof (cases rule: rs_drive_loop [of _ ops mk cx])
    case (1 s0)
    have s0: "rs_inv s0" "\<not> r_terminated s0" "r_files s0 \<noteq> []"
      using 1(2) inv t by (auto simp: rs_moves_def)
    have "run_state n (s0, caps)" by (rule run_state_safe [OF st rs_moves_safe [OF 1(2)]])
    then have "p_capacity (r_permit s0) \<le> n" by (rule run_state_capacity)
    then have "buffers_ok m start n s0"
      using b 1(7-9) t(1) by (auto simp: buffers_ok_def buffers_bound_def buffers_def)
    with rs_loop_invariant [OF _ buffers_ok_invariant [OF m] _ s0] d 1(1) show ?thesis by metis
  qed
  show ?thesis
    using refl [of ?s'] inv
  proof (cases rule: rs_poll_progress_cases)
    case terminated
    with b show ?thesis by simp
  next
    case empty
    with b show ?thesis
      by (auto simp: buffers_bound_def buffers_def rs_shrink_to_sel)
  next
    case driven
    from drive [OF driven(3,1,2)] show ?thesis
      by (simp add: buffers_ok_def buffers_bound_def)
  next
    case (failed e s1)
    from drive [OF failed(3,1,2)] have "m (r_factory s1) \<le> start + n"
      by (simp add: buffers_ok_def)
    then show ?thesis
      unfolding failed(5) by (simp add: buffers_bound_def rs_fail_def rs_shrink_to_sel)
  qed
qed

lemma rs_poll_read_buffers:
  assumes "rs_poll_read ops mk cx output s = (res, out, s')" "rs_inv s"
    and "buffers_bound m start n (rs_poll_progress ops mk cx s)"
  shows "buffers_bound m start n s'"
proof -
  let ?s1 = "rs_poll_progress ops mk cx s"
  have "rs_inv ?s1" using rs_poll_progress_safe [OF assms(2)] by (simp add: rs_safe_def)
  show ?thesis
  proof (cases "r_error ?s1 = None \<and> \<not> r_terminated ?s1 \<and> r_frames ?s1 \<noteq> [] \<and>
      c_complete (hd (r_frames ?s1))")
    case True
    then obtain cell cells where f: "r_frames ?s1 = cell # cells" "c_complete cell"
      by (cases "r_frames ?s1") auto
    then obtain frame where "c_frame cell = Some frame"
      using rs_emit [OF \<open>rs_inv ?s1\<close> f refl] by blast
    with True f assms(1,3) show ?thesis
      by (auto simp: rs_poll_read_def Let_def buffers_bound_def buffers_def rs_adjust_capacity_def
          rs_retire_def rs_shrink_to_sel split: prod.splits)
  next
    case False
    with assms(1,3) show ?thesis
      by (auto simp: rs_poll_read_def Let_def buffers_bound_def buffers_def
          split: option.splits if_splits list.splits)
  qed
qed

lemma rs_step_buffers:
  assumes "rs_step ops mk x ev y" "run_state n x" "buffers_bound m start n (fst x)"
    and "counts_made mk m"
  shows "buffers_bound m start n (fst y)"
  using assms
proof (induction rule: rs_step.induct)
  case (step_push f s res s' caps)
  then show ?case
    by (auto simp: rs_push_file_def Let_def buffers_bound_def buffers_def
        split: if_splits option.splits)
next
  case (step_window w s res s' caps)
  then show ?case
    by (auto simp: rs_set_window_def Let_def buffers_bound_def buffers_def rs_shrink_to_sel
        split: result.splits)
next
  case (step_progress s caps cx)
  then show ?case by (simp add: rs_poll_progress_buffers)
next
  case (step_read cx old s res out s' caps)
  then have "rs_inv s" by (simp add: run_state_def)
  with step_read show ?case
    by (simp add: rs_poll_read_buffers rs_poll_progress_buffers)
qed (auto simp: rs_close_files_def buffers_bound_def buffers_def)

lemma rs_run_buffers:
  assumes "rs_run ops mk n factory evs x" "counts_made mk m"
  shows "buffers_bound m (m factory) n (fst x)"
  using assms
proof (induction rule: rs_run.induct)
  case (run_new b caps config s)
  then show ?case
    by (auto simp: rs_new_def Let_def buffers_bound_def buffers_def
        split: result.splits if_splits prod.splits)
next
  case (run_step evs x ev y)
  show ?case
    by (rule rs_step_buffers [OF run_step(2) rs_run_state [OF run_step(1)] run_step(3)])
      (rule run_step)+
qed

end
