(* ===== verification/Read_Retries.thy ===== *)
theory Read_Retries
  imports Read_Buffers
begin

text \<open>
  Retries of openings: the retry counter of a file is exactly the number of its failed openings,
  so that no file is opened again after more than \<open>max_retries\<close> failures.
\<close>

definition counts_failed_opens :: "('t, 'f, 'e) read_file \<Rightarrow> ('f \<Rightarrow> nat) \<Rightarrow> bool" where
  "counts_failed_opens ops m \<longleftrightarrow>
     (\<forall>cx f. m (snd (rf_poll_open ops cx f)) =
        m f + (if \<exists>e. fst (rf_poll_open ops cx f) = Ready (Err e) then 1 else 0)) \<and>
     (\<forall>cx f t. m (fst (snd (rf_poll_read ops cx f t))) = m f)"

lemma counts_failed_opensD:
  "counts_failed_opens ops m \<Longrightarrow> rf_poll_open ops cx f = (res, f') \<Longrightarrow>
     m f' = m f + (if \<exists>e. res = Ready (Err e) then 1 else 0)"
  "counts_failed_opens ops m \<Longrightarrow> rf_poll_read ops cx f t = (res', f', t') \<Longrightarrow> m f' = m f"
  unfolding counts_failed_opens_def by (metis fst_conv snd_conv)+

definition retries_exact :: "('f \<Rightarrow> nat) \<Rightarrow> ('t, 'f, 'e, 'a) reader \<Rightarrow> bool" where
  "retries_exact m s \<longleftrightarrow> (\<forall>slot \<in> set (r_files s). m (s_file slot) = unat (s_retries slot))"

definition retries_spent :: "('f \<Rightarrow> nat) \<Rightarrow> ('t, 'f, 'e, 'a) reader \<Rightarrow> bool" where
  "retries_spent m s \<longleftrightarrow>
     (\<forall>slot \<in> set (r_files s). m (s_file slot) \<le> Suc (unat (max_retries (r_config s))))"

lemma retry_counts:
  assumes "r \<le> (k :: u32)" "r \<noteq> k"
  shows "unat (u32_saturating_inc r) = Suc (unat r)"
  using assms by (simp add: order_less_le)

lemma rs_poll_file_retries:
  fixes s :: "('t, 'f, 'e, 'a) reader"
  assumes p: "rs_poll_file ops mk cx i remaining s = (res, remaining', s')"
    and m: "counts_failed_opens ops m" and i: "i < length (r_files s)"
    and inv: "rs_inv s" and ex: "retries_exact m s"
  shows "if \<exists>e. res = Err e then retries_spent m s' else retries_exact m s'"
proof -
  let ?slot = "r_files s ! i" and ?max = "max_retries (r_config s)"
  have le: "s_retries ?slot \<le> ?max" by (rule rs_inv_retries [OF inv i])
  have eq: "m (s_file ?slot) = unat (s_retries ?slot)" using ex i by (simp add: retries_exact_def)
  note fr = rs_poll_file_frame [OF p]
  have here: "if \<exists>e. res = Err e then m (s_file (r_files s' ! i)) \<le> Suc (unat ?max)
      else m (s_file (r_files s' ! i)) = unat (s_retries (r_files s' ! i))"
  proof (cases "\<not> s_blocked ?slot \<and> s_state ?slot = ROpening")
    case True
    then have o: "rs_poll_opening ops cx i remaining s = (res, remaining', s')"
      using p i by (simp add: rs_poll_file_def)
    obtain r f where "rf_poll_open ops cx (s_file ?slot) = (r, f)" by fastforce
    with o eq i retry_counts [OF le] counts_failed_opensD(1) [OF m this] show ?thesis
      by (cases r) (auto simp: rs_poll_opening_def Let_def split: if_splits result.splits)
  next
    case False
    then have "m (s_file (r_files s' ! i)) = m (s_file ?slot) \<and>
        s_retries (r_files s' ! i) = s_retries ?slot"
      using p i
      by (auto simp: rs_poll_file_def rs_poll_reading_def Let_def
          dest: counts_failed_opensD(2) [OF m]
          split: if_splits read_state.splits poll.splits result.splits option.splits prod.splits)
    with eq le show ?thesis by (auto simp: word_le_nat_alt le_SucI)
  qed
  have other: "m (s_file (r_files s' ! j)) = unat (s_retries (r_files s' ! j)) \<and>
      m (s_file (r_files s' ! j)) \<le> Suc (unat ?max)" if "j < length (r_files s')" "j \<noteq> i" for j
  proof -
    have "m (s_file (r_files s ! j)) = unat (s_retries (r_files s ! j))"
      and "s_retries (r_files s ! j) \<le> ?max"
      using that fr ex rs_inv_retries [OF inv, of j] by (simp_all add: retries_exact_def)
    with that fr show ?thesis by (simp add: word_le_nat_alt le_SucI)
  qed
  show ?thesis
  proof (cases "\<exists>e. res = Err e")
    case True
    then have "m (s_file (r_files s' ! j)) \<le> Suc (unat ?max)" if "j < length (r_files s')" for j
      using here other [OF that] by (cases "j = i") auto
    with True fr show ?thesis by (auto simp: retries_spent_def in_set_conv_nth)
  next
    case False
    then have "m (s_file (r_files s' ! j)) = unat (s_retries (r_files s' ! j))"
      if "j < length (r_files s')" for j
      using here other [OF that] by (cases "j = i") auto
    with False show ?thesis by (auto simp: retries_exact_def in_set_conv_nth)
  qed
qed

lemma retries_invariant:
  assumes "counts_failed_opens ops m"
  shows "poll_invariant ops mk cx (retries_exact m) (retries_spent m)"
  unfolding poll_invariant_def
proof (intro conjI allI impI)
  fix s i remaining res remaining' s'
  assume "retries_exact m s \<and> rs_inv s \<and> i < length (r_files s) \<and>
    rs_poll_file ops mk cx i remaining s = (res, remaining', s')"
  then show "if \<exists>e. res = Err e then retries_spent m s' else retries_exact m s'"
    using rs_poll_file_retries [OF _ assms] by blast
qed (auto simp: retries_exact_def rs_authorize_def Let_def)

lemma rs_drive_retries:
  assumes d: "rs_drive ops mk cx s = (res, s')"
    and inv: "rs_inv s" "\<not> r_terminated s" "r_files s \<noteq> []"
    and m: "counts_failed_opens ops m" and ex: "retries_exact m s"
  shows "if \<exists>e. res = Err e then retries_spent m s' else retries_exact m s'"
  using inv(1,2)
proof (cases rule: rs_drive_loop [of _ ops mk cx])
  case (1 s0)
  have s0: "rs_inv s0" "\<not> r_terminated s0" "r_files s0 \<noteq> []"
    using 1(2) inv by (auto simp: rs_moves_def)
  have "retries_exact m s0"
    using ex by (simp add: 1(5) retries_exact_def)
  with rs_loop_invariant [OF _ retries_invariant [OF m] _ s0] d 1(1) show ?thesis by metis
qed

section \<open>Along a run\<close>

lemma retries_exact_subset:
  "retries_exact m s \<Longrightarrow> set (r_files s') \<subseteq> set (r_files s) \<Longrightarrow> retries_exact m s'"
  by (auto simp: retries_exact_def)

lemma rs_poll_progress_retries:
  assumes inv: "rs_inv s" and m: "counts_failed_opens ops m" and ex: "retries_exact m s"
  shows "retries_exact m (rs_poll_progress ops mk cx s)"
  using refl [of "rs_poll_progress ops mk cx s"] inv
proof (cases rule: rs_poll_progress_cases)
  case terminated
  with ex show ?thesis by simp
next
  case empty
  with ex show ?thesis by (auto simp: retries_exact_def rs_shrink_to_sel)
next
  case driven
  from rs_drive_retries [OF driven(3) inv driven(1,2) m ex] show ?thesis by simp
next
  case (failed e s1)
  show ?thesis unfolding failed(5) by (simp add: retries_exact_def rs_fail_sel)
qed

lemma rs_retire_files: "set (r_files (rs_retire s)) \<subseteq> set (r_files s)"
  by (auto simp: rs_retire_def split: prod.splits dest!: retire_files_set)

lemma rs_adjust_capacity_files: "r_files (rs_adjust_capacity s) = r_files s"
  by (simp add: rs_adjust_capacity_def Let_def rs_shrink_to_sel)

lemma rs_poll_read_files:
  assumes "rs_poll_read ops mk cx output s = (res, out, s')"
  shows "set (r_files s') \<subseteq> set (r_files (rs_poll_progress ops mk cx s))"
  using assms
  by (auto simp: rs_poll_read_def Let_def rs_adjust_capacity_files rs_fail_sel
      dest!: rs_retire_files [THEN subsetD]
      split: option.splits if_splits list.splits)

lemma rs_step_retries:
  assumes "rs_step ops mk x ev y" "rs_inv (fst x)" "counts_failed_opens ops m"
    and "retries_exact m (fst x)" "\<forall>f \<in> set (accepted_file ev). m f = 0"
  shows "retries_exact m (fst y)"
  using assms
proof (induction rule: rs_step.induct)
  case (step_push f s res s' caps)
  then show ?case
    by (auto simp: rs_push_file_def Let_def retries_exact_def split: if_splits option.splits)
next
  case (step_window w s res s' caps)
  then show ?case
    by (auto simp: rs_set_window_def Let_def retries_exact_def rs_shrink_to_sel
        split: result.splits)
next
  case (step_progress s caps cx)
  then show ?case by (simp add: rs_poll_progress_retries)
next
  case (step_read cx old s res out s' caps)
  then have "retries_exact m (rs_poll_progress ops mk cx s)"
    by (simp add: rs_poll_progress_retries)
  from retries_exact_subset [OF this rs_poll_read_files [OF step_read(1)]] show ?case by simp
qed (auto simp: rs_close_files_def retries_exact_def)

lemma rs_run_retries:
  assumes "rs_run ops mk n factory evs x" "counts_failed_opens ops m"
    and "\<forall>f \<in> set (pushed_files evs). m f = 0"
  shows "retries_exact m (fst x)"
  using assms
proof (induction rule: rs_run.induct)
  case (run_new b caps config s)
  then show ?case using rs_new_inv(9) by (fastforce simp: retries_exact_def)
next
  case (run_step evs x ev y)
  have "rs_inv (fst x)" using rs_run_state [OF run_step(1)] by (simp add: run_state_def)
  with run_step show ?case by (intro rs_step_retries [OF run_step(2)]) auto
qed

end
