(* ===== verification/Memory_Source.thy ===== *)
theory Memory_Source
  imports Carbon_Traits
begin

text \<open>
  \<open>examples/memory/src/main.rs\<close>: \<open>Source\<close>, the in-memory read file of the example program. It yields
  the values of a range of \<open>u32\<close>, each on the second poll: the first wakes the caller's task and is
  pending. \<open>src_woken\<close> logs the wakers it has woken. The source keeps the contract of \<open>ReadFile\<close>,
  directly and behind \<open>Pin<Box<_>>\<close>.
\<close>

record source =
  src_next :: u32
  src_end :: u32
  src_count :: u32
  src_waiting :: bool
  src_woken :: "waker list"

definition source_new :: "u32 \<Rightarrow> u32 \<Rightarrow> source" where
  "source_new start end =
     \<lparr>src_next = start, src_end = end, src_count = (if start \<le> end then end - start else 0),
      src_waiting = True, src_woken = []\<rparr>"

definition source_frame_count :: "source \<Rightarrow> u32" where
  "source_frame_count f = src_count f"

definition source_poll_open :: "waker \<Rightarrow> source \<Rightarrow> (unit, 'e) result poll \<times> source" where
  "source_poll_open cx f = (Ready (Ok ()), f)"

definition source_poll_read ::
    "waker \<Rightarrow> source \<Rightarrow> u32 \<Rightarrow> (unit option, 'e) result poll \<times> source \<times> u32" where
  "source_poll_read cx f frame =
     (if src_waiting f
      then (Pending, f\<lparr>src_waiting := False, src_woken := src_woken f @ [cx]\<rparr>, frame)
      else if src_next f < src_end f
        then (Ready (Ok (Some ())), f\<lparr>src_waiting := True, src_next := src_next f + 1\<rparr>, src_next f)
        else (Ready (Ok None), f\<lparr>src_waiting := True\<rparr>, frame))"

definition source_ops :: "(u32, source, 'e) read_file" where
  "source_ops = \<lparr>rf_frame_count = source_frame_count, rf_poll_open = source_poll_open,
     rf_poll_read = source_poll_read\<rparr>"

lemmas source_defs = source_ops_def source_frame_count_def source_poll_open_def source_poll_read_def

text \<open>The values still to come.\<close>

definition source_content :: "source \<Rightarrow> u32 list" where
  "source_content f = map of_nat [unat (src_next f) ..< unat (src_end f)]"

lemma source_content_next:
  assumes "src_next f < src_end f"
  shows "source_content f = src_next f # source_content (f\<lparr>src_next := src_next f + 1\<rparr>)"
proof -
  have "unat (src_next f) < unat (src_end f)" using assms by (simp add: word_less_nat_alt)
  then show ?thesis
    by (simp add: source_content_def u32_less_Suc [OF assms] upt_conv_Cons)
qed

lemma source_content_end: "\<not> src_next f < src_end f \<Longrightarrow> source_content f = []"
  by (simp add: source_content_def word_less_nat_alt)

lemma source_content_frame [simp]:
  "source_content (f\<lparr>src_waiting := w\<rparr>) = source_content f"
  "source_content (f\<lparr>src_woken := ws\<rparr>) = source_content f"
  "source_content (f\<lparr>src_waiting := w, src_woken := ws\<rparr>) = source_content f"
  "source_content (f\<lparr>src_waiting := w, src_next := n\<rparr>) = source_content (f\<lparr>src_next := n\<rparr>)"
  by (simp_all add: source_content_def)

text \<open>A source works a frame out in one poll: every state fits every phase.\<close>

definition source_fits :: "source \<Rightarrow> u32 reading \<Rightarrow> bool" where
  "source_fits f a = True"

interpretation source: read_backend source_ops source_fits source_content
  by unfold_locales
    (auto simp: source_defs source_fits_def source_content_next source_content_end split: if_splits)

text \<open>The source behind \<open>Pin<Box<Source>>\<close>.\<close>

datatype 'f pin_box = PinBox (pin_target: 'f)

definition pin_store :: "'f pin_box \<Rightarrow> 'f \<Rightarrow> 'f pin_box" where
  "pin_store p f = PinBox f"

interpretation boxed: pinned_read source_ops source_fits source_content pin_target pin_store
  by unfold_locales (simp add: pin_law_def pin_store_def)

lemma source_contract: "read_file_contract source_ops source_fits source_content"
  using source.read_backend_axioms by (simp add: read_backend_iff)

lemma source_count_exact:
  "length (source_content (source_new a b)) = unat (source_frame_count (source_new a b))"
  by (auto simp: source_content_def source_new_def source_frame_count_def unat_sub
      word_le_nat_alt)

end
