(* ===== verification/Read_Properties.thy ===== *)
theory Read_Properties
  imports Read_Retries Memory_Source
begin

text \<open>
  The properties of the read scheduler, each with a witness on a run of the sources of the memory
  example.
\<close>

section \<open>An example run\<close>

type_synonym example_reader = "(u32, source, unit, nat) reader"

definition example_factory :: "nat \<Rightarrow> u32 \<times> nat" where
  "example_factory made = (0, Suc made)"

definition example_ops :: "(u32, source, unit) read_file" where
  "example_ops = source_ops"

text \<open>Three frames from two files on a budget of four, read to the end.\<close>

definition example_commands :: "(u32, source) read_command list" where
  "example_commands =
     [DoPush (source_new 0 2), DoPush (source_new 7 8), DoClose, DoRead 1 100, DoRead 1 101,
      DoRead 1 102, DoRead 1 103, DoRead 1 104]"

definition example_start :: example_reader where
  "example_start = rs_start 0 4 config_default"

definition example_run :: "(u32, source, unit) read_event list \<times> example_reader" where
  "example_run = rs_exec example_ops example_factory example_start example_commands"

lemma example_exec:
  "rs_run example_ops example_factory 4 0 (fst (rs_exec example_ops example_factory example_start cs))
     (snd (rs_exec example_ops example_factory example_start cs), \<lambda>_. 0)"
proof (rule rs_exec_start [of 4 config_default])
  show "valid_window (window config_default)" by (simp add: config_default_def)
qed (simp_all add: example_start_def)

lemmas example_run_reachable = example_exec [of example_commands, folded example_run_def]

lemma example_contract: "read_file_contract example_ops source_fits source_content"
  by (simp add: example_ops_def source_contract)

lemma example_events:
  "fst example_run =
     [PushFile (source_new 0 2) (Ok ()), PushFile (source_new 7 8) (Ok ()), CloseFiles,
      PollRead 1 100 Pending 100, PollRead 1 101 (Ready (Ok (Some ()))) 0,
      PollRead 1 102 (Ready (Ok (Some ()))) 1, PollRead 1 103 (Ready (Ok (Some ()))) 7] @
     [PollRead 1 104 (Ready (Ok None)) 104]"
  by code_simp

lemmas example_reading = output_frames_def reported_errors_def pushed_files_def
  declared_frames_def declared_count_def

text \<open>A source that declares three frames and holds one.\<close>

definition short_source :: source where
  "short_source = \<lparr>src_next = 5, src_end = 6, src_count = 3, src_waiting = False, src_woken = []\<rparr>"

definition short_run :: "(u32, source, unit) read_event list \<times> example_reader" where
  "short_run = rs_exec example_ops example_factory example_start
     [DoPush short_source, DoRead 1 100, DoRead 1 101]"

lemmas short_run_reachable =
  example_exec [of "[DoPush short_source, DoRead 1 100, DoRead 1 101]", folded short_run_def]

lemma short_events:
  "fst short_run =
     [PushFile short_source (Ok ()), PollRead 1 100 (Ready (Ok (Some ()))) 5] @
     [PollRead 1 101 (Ready (Err (Contract UnexpectedEof))) 101]"
  by code_simp

section \<open>Output\<close>

text \<open>
  C3: the output is the declared frames in order. Along any run of a reader whose files keep their
  contract and are handed over unopened, with any interleaving
  of admissions, window changes, polls and steps of the other users of the budget, and whatever
  the order in which the files complete their reads, the frames delivered so far are a prefix of
  the declared frames of the accepted files, in admission order; unless the reader failed, what is
  missing is exactly what it still owes.
\<close>
theorem read_in_order:
  assumes "rs_run ops mk n factory evs (s, caps)" and "read_file_contract ops fits content"
    and "\<forall>file \<in> set (pushed_files evs). fits file Fresh"
  shows "\<exists>rest. declared_frames ops content evs = output_frames evs @ rest \<and>
    (reported_errors evs = [] \<and> r_error s = None \<longrightarrow> rest = rs_pend content s)"
  using rs_run_order [OF assms] by (auto simp: run_order_def run_failed_def)

theorem read_in_order_witness:
  "(\<exists>rest. declared_frames example_ops source_content (fst example_run) =
     output_frames (fst example_run) @ rest) \<and> output_frames (fst example_run) = [0, 1, 7]"
  using read_in_order [OF example_run_reachable example_contract]
  by (auto simp: example_events example_reading source_fits_def)

lemma run_eof:
  assumes "rs_run ops mk n factory (evs @ [PollRead cx old (Ready (Ok None)) new]) x"
    and "reported_errors evs = []"
  shows "CloseFiles \<in> set evs \<and> length (output_frames evs) = declared_count ops evs \<and>
    (read_file_contract ops fits content \<and> (\<forall>file \<in> set (pushed_files evs). fits file Fresh) \<longrightarrow>
      output_frames evs = declared_frames ops content evs) \<and>
    new = old"
proof -
  let ?ev = "PollRead cx old (Ready (Ok None)) new :: ('a, 'b, 'c) read_event"
  obtain y where y: "rs_run ops mk n factory evs y" "rs_step ops mk y ?ev x"
    using assms(1) by (auto elim: rs_run.cases)
  obtain s caps s' where p: "rs_poll_read ops mk cx old s = (Ready (Ok None), new, s')"
    "y = (s, caps)" "x = (s', caps)"
    using y(2) by (auto elim: rs_step.cases)
  have inv: "rs_inv s" "rs_inv s'"
    using rs_run_state [OF y(1)] rs_run_state [OF assms(1)] p by (simp_all add: run_state_def)
  have st: "run_status ops (evs @ [?ev]) s'" using rs_run_status [OF assms(1)] p(3) by simp
  from p(1) inv(1) have e: "r_error s' = None" "r_terminated s'" "new = old"
    by (cases rule: rs_poll_read_cases; simp)+
  then have nf: "\<not> run_failed (evs @ [?ev]) s'" using assms(2) by (simp add: run_failed_def)
  have files: "r_files s' = []" using inv(2) e(2) by (simp add: rs_inv_def)
  have "output_frames evs = declared_frames ops content evs"
    if "read_file_contract ops fits content" "\<forall>file \<in> set (pushed_files evs). fits file Fresh"
    using rs_run_order [OF assms(1) that(1)] that(2) nf files p(3) rs_inv_no_files(2) [OF inv(2) files]
    by (simp add: run_order_def)
  then show ?thesis
    using st nf e files by (auto simp: run_status_def)
qed

text \<open>
  C11: end of file means that everything was delivered. When \<open>poll_read\<close> reports end of file and no
  error was reported before, then admission was closed, exactly as many frames came out as the
  accepted files declared, they are the declared frames if the files keep their contract and were handed
  over unopened, and the
  caller's buffer is unchanged.
\<close>
theorem read_eof_complete:
  assumes "rs_run ops mk n factory (evs @ [PollRead cx old (Ready (Ok None)) new]) x"
    and "reported_errors evs = []"
  shows "CloseFiles \<in> set evs \<and> length (output_frames evs) = declared_count ops evs \<and>
    (read_file_contract ops fits content \<and> (\<forall>file \<in> set (pushed_files evs). fits file Fresh) \<longrightarrow>
      output_frames evs = declared_frames ops content evs) \<and>
    new = old"
  using run_eof [OF assms] .

theorem read_eof_complete_witness:
  "CloseFiles \<in> set (butlast (fst example_run)) \<and>
   output_frames (butlast (fst example_run)) =
     declared_frames example_ops source_content (butlast (fst example_run)) \<and>
   length (output_frames (butlast (fst example_run))) =
     declared_count example_ops (butlast (fst example_run))"
proof -
  have "reported_errors (butlast (fst example_run)) = []"
    by (simp add: example_events reported_errors_def)
  moreover have "fst example_run = butlast (fst example_run) @ [PollRead 1 104 (Ready (Ok None)) 104]"
    by (simp add: example_events)
  then have "rs_run example_ops example_factory 4 0
      (butlast (fst example_run) @ [PollRead 1 104 (Ready (Ok None)) 104])
      (snd example_run, \<lambda>_. 0)"
    using example_run_reachable by simp
  ultimately show ?thesis
    using read_eof_complete [of example_ops example_factory 4 0 "butlast (fst example_run)" 1 104 104
        "(snd example_run, \<lambda>_. 0)" source_fits source_content] example_contract
    by (auto simp: source_fits_def)
qed

text \<open>
  C18: a failure is reported once and ends everything. A run reports at most one error; from then
  on the reader holds no files, no frames and no capacity, and every further read reports end of
  file without changing anything.
\<close>
theorem read_error_once:
  assumes "rs_run ops mk n factory evs (s, caps)"
  shows "length (reported_errors evs) \<le> 1 \<and>
    (reported_errors evs \<noteq> [] \<longrightarrow> rs_is_terminated s \<and> r_files s = [] \<and> r_frames s = [] \<and>
       rs_granted_frames s = 0 \<and>
       (\<forall>cx old. rs_poll_read ops mk cx old s = (Ready (Ok None), old, s)))"
proof (cases "reported_errors evs = []")
  case False
  have st: "r_terminated s" "r_error s = None" "length (reported_errors evs) = 1"
    "p_capacity (r_permit s) = 0"
    using rs_run_status [OF assms] False by (simp_all add: run_status_def)
  have inv: "rs_inv s" using rs_run_state [OF assms] by (simp add: run_state_def)
  then have "r_files s = []" using st(1) by (simp add: rs_inv_def)
  with inv st show ?thesis
    by (simp add: rs_is_terminated_def rs_granted_frames_def capacity_def rs_inv_no_files
        rs_poll_read_def rs_poll_progress_def)
qed simp

theorem read_error_once_witness:
  "reported_errors (fst short_run) = [Contract UnexpectedEof] \<and>
   rs_poll_read example_ops example_factory 1 9 (snd short_run) = (Ready (Ok None), 9, snd short_run)"
  using read_error_once [OF short_run_reachable] by (simp add: short_events example_reading)

text \<open>
  C28: a reader only ever fails because a file did, with the error of that file or by ending before
  its declared frames: the scheduler's own checks of positions and budget requests never fire.
\<close>
theorem read_errors_from_files:
  assumes "rs_run ops mk n factory evs (s, caps)"
    and "e \<in> set (reported_errors evs) \<or> r_error s = Some e"
  shows "(\<exists>b. e = Backend b) \<or> e = Contract UnexpectedEof"
  using rs_run_status [OF assms(1)] assms(2) by (auto simp: run_status_def reportable_def)

theorem read_errors_from_files_witness:
  "\<exists>e. reported_errors (fst short_run) = [e] \<and>
     ((\<exists>b. e = Backend b) \<or> e = Contract UnexpectedEof)"
  using read_errors_from_files [OF short_run_reachable, of "Contract UnexpectedEof"]
  by (simp add: short_events reported_errors_def)

section \<open>Capacity\<close>

text \<open>
  C20: a reader stays within its grant and the grant within the shared budget. In every state of
  a run, whatever the files and the other users of the budget do, the buffered frames are at most
  the granted frames, these at most the total, and the budget still accounts for every frame once.
\<close>
theorem read_within_budget:
  assumes "rs_run ops mk n factory evs (s, caps)"
  shows "rs_used s \<le> rs_granted_frames s \<and> rs_granted_frames s \<le> n \<and>
    total_capacity (r_budget s) = n \<and> valid_window (rs_window s) \<and>
    budget_inv (r_budget s) (caps(p_request (r_permit s) := rs_granted_frames s))"
proof -
  have st: "run_state n (s, caps)" by (rule rs_run_state [OF assms])
  then have "rs_inv s" by (simp add: run_state_def)
  with run_state_capacity [OF st] show ?thesis
    by (simp add: rs_inv_def rs_used_def rs_granted_frames_def capacity_def total_capacity_def
        rs_window_def permit_inv_def)
qed

theorem read_within_budget_witness:
  "rs_used (snd example_run) \<le> rs_granted_frames (snd example_run) \<and>
   rs_granted_frames (snd example_run) \<le> 4"
  using read_within_budget [OF example_run_reachable] by blast

text \<open>
  C29: a reader makes at most as many buffers as the shared budget has frames, however many frames
  it delivers: \<open>m\<close> counts the calls of the factory. While it runs, each buffer made is still there,
  in a cell or recycled, since delivery exchanges buffers one for one.
\<close>
theorem read_factory_bound:
  assumes "rs_run ops mk n factory evs (s, caps)" and "counts_made mk m"
  shows "m (r_factory s) \<le> m factory + n \<and>
    (\<not> r_terminated s \<longrightarrow> m (r_factory s) = m factory + buffers s)"
  using rs_run_buffers [OF assms] by (simp add: buffers_bound_def)

theorem read_factory_bound_witness: "r_factory (snd example_run) \<le> 0 + 4"
  using read_factory_bound [OF example_run_reachable, of "\<lambda>made. made"]
  by (simp add: counts_made_def example_factory_def)

section \<open>Progress\<close>

text \<open>
  C13: no lost wakeups. If \<open>poll_read\<close> is pending on a nonempty input and every pending file
  operation registers the caller's waker, then the task will be woken: it has been woken already,
  or the file at the head of the stream has registered its waker, or the reader has no capacity
  and its request waits in the budget's queue with that waker.
\<close>
theorem read_pending_wakes:
  assumes run: "rs_run ops mk n factory evs (s, caps)" and reg: "read_registers ops reg"
    and p: "rs_poll_read ops mk cx old s = (Pending, out, s')" and files: "r_files s \<noteq> []"
  shows "out = old \<and>
    (r_wakes s' = r_wakes s @ [cx] \<or>
     r_files s' \<noteq> [] \<and> reg cx (s_file (hd (r_files s'))) \<or>
     rs_granted_frames s' = 0 \<and>
       req_waiting (b_requests (r_budget s') (p_request (r_permit s'))) \<and>
       req_waker (b_requests (r_budget s') (p_request (r_permit s'))) = Some cx)"
proof -
  have st: "run_state n (s, caps)" by (rule rs_run_state [OF run])
  then have "rs_inv s" by (simp add: run_state_def)
  moreover have "0 < b_total (r_budget s)"
    using run_state_capacity(3) [OF st] rs_run_positive [OF run] by simp
  ultimately show ?thesis using rs_poll_read_pending [OF p _ files reg] by blast
qed

text \<open>The reader of the example after its first poll: both files are pending.\<close>

definition example_pending :: "(u32, source, unit) read_event list \<times> example_reader" where
  "example_pending = rs_exec example_ops example_factory example_start
     [DoPush (source_new 0 2), DoPush (source_new 7 8)]"

lemmas example_pending_reachable =
  example_exec [of "[DoPush (source_new 0 2), DoPush (source_new 7 8)]",
    folded example_pending_def]

lemma example_pending_poll:
  "fst (rs_poll_read example_ops example_factory 1 100 (snd example_pending)) = Pending \<and>
   map s_file (r_files (snd example_pending)) = [source_new 0 2, source_new 7 8] \<and>
   \<not> r_terminated (snd example_pending)"
  by code_simp

lemma source_registers: "read_registers source_ops (\<lambda>cx f. cx \<in> set (src_woken f))"
  by (auto simp: read_registers_def source_defs split: if_splits)

theorem read_pending_wakes_witness:
  "\<exists>out s'. rs_poll_read example_ops example_factory 1 100 (snd example_pending) =
       (Pending, out, s') \<and> out = 100 \<and>
     (r_wakes s' = r_wakes (snd example_pending) @ [1] \<or>
      r_files s' \<noteq> [] \<and> 1 \<in> set (src_woken (s_file (hd (r_files s')))) \<or>
      rs_granted_frames s' = 0 \<and>
        req_waiting (b_requests (r_budget s') (p_request (r_permit s'))) \<and>
        req_waker (b_requests (r_budget s') (p_request (r_permit s'))) = Some 1)"
proof -
  obtain out s' where p: "rs_poll_read example_ops example_factory 1 100 (snd example_pending) =
      (Pending, out, s')"
    using example_pending_poll by (metis prod.collapse)
  have "r_files (snd example_pending) \<noteq> []" using example_pending_poll by auto
  from read_pending_wakes [OF example_pending_reachable _ p this] p
  show ?thesis using source_registers unfolding example_ops_def by blast
qed

text \<open>
  C24: the end of a drive. Unless the drive used up its operations and woke the task, every file
  is settled: it has received all its frames, or its pending operation registered the waker in
  this drive, or it waits for a buffer cell while the buffer has as many cells as the grant and
  the window target allow. The buffer is as large as the grant, the target and the declared input
  allow in any case.
\<close>
theorem read_drive_settles:
  assumes "rs_run ops mk n factory evs (s, caps)" and reg: "read_registers ops reg"
    and d: "rs_drive ops mk cx s = (Ok (), s')" and s: "\<not> r_terminated s" "r_files s \<noteq> []"
  shows "(min (rs_granted_frames s') (target_frames (rs_window s')) \<le> rs_used s' \<or>
      unat (r_discovered s' - r_emitted s') \<le> rs_used s') \<and>
    (r_wakes s' = r_wakes s @ [cx] \<or>
      r_wakes s' = r_wakes s \<and> (\<forall>slot \<in> set (r_files s'). s_received slot = s_count slot \<or>
        reg cx (s_file slot) \<or> slot_waits s' slot))"
proof -
  have "rs_inv s" using rs_run_state [OF assms(1)] by (simp add: run_state_def)
  from conjunct1 [OF rs_drive_quiet [OF d this s reg]] show ?thesis
    by (auto simp: rs_quiet_def rs_full_def slot_settled_def blocked_ok_def rs_granted_frames_def
        capacity_def rs_window_def rs_used_def)
qed

lemma example_pending_drive:
  "fst (rs_drive example_ops example_factory 1 (snd example_pending)) = Ok ()"
  by code_simp

theorem read_drive_settles_witness:
  "\<exists>s'. rs_drive example_ops example_factory 1 (snd example_pending) = (Ok (), s') \<and>
     (r_wakes s' = r_wakes (snd example_pending) @ [1] \<or>
      list_all (\<lambda>slot. s_received slot = s_count slot \<or>
        1 \<in> set (src_woken (s_file slot)) \<or> slot_waits s' slot) (r_files s'))"
proof -
  obtain s' where d: "rs_drive example_ops example_factory 1 (snd example_pending) = (Ok (), s')"
    using example_pending_drive by (metis prod.collapse)
  have "r_files (snd example_pending) \<noteq> []" "\<not> r_terminated (snd example_pending)"
    using example_pending_poll by auto
  from read_drive_settles [OF example_pending_reachable _ d this(2,1)] d
  show ?thesis using source_registers unfolding example_ops_def list_all_iff by blast
qed

text \<open>
  C30: a drive makes at most \<open>max(256, files)\<close> backend polls: for any measure \<open>m\<close> of the files that
  a poll increases by at most one, the total over the files grows by no more, failed or not.
\<close>
theorem read_polls_bounded:
  assumes "rs_run ops mk n factory evs (s, caps)" and "counts_polls ops m"
    and "rs_drive ops mk cx s = (res, s')" and "\<not> r_terminated s" "r_files s \<noteq> []"
  shows "polls_of m s' \<le> polls_of m s + max 256 (length (r_files s))"
proof -
  have "rs_inv s" using rs_run_state [OF assms(1)] by (simp add: run_state_def)
  from rs_drive_polls [OF assms(3) this assms(4,5,2)] show ?thesis
    by (simp add: max_poll_ops_def)
qed

text \<open>What a source counts: the wakers it was given, one for each pending poll.\<close>

definition source_pending :: "source \<Rightarrow> nat" where
  "source_pending f = length (src_woken f)"

lemma source_counts:
  "counts_polls source_ops source_pending" "counts_pending source_ops source_pending"
  by (auto simp: counts_polls_def counts_pending_def source_defs source_pending_def)

theorem read_polls_bounded_witness:
  "polls_of source_pending (snd (rs_drive example_ops example_factory 1 (snd example_pending)))
     \<le> polls_of source_pending (snd example_pending) + 256"
proof -
  have f: "length (r_files (snd example_pending)) = 2" "\<not> r_terminated (snd example_pending)"
    using example_pending_poll by (auto dest: arg_cong [of _ _ length])
  from f(1) have "r_files (snd example_pending) \<noteq> []" by auto
  from read_polls_bounded [OF example_pending_reachable _ prod.collapse [symmetric] f(2) this,
      of source_pending 1] f(1) source_counts
  show ?thesis by (simp add: example_ops_def)
qed

text \<open>
  C32: in one drive each file is pending at most once: \<open>m\<close> counts the pending polls of a file.
\<close>
theorem read_pending_once:
  assumes "rs_run ops mk n factory evs (s, caps)" and "counts_pending ops m"
    and "rs_drive ops mk cx s = (res, s')" and "\<not> r_terminated s" and "i < length (r_files s)"
  shows "length (r_files s') = length (r_files s) \<and>
    m (s_file (r_files s' ! i)) \<le> m (s_file (r_files s ! i)) + 1"
proof -
  have "rs_inv s" using rs_run_state [OF assms(1)] by (simp add: run_state_def)
  moreover have "r_files s \<noteq> []" using assms(5) by auto
  ultimately show ?thesis
    using rs_drive_pending [OF assms(3) _ assms(4) _ assms(2,5)] by blast
qed

theorem read_pending_once_witness:
  "source_pending (s_file (r_files
     (snd (rs_drive example_ops example_factory 1 (snd example_pending))) ! 0)) \<le>
   source_pending (s_file (r_files (snd example_pending) ! 0)) + 1"
proof -
  have f: "0 < length (r_files (snd example_pending))" "\<not> r_terminated (snd example_pending)"
    using example_pending_poll by (auto dest: arg_cong [of _ _ length])
  from read_pending_once [OF example_pending_reachable _ prod.collapse [symmetric] f(2,1),
      of source_pending 1]
  show ?thesis by (simp add: example_ops_def source_counts)
qed

section \<open>Admission, retries, configuration\<close>

text \<open>
  C37: \<open>push_file\<close> on every branch. It accepts a file exactly when admission is open, the active
  files and the discovered frames are below their limits, and the file declares frames that still
  fit the positions; then the declared frames of the file are owed after everything that was owed
  before. Otherwise it returns the file with the documented error and changes nothing.
\<close>
theorem read_push_contract:
  assumes "rs_run ops mk n factory evs (s, caps)" and p: "rs_push_file ops f s = (res, s')"
  defines "ahead \<equiv> unat (r_discovered s - r_emitted s)"
  shows "(if r_closed s \<or> r_terminated s then res = Err (PushClosed, f) \<and> s' = s
    else if max_active_files (rs_window s) \<le> length (r_files s) \<or> horizon (rs_window s) \<le> ahead
      then res = Err (Full, f) \<and> s' = s
    else if rf_frame_count ops f = 0 then res = Err (PushContract ZeroFrameCount, f) \<and> s' = s
    else if 2 ^ 64 \<le> ahead + unat (rf_frame_count ops f)
      then res = Err (PushContract InvalidFramePosition, f) \<and> s' = s
    else res = Ok () \<and> rs_pend content s' =
        rs_pend content s @ take (unat (rf_frame_count ops f)) (content f) \<and>
      unat (r_discovered s' - r_emitted s') = ahead + unat (rf_frame_count ops f) \<and>
      length (r_files s') = Suc (length (r_files s)) \<and> r_permit s' = r_permit s)"
proof -
  have inv: "rs_inv s" using rs_run_state [OF assms(1)] by (simp add: run_state_def)
  note def = p [unfolded rs_push_file_def Let_def usize_checked_add_def]
  from p inv show ?thesis
  proof (cases rule: rs_push_file_cases)
    case (refused e)
    then show ?thesis
      using def by (auto simp: ahead_def rs_window_def not_less split: if_splits)
  next
    case accepted
    have s': "rs_inv s'" using accepted(2) by (simp add: rs_safe_def)
    have "unat (r_discovered s' - r_emitted s') = ahead + unat (rf_frame_count ops f)"
      using rs_inv_distance [OF s' accepted(10)] rs_inv_distance [OF inv accepted(3)] accepted(8)
      by (simp add: ahead_def)
    then show ?thesis
      using accepted(1,6) def
      by (auto simp: ahead_def rs_window_def not_le split: if_splits)
  qed
qed

lemma example_pending_admission:
  "\<not> r_closed (snd example_pending) \<and> rs_window (snd example_pending) = window_default \<and>
   unat (r_discovered (snd example_pending) - r_emitted (snd example_pending)) = 3 \<and>
   rf_frame_count example_ops (source_new 3 3) = 0 \<and>
   rf_frame_count example_ops (source_new 3 4) = 1"
  by code_simp

theorem read_push_contract_witness:
  "fst (rs_push_file example_ops (source_new 3 3) (snd example_pending))
     = Err (PushContract ZeroFrameCount, source_new 3 3) \<and>
   fst (rs_push_file example_ops (source_new 3 4) (snd example_pending)) = Ok ()"
proof -
  have f: "length (r_files (snd example_pending)) = 2" "\<not> r_terminated (snd example_pending)"
    using example_pending_poll by (auto dest: arg_cong [of _ _ length])
  note push = read_push_contract [OF example_pending_reachable prod.collapse [symmetric]]
  show ?thesis
    using push [of "source_new 3 3"] push [of "source_new 3 4"] f example_pending_admission
    by (simp add: window_default_def horizon_def)
qed

text \<open>
  C26: retries of openings are counted exactly. When \<open>m\<close> counts the failed openings of a file and
  starts at zero, the retry counter of each active file is \<open>m\<close>, never above \<open>max_retries\<close>; a drive
  that fails leaves no file with more than \<open>max_retries + 1\<close> failed openings.
\<close>
theorem read_retries_counted:
  assumes "rs_run ops mk n factory evs (s, caps)" and "counts_failed_opens ops m"
    and "\<forall>f \<in> set (pushed_files evs). m f = 0"
  shows "(\<forall>slot \<in> set (r_files s).
      m (s_file slot) = unat (s_retries slot) \<and> s_retries slot \<le> max_retries (r_config s)) \<and>
    (\<not> r_terminated s \<and> r_files s \<noteq> [] \<and> rs_drive ops mk cx s = (Err e, s') \<longrightarrow>
      (\<forall>slot \<in> set (r_files s'). m (s_file slot) \<le> unat (max_retries (r_config s)) + 1))"
proof -
  have inv: "rs_inv s" using rs_run_state [OF assms(1)] by (simp add: run_state_def)
  have ex: "retries_exact m s" using rs_run_retries [OF assms] by simp
  have "retries_spent m s' \<and> r_config s' = r_config s"
    if "\<not> r_terminated s" "r_files s \<noteq> []" "rs_drive ops mk cx s = (Err e, s')"
    using rs_drive_retries [OF that(3) inv that(1,2) assms(2) ex]
      rs_drive_moves [OF that(3) inv that(1,2), of "\<lambda>_ _. True" "\<lambda>_. []"]
    by (simp add: rs_moves_def)
  with inv ex show ?thesis
    by (auto simp: retries_exact_def retries_spent_def rs_inv_def)
qed

text \<open>Files that count and fail their openings, on a reader that retries twice.\<close>

definition failing_ops :: "(u32, nat, unit) read_file" where
  "failing_ops = \<lparr>rf_frame_count = (\<lambda>_. 1),
     rf_poll_open = (\<lambda>cx f. (Ready (Err ()), Suc f)),
     rf_poll_read = (\<lambda>cx f t. (Pending, f, t))\<rparr>"

definition failing_run :: "(u32, nat, unit) read_event list \<times> (u32, nat, unit, nat) reader" where
  "failing_run = rs_exec failing_ops example_factory
     (rs_start 0 4 (config_new window_default 2)) [DoPush 0]"

lemma failing_run_reachable:
  "rs_run failing_ops example_factory 4 0 (fst failing_run) (snd failing_run, \<lambda>_. 0)"
  unfolding failing_run_def
proof (rule rs_exec_start [of 4 "config_new window_default 2"])
  show "valid_window (window (config_new window_default 2))" by (simp add: config_new_def)
qed (simp, rule prod.collapse [symmetric])

lemma failing_run_facts:
  "pushed_files (fst failing_run) = [0] \<and> \<not> r_terminated (snd failing_run) \<and>
   map s_file (r_files (snd failing_run)) = [0] \<and> max_retries (r_config (snd failing_run)) = 2 \<and>
   fst (rs_drive failing_ops example_factory 1 (snd failing_run)) = Err (Backend ()) \<and>
   map s_file (r_files (snd (rs_drive failing_ops example_factory 1 (snd failing_run)))) = [3]"
  by code_simp

theorem read_retries_counted_witness:
  "\<exists>s'. rs_drive failing_ops example_factory 1 (snd failing_run) = (Err (Backend ()), s') \<and>
     map s_file (r_files s') = [3] \<and> list_all (\<lambda>slot. s_file slot \<le> 2 + 1) (r_files s')"
proof -
  have "counts_failed_opens failing_ops (\<lambda>f. f)"
    by (simp add: counts_failed_opens_def failing_ops_def)
  note r = read_retries_counted [OF failing_run_reachable this, of 1 "Backend ()"
      "snd (rs_drive failing_ops example_factory 1 (snd failing_run))"]
  show ?thesis
    using r failing_run_facts
    by (intro exI [of _ "snd (rs_drive failing_ops example_factory 1 (snd failing_run))"])
      (auto simp: prod_eq_iff list_all_iff)
qed

text \<open>
  C39: \<open>set_window\<close> refuses an invalid window without effect; a valid one is installed, keeps
  everything that is owed, and returns the capacity above the new target that no frame uses.
\<close>
theorem read_set_window_contract:
  assumes "rs_run ops mk n factory evs (s, caps)" and "rs_set_window w s = (res, s')"
  shows "(\<not> valid_window w \<and> res = Err InvalidWindow \<and> s' = s) \<or>
    (valid_window w \<and> res = Ok () \<and> rs_window s' = w \<and> rs_pend content s' = rs_pend content s \<and>
     rs_used s' = rs_used s \<and>
     rs_granted_frames s' = min (rs_granted_frames s) (max (target_frames w) (rs_used s)))"
proof -
  have inv: "rs_inv s" using rs_run_state [OF assms(1)] by (simp add: run_state_def)
  from assms(2) inv show ?thesis
  proof (cases rule: rs_set_window_cases)
    case accepted
    have "s' = rs_shrink_to (min (rs_granted_frames s) (max (target_frames w) (rs_used s)))
        (s\<lparr>r_config := (r_config s)\<lparr>window := w\<rparr>\<rparr>)"
      using assms(2) accepted(1)
      by (simp add: rs_set_window_def window_validate_cases Let_def rs_used_def
          rs_granted_frames_def capacity_def)
    then have "rs_used s' = rs_used s"
      "rs_granted_frames s' = min (rs_granted_frames s) (max (target_frames w) (rs_used s))"
      by (simp_all add: rs_used_def rs_granted_frames_def capacity_def rs_shrink_to_sel)
    with accepted(3) [of content "\<lambda>_ _. True"] accepted(1,2,4) show ?thesis
      by (simp add: rs_keeps_def rs_owes_def)
  qed simp
qed

theorem read_set_window_contract_witness:
  "rs_set_window (with_target_frames window_default 0) (snd example_run) =
     (Err InvalidWindow, snd example_run)"
  using read_set_window_contract [OF example_run_reachable prod.collapse [symmetric],
      of "with_target_frames window_default 0"]
  by (auto simp: valid_window_def with_target_frames_def prod_eq_iff)

text \<open>
  A pinned pointer keeps the contract of the file it points to, so everything above holds for
  files that are supplied as \<open>Pin<Box<F>>\<close> or \<open>Pin<&mut F>\<close>.
\<close>
theorem pinned_read_contract:
  assumes "read_file_contract ops fits content" and "pin_law get put"
  shows "read_file_contract (pin_read_file get put ops) (\<lambda>p. fits (get p)) (\<lambda>p. content (get p))"
proof -
  have "pinned_read ops fits content get put"
    using assms by (simp add: pinned_read_def pinned_read_axioms_def read_backend_iff)
  then show ?thesis by (rule pinned_read.pinned_contract)
qed

theorem pinned_read_contract_witness:
  "read_file_contract (pin_read_file pin_target pin_store example_ops)
     (\<lambda>p. source_fits (pin_target p)) (\<lambda>p. source_content (pin_target p))"
  by (rule pinned_read_contract [OF example_contract]) (simp add: pin_law_def pin_store_def)

end
