(* ===== verification/Write_Frames.thy ===== *)
theory Write_Frames
  imports Carbon_Traits
begin

text \<open>
  \<open>src/write.rs\<close>, the input side: the traits \<open>PartialFrame\<close> and \<open>FrameAllocator\<close>, the byte frames
  that the crate provides, and \<open>Frames\<close>, the buffer of a destination (a queue that releases each
  accepted frame, or the whole attempt kept for replay).

  A partial frame is filled from a borrowed input. The input may have interior mutability, so a
  fill also returns the input as it is afterwards.
\<close>

section \<open>Traits\<close>

record ('p, 'i, 'o, 't, 'e) partial_frame =
  pf_poll_fill :: "waker \<Rightarrow> 'p \<Rightarrow> 'i \<Rightarrow> ('o, 'e) result poll \<times> 'p \<times> 'i"
  pf_is_complete :: "'p \<Rightarrow> bool"
  pf_is_empty :: "'p \<Rightarrow> bool"
  pf_finish :: "'p \<Rightarrow> 't"

record ('a, 'p) frame_allocator =
  fa_allocate :: "'a \<Rightarrow> 'p \<times> 'a"

section \<open>Byte frames\<close>

type_synonym u8 = "8 word"

record bytes_allocator =
  ba_frame_size :: nat

record bytes_partial =
  bp_bytes :: "u8 list"
  bp_frame_size :: nat

definition bytes_allocator_new :: "nat \<Rightarrow> (bytes_allocator, contract_error) result" where
  "bytes_allocator_new frame_size =
     (if frame_size = 0 then Err InvalidPartialFrame
      else Ok \<lparr>ba_frame_size = frame_size\<rparr>)"

definition bytes_allocate :: "bytes_allocator \<Rightarrow> bytes_partial \<times> bytes_allocator" where
  "bytes_allocate a = (\<lparr>bp_bytes = [], bp_frame_size = ba_frame_size a\<rparr>, a)"

definition bytes_poll_fill ::
    "waker \<Rightarrow> bytes_partial \<Rightarrow> u8 list \<Rightarrow> (nat, 'e) result poll \<times> bytes_partial \<times> u8 list" where
  "bytes_poll_fill cx p input =
     (let count = min (bp_frame_size p - length (bp_bytes p)) (length input)
      in (Ready (Ok count), p\<lparr>bp_bytes := bp_bytes p @ take count input\<rparr>, input))"

definition bytes_is_complete :: "bytes_partial \<Rightarrow> bool" where
  "bytes_is_complete p \<longleftrightarrow> length (bp_bytes p) = bp_frame_size p"

definition bytes_is_empty :: "bytes_partial \<Rightarrow> bool" where
  "bytes_is_empty p \<longleftrightarrow> bp_bytes p = []"

definition bytes_finish :: "bytes_partial \<Rightarrow> u8 list" where
  "bytes_finish p = bp_bytes p"

definition bytes_partial_ops :: "(bytes_partial, u8 list, nat, u8 list, 'e) partial_frame" where
  "bytes_partial_ops = \<lparr>pf_poll_fill = bytes_poll_fill, pf_is_complete = bytes_is_complete,
     pf_is_empty = bytes_is_empty, pf_finish = bytes_finish\<rparr>"

definition bytes_allocator_ops :: "(bytes_allocator, bytes_partial) frame_allocator" where
  "bytes_allocator_ops = \<lparr>fa_allocate = bytes_allocate\<rparr>"

lemmas bytes_defs = bytes_partial_ops_def bytes_allocator_ops_def bytes_allocate_def
  bytes_poll_fill_def bytes_is_complete_def bytes_is_empty_def bytes_finish_def

section \<open>The contract of incremental frames\<close>

text \<open>
  \<open>items p\<close> is what the partial frame has taken from the input, \<open>frame_items t\<close> what a finished
  frame holds, and \<open>taken out i\<close> the part of the input that a fill reporting \<open>out\<close> consumed. A
  fill of an incomplete frame appends what it reports and nothing else; a pending fill consumes
  nothing; finishing a frame that is not empty keeps its items; an empty frame holds none. A failed
  fill promises nothing.
\<close>

definition frame_contract ::
    "('p, 'i, 'o, 't, 'e) partial_frame \<Rightarrow> ('p \<Rightarrow> 'x list)
      \<Rightarrow> ('t \<Rightarrow> 'x list) \<Rightarrow> ('o \<Rightarrow> 'i \<Rightarrow> 'x list) \<Rightarrow> bool" where
  "frame_contract pf items frame_items taken \<longleftrightarrow>
     (\<forall>cx p i out p' i'. \<not> pf_is_complete pf p \<longrightarrow>
        pf_poll_fill pf cx p i = (Ready (Ok out), p', i') \<longrightarrow> items p' = items p @ taken out i) \<and>
     (\<forall>cx p i p' i'. \<not> pf_is_complete pf p \<longrightarrow> pf_poll_fill pf cx p i = (Pending, p', i') \<longrightarrow>
        items p' = items p \<and> \<not> pf_is_complete pf p') \<and>
     (\<forall>p. \<not> pf_is_empty pf p \<longrightarrow> frame_items (pf_finish pf p) = items p) \<and>
     (\<forall>p. pf_is_empty pf p \<longrightarrow> items p = [])"

text \<open>
  The shape of frames: what holds of every allocator (\<open>ready\<close>) and partial frame (\<open>good\<close>), and what
  follows for the frames made from partial ones (\<open>piece\<close>) and from complete ones (\<open>whole\<close>).
\<close>

definition frame_shape ::
    "('a, 'p) frame_allocator \<Rightarrow> ('p, 'i, 'o, 't, 'e) partial_frame \<Rightarrow> ('a \<Rightarrow> bool) \<Rightarrow> ('p \<Rightarrow> bool)
      \<Rightarrow> ('t \<Rightarrow> bool) \<Rightarrow> ('t \<Rightarrow> bool) \<Rightarrow> bool" where
  "frame_shape fa pf ready good piece whole \<longleftrightarrow>
     (\<forall>a p a'. ready a \<longrightarrow> fa_allocate fa a = (p, a') \<longrightarrow> ready a' \<and> good p) \<and>
     (\<forall>cx p i res p' i'. good p \<longrightarrow> \<not> pf_is_complete pf p \<longrightarrow>
        pf_poll_fill pf cx p i = (res, p', i') \<longrightarrow> good p') \<and>
     (\<forall>p. good p \<longrightarrow> \<not> pf_is_empty pf p \<longrightarrow> piece (pf_finish pf p)) \<and>
     (\<forall>p. good p \<longrightarrow> \<not> pf_is_empty pf p \<longrightarrow> pf_is_complete pf p \<longrightarrow> whole (pf_finish pf p))"

lemma frame_shape_any: "frame_shape fa pf (\<lambda>_. True) (\<lambda>_. True) (\<lambda>_. True) (\<lambda>_. True)"
  by (simp add: frame_shape_def)

locale frame_builder =
  fixes fa :: "('a, 'p) frame_allocator" and pf :: "('p, 'i, 'o, 't, 'e) partial_frame"
    and items :: "'p \<Rightarrow> 'x list" and frame_items :: "'t \<Rightarrow> 'x list"
    and taken :: "'o \<Rightarrow> 'i \<Rightarrow> 'x list"
  assumes fill_ok: "\<not> pf_is_complete pf p \<Longrightarrow>
      pf_poll_fill pf cx p i = (Ready (Ok out), p', i') \<Longrightarrow> items p' = items p @ taken out i"
    and fill_pending: "\<not> pf_is_complete pf p \<Longrightarrow> pf_poll_fill pf cx p i = (Pending, p', i') \<Longrightarrow>
      items p' = items p \<and> \<not> pf_is_complete pf p'"
    and finish_items: "\<not> pf_is_empty pf p \<Longrightarrow> frame_items (pf_finish pf p) = items p"
    and empty_items: "pf_is_empty pf p \<Longrightarrow> items p = []"
begin

lemma allocate_items: "fa_allocate fa a = (p, a') \<Longrightarrow> pf_is_empty pf p \<Longrightarrow> items p = []"
  by (rule empty_items)

lemma contract: "frame_contract pf items frame_items taken"
  unfolding frame_contract_def
  using fill_ok fill_pending finish_items empty_items by blast

end

lemma frame_builder_iff:
  "frame_builder pf items frame_items taken \<longleftrightarrow> frame_contract pf items frame_items taken"
proof
  show "frame_contract pf items frame_items taken" if "frame_builder pf items frame_items taken"
    using that by (rule frame_builder.contract)
  show "frame_builder pf items frame_items taken" if "frame_contract pf items frame_items taken"
    using that unfolding frame_contract_def by unfold_locales blast+
qed

interpretation bytes: frame_builder bytes_allocator_ops bytes_partial_ops bp_bytes "\<lambda>t. t"
    "\<lambda>count input. take count input"
  by unfold_locales (auto simp: bytes_defs Let_def)

text \<open>A byte frame never exceeds its size, and an incomplete one takes all it can.\<close>

lemma bytes_fill_bound:
  assumes "bytes_poll_fill cx p input = (res, p', input')" "length (bp_bytes p) \<le> bp_frame_size p"
  shows "length (bp_bytes p') \<le> bp_frame_size p' \<and> bp_frame_size p' = bp_frame_size p \<and>
    (bytes_is_complete p' \<or> take (length input) input = drop (length (bp_bytes p)) (bp_bytes p'))"
  using assms by (auto simp: bytes_poll_fill_def Let_def bytes_is_complete_def min_def)

section \<open>Frames of a destination\<close>

datatype 't frames = Streaming "'t list" | Replay "'t list"

definition frames_new :: "bool \<Rightarrow> 't frames" where
  "frames_new replay = (if replay then Replay [] else Streaming [])"

fun frames_push :: "'t frames \<Rightarrow> 't \<Rightarrow> 't frames" where
  "frames_push (Streaming frames) frame = Streaming (frames @ [frame])"
| "frames_push (Replay frames) frame = Replay (frames @ [frame])"

fun frames_next :: "'t frames \<Rightarrow> u32 \<Rightarrow> 't option" where
  "frames_next (Streaming frames) written = (case frames of [] \<Rightarrow> None | frame # _ \<Rightarrow> Some frame)"
| "frames_next (Replay frames) written =
     (if unat written < length frames then Some (frames ! unat written) else None)"

text \<open>The capacity released by an accepted frame, and the frames that are left.\<close>

fun frames_accepted :: "'t frames \<Rightarrow> nat \<times> 't frames" where
  "frames_accepted (Streaming []) = (0, Streaming [])"
| "frames_accepted (Streaming (frame # frames)) = (1, Streaming frames)"
| "frames_accepted (Replay frames) = (0, Replay frames)"

fun frames_len :: "'t frames \<Rightarrow> nat" where
  "frames_len (Streaming frames) = length frames"
| "frames_len (Replay frames) = length frames"

fun frames_clear :: "'t frames \<Rightarrow> 't frames" where
  "frames_clear (Streaming frames) = Streaming []"
| "frames_clear (Replay frames) = Replay []"

end
