(* ===== verification/Write_Scheduler.thy ===== *)
theory Write_Scheduler
  imports Write_Frames Budget_Pool
begin

text \<open>
  \<open>src/write.rs\<close>: the destination slots and the write scheduler. As for the reader, the record
  holds the fields of \<open>WriteScheduler\<close>, the shared budget behind its permit, and the log of the
  wakers woken. Operations take the traits they use as arguments: \<open>ops\<close> for the destinations, \<open>fa\<close>
  for the allocator and \<open>pf\<close> for its partial frames.
\<close>

section \<open>Destinations\<close>

datatype 'r file_state = Idle | Opening | Writing | Closing | Closed 'r

record ('t, 'f, 'r) write_slot =
  w_file :: 'f
  w_state :: "'r file_state"
  w_frames :: "'t frames"
  w_capacity :: u32
  w_assigned :: u32
  w_written :: u32
  w_retries :: u32

definition slot_new ::
    "('t, 'f, 'e, 'r) write_file \<Rightarrow> 'f \<Rightarrow> bool \<Rightarrow> ('t, 'f, 'r) write_slot" where
  "slot_new ops file replay =
     \<lparr>w_file = file, w_state = Idle, w_frames = frames_new replay,
      w_capacity = wf_frame_capacity ops file, w_assigned = 0, w_written = 0, w_retries = 0\<rparr>"

definition slot_done :: "('t, 'f, 'r) write_slot \<Rightarrow> bool" where
  "slot_done slot \<longleftrightarrow> (case w_state slot of Closed _ \<Rightarrow> True | _ \<Rightarrow> False)"

text \<open>What \<open>Slot::poll\<close> does after an error: give up, or restart the attempt from its first frame.\<close>

definition slot_retry ::
    "u32 \<Rightarrow> 'e \<Rightarrow> ('t, 'f, 'r) write_slot
      \<Rightarrow> (bool \<times> nat, 'e) result \<times> ('t, 'f, 'r) write_slot" where
  "slot_retry limit error slot =
     (if w_retries slot = limit then (Err error, slot)
      else (Ok (True, 0),
            slot\<lparr>w_retries := w_retries slot + 1, w_written := 0, w_state := Opening\<rparr>))"

text \<open>One state transition or backend poll: whether it changed the slot, and the capacity released.\<close>

definition slot_poll ::
    "('t, 'f, 'e, 'r) write_file \<Rightarrow> waker \<Rightarrow> bool \<Rightarrow> u32 \<Rightarrow> ('t, 'f, 'r) write_slot
      \<Rightarrow> (bool \<times> nat, 'e) result \<times> ('t, 'f, 'r) write_slot" where
  "slot_poll ops cx closing limit slot =
     (case w_state slot of
        Opening \<Rightarrow>
          (let (res, file) = wf_poll_open ops cx (w_file slot);
               slot = slot\<lparr>w_file := file\<rparr>
           in case res of
                Pending \<Rightarrow> (Ok (False, 0), slot)
              | Ready (Ok _) \<Rightarrow> (Ok (True, 0), slot\<lparr>w_state := Writing\<rparr>)
              | Ready (Err error) \<Rightarrow> slot_retry limit error slot)
      | Writing \<Rightarrow>
          (case frames_next (w_frames slot) (w_written slot) of
             Some frame \<Rightarrow>
               (let (res, file) = wf_poll_write ops cx (w_file slot) frame;
                    slot = slot\<lparr>w_file := file\<rparr>
                in case res of
                     Pending \<Rightarrow> (Ok (False, 0), slot)
                   | Ready (Ok _) \<Rightarrow>
                       (let (released, frames) = frames_accepted (w_frames slot)
                        in (Ok (True, released),
                            slot\<lparr>w_written := w_written slot + 1, w_frames := frames\<rparr>))
                   | Ready (Err error) \<Rightarrow> slot_retry limit error slot)
           | None \<Rightarrow>
               if w_assigned slot = w_capacity slot \<or> closing
               then (Ok (True, 0), slot\<lparr>w_state := Closing\<rparr>)
               else (Ok (False, 0), slot))
      | Closing \<Rightarrow>
          (let (res, file) = wf_poll_close ops cx (w_file slot);
               slot = slot\<lparr>w_file := file\<rparr>
           in case res of
                Pending \<Rightarrow> (Ok (False, 0), slot)
              | Ready (Ok out) \<Rightarrow>
                  (Ok (True, if limit > 0 then unat (w_capacity slot) else 0),
                   slot\<lparr>w_state := Closed out, w_frames := frames_clear (w_frames slot)\<rparr>)
              | Ready (Err error) \<Rightarrow> slot_retry limit error slot)
      | Idle \<Rightarrow> (Ok (False, 0), slot)
      | Closed _ \<Rightarrow> (Ok (False, 0), slot))"

section \<open>Scheduler state\<close>

datatype phase = PhaseWriting | PhaseClosing | PhaseFailed

record ('t, 'f, 'r, 'a, 'p) writer =
  ww_allocator :: 'a
  ww_config :: scheduler_config
  ww_files :: "('t, 'f, 'r) write_slot list"
  ww_partial :: "'p option"
  ww_permit :: permit
  ww_budget :: budget
  ww_wakes :: "waker list"
  ww_used :: nat
  ww_fill_index :: nat
  ww_poll_cursor :: nat
  ww_phase :: phase
  ww_waker :: "waker option"

record 'o write_status =
  ws_output :: "'o option"
  ws_completed_files :: nat
  ws_missing_files :: nat

definition ws_new ::
    "'a \<Rightarrow> budget \<Rightarrow> scheduler_config
      \<Rightarrow> (('t, 'f, 'r, 'a, 'p) writer, contract_error) result" where
  "ws_new allocator budget config =
     (case window_validate (window config) of
        Err e \<Rightarrow> Err e
      | Ok _ \<Rightarrow>
          if total_capacity budget = 0 then Err ZeroBudget
          else
            let (permit, budget) = permit_new budget
            in Ok \<lparr>ww_allocator = allocator, ww_config = config, ww_files = [], ww_partial = None,
                   ww_permit = permit, ww_budget = budget, ww_wakes = [], ww_used = 0,
                   ww_fill_index = 0, ww_poll_cursor = 0, ww_phase = PhaseWriting,
                   ww_waker = None\<rparr>)"

section \<open>Helpers\<close>

definition ws_shrink_to ::
    "nat \<Rightarrow> ('t, 'f, 'r, 'a, 'p) writer \<Rightarrow> ('t, 'f, 'r, 'a, 'p) writer" where
  "ws_shrink_to n s =
     (let (permit, budget, wakes) = shrink_to n (ww_permit s) (ww_budget s)
      in s\<lparr>ww_permit := permit, ww_budget := budget, ww_wakes := ww_wakes s @ wakes\<rparr>)"

definition ws_wake :: "('t, 'f, 'r, 'a, 'p) writer \<Rightarrow> ('t, 'f, 'r, 'a, 'p) writer" where
  "ws_wake s =
     (case ww_waker s of
        Some waker \<Rightarrow> s\<lparr>ww_waker := None, ww_wakes := ww_wakes s @ [waker]\<rparr>
      | None \<Rightarrow> s)"

definition ws_wait ::
    "waker \<Rightarrow> ('t, 'f, 'r, 'a, 'p) writer \<Rightarrow> ('t, 'f, 'r, 'a, 'p) writer" where
  "ws_wait cx s = s\<lparr>ww_waker := Some cx\<rparr>"

definition ws_set_window ::
    "window \<Rightarrow> ('t, 'f, 'r, 'a, 'p) writer
      \<Rightarrow> (unit, contract_error) result \<times> ('t, 'f, 'r, 'a, 'p) writer" where
  "ws_set_window w s =
     (case window_validate w of
        Err e \<Rightarrow> (Err e, s)
      | Ok _ \<Rightarrow>
          let s = s\<lparr>ww_config := (ww_config s)\<lparr>window := w\<rparr>\<rparr>
          in (Ok (), ws_wake (ws_shrink_to
                (min (p_capacity (ww_permit s)) (max (target_frames w) (ww_used s))) s)))"

definition ws_window :: "('t, 'f, 'r, 'a, 'p) writer \<Rightarrow> window" where
  "ws_window s = window (ww_config s)"

definition ws_retained_frames :: "('t, 'f, 'r, 'a, 'p) writer \<Rightarrow> nat" where
  "ws_retained_frames s =
     (\<Sum>slot \<leftarrow> ww_files s. frames_len (w_frames slot)) + (if ww_partial s \<noteq> None then 1 else 0)"

definition ws_reserved_frames :: "('t, 'f, 'r, 'a, 'p) writer \<Rightarrow> nat" where
  "ws_reserved_frames s = ww_used s"

definition ws_granted_frames :: "('t, 'f, 'r, 'a, 'p) writer \<Rightarrow> nat" where
  "ws_granted_frames s = capacity (ww_permit s)"

definition ws_validate_file ::
    "('t, 'f, 'e, 'r) write_file \<Rightarrow> 'f \<Rightarrow> ('t, 'f, 'r, 'a, 'p) writer
      \<Rightarrow> (unit, ('i, 'e) write_error) result" where
  "ws_validate_file ops file s =
     (let capacity = wf_frame_capacity ops file
      in if capacity = 0 then Err (write_error_from ZeroFrameCapacity)
         else if max_retries (ww_config s) > 0 \<and> unat capacity > total_capacity (ww_budget s)
           then Err (write_error_from FrameCapacityExceedsBudget)
         else Ok ())"

definition completed_files :: "('t, 'f, 'r) write_slot list \<Rightarrow> nat" where
  "completed_files files = length (takeWhile slot_done files)"

definition ws_status ::
    "'o option \<Rightarrow> ('t, 'f, 'r, 'a, 'p) writer \<Rightarrow> 'o write_status" where
  "ws_status out s =
     \<lparr>ws_output = out, ws_completed_files = completed_files (ww_files s),
      ws_missing_files = max_active_files (window (ww_config s)) - length (ww_files s)\<rparr>"

definition ws_fail :: "('t, 'f, 'r, 'a, 'p) writer \<Rightarrow> ('t, 'f, 'r, 'a, 'p) writer" where
  "ws_fail s =
     ws_wake (ws_shrink_to 0
       (s\<lparr>ww_phase := PhaseFailed, ww_files := [], ww_partial := None, ww_used := 0\<rparr>))"

section \<open>Driving the destinations\<close>

text \<open>The capacity given back after a poll that changed a slot.\<close>

definition ws_release ::
    "bool \<Rightarrow> nat \<Rightarrow> bool \<Rightarrow> ('t, 'f, 'r, 'a, 'p) writer \<Rightarrow> ('t, 'f, 'r, 'a, 'p) writer" where
  "ws_release changed released now_done s =
     (let s = s\<lparr>ww_used := ww_used s - released\<rparr>
      in if changed \<and> now_done then ws_shrink_to (ww_used s) s
         else if released > 0 then
           let desired = (if ww_phase s = PhaseClosing then ww_used s
                          else max (target_frames (window (ww_config s))) (ww_used s))
           in ws_shrink_to (min (p_capacity (ww_permit s)) desired) s
         else s)"

datatype 'e write_pass = WPassError 'e | WPassExhausted | WPassDone bool nat

fun ws_pass ::
    "('t, 'f, 'e, 'r) write_file \<Rightarrow> waker \<Rightarrow> nat \<Rightarrow> nat \<Rightarrow> bool \<Rightarrow> nat
      \<Rightarrow> ('t, 'f, 'r, 'a, 'p) writer
      \<Rightarrow> ('i, 'e) write_error write_pass \<times> ('t, 'f, 'r, 'a, 'p) writer" where
  "ws_pass ops cx 0 count progressed remaining s = (WPassDone progressed remaining, s)"
| "ws_pass ops cx (Suc n) count progressed remaining s =
     (let index = ww_poll_cursor s mod count;
          s = s\<lparr>ww_poll_cursor := (index + 1) mod count\<rparr>
      in if length (ww_files s) \<le> index
         then (WPassError (write_error_from MissingWriteFile), s)
         else
           let (res, slot) = slot_poll ops cx (ww_phase s = PhaseClosing)
                 (max_retries (ww_config s)) (ww_files s ! index);
               s = s\<lparr>ww_files := (ww_files s)[index := slot]\<rparr>
           in case res of
                Err error \<Rightarrow> (WPassError (WBackend error), ws_fail s)
              | Ok (changed, released) \<Rightarrow>
                  let s = ws_release changed released (slot_done slot) s
                  in if changed then
                       if remaining - 1 = 0
                       then (WPassExhausted, s\<lparr>ww_wakes := ww_wakes s @ [cx]\<rparr>)
                       else ws_pass ops cx n count True (remaining - 1) s
                     else ws_pass ops cx n count progressed remaining s)"

text \<open>The outcomes of one step of a pass; \<open>polled s count slot\<close> is the state with the polled slot.\<close>

definition polled ::
    "('t, 'f, 'r, 'a, 'p) writer \<Rightarrow> nat \<Rightarrow> ('t, 'f, 'r) write_slot \<Rightarrow> ('t, 'f, 'r, 'a, 'p) writer" where
  "polled s count slot = s\<lparr>ww_poll_cursor := (ww_poll_cursor s mod count + 1) mod count,
     ww_files := (ww_files s)[ww_poll_cursor s mod count := slot]\<rparr>"

lemma ws_pass_step [consumes 1, case_names missing failed exhausted changed same]:
  fixes s :: "('t, 'f, 'r, 'a, 'p) writer"
  assumes "ws_pass ops cx (Suc n) count progressed remaining s = (pr, s')"
  defines "index \<equiv> ww_poll_cursor s mod count"
  defines "out \<equiv> slot_poll ops cx (ww_phase s = PhaseClosing) (max_retries (ww_config s))
    (ww_files s ! index)"
  obtains "length (ww_files s) \<le> index" "pr = WPassError (WContract MissingWriteFile)"
      "s' = s\<lparr>ww_poll_cursor := (index + 1) mod count\<rparr>"
  | error slot where "index < length (ww_files s)" "out = (Err error, slot)"
      "pr = WPassError (WBackend error)" "s' = ws_fail (polled s count slot)"
  | released slot where "index < length (ww_files s)" "out = (Ok (True, released), slot)"
      "remaining \<le> 1" "pr = WPassExhausted"
      "s' = (let s = ws_release True released (slot_done slot) (polled s count slot)
             in s\<lparr>ww_wakes := ww_wakes s @ [cx]\<rparr>)"
  | released slot where "index < length (ww_files s)" "out = (Ok (True, released), slot)"
      "1 < remaining"
      "ws_pass ops cx n count True (remaining - 1)
         (ws_release True released (slot_done slot) (polled s count slot)) = (pr, s')"
  | released slot where "index < length (ww_files s)" "out = (Ok (False, released), slot)"
      "ws_pass ops cx n count progressed remaining
         (ws_release False released (slot_done slot) (polled s count slot)) = (pr, s')"
proof -
  obtain res slot where o: "out = (res, slot)" by fastforce
  note step = assms(1) [unfolded ws_pass.simps Let_def]
  show thesis
  proof (cases "length (ww_files s) \<le> index")
    case True
    with step show thesis by (intro that(1)) (auto simp: index_def write_error_from_def)
  next
    case False
    then have i: "index < length (ww_files s)" by simp
    show thesis
    proof (cases res)
      case (Err error)
      with step o False show thesis
        by (intro that(2) [OF i, of error slot]) (auto simp: index_def out_def polled_def)
    next
      case (Ok x)
      obtain changed released where x: "x = (changed, released)" by fastforce
      show thesis
      proof (cases changed)
        case True
        with step o False Ok x show thesis
          using that(3) [OF i, of released slot] that(4) [OF i, of released slot]
          by (cases "remaining \<le> 1") (auto simp: index_def out_def polled_def Let_def)
      next
        case False
        with step o i Ok x show thesis
          by (intro that(5) [OF i, of released slot]) (auto simp: index_def out_def polled_def)
      qed
    qed
  qed
qed

lemma ws_pass_remaining:
  assumes "ws_pass ops cx n count progressed remaining s = (WPassDone progressed' remaining', s')"
  shows "remaining' \<le> remaining \<and> (progressed' \<and> \<not> progressed \<longrightarrow> remaining' < remaining)"
  using assms
proof (induction n arbitrary: progressed remaining s)
  case (Suc n)
  from Suc.prems show ?case
    by (cases rule: ws_pass_step) (auto dest: Suc.IH)
qed simp

function ws_loop ::
    "('t, 'f, 'e, 'r) write_file \<Rightarrow> waker \<Rightarrow> nat \<Rightarrow> nat \<Rightarrow> ('t, 'f, 'r, 'a, 'p) writer
      \<Rightarrow> (unit, ('i, 'e) write_error) result \<times> ('t, 'f, 'r, 'a, 'p) writer" where
  "ws_loop ops cx count remaining s =
     (case ws_pass ops cx count count False remaining s of
        (WPassError error, s) \<Rightarrow> (Err error, s)
      | (WPassExhausted, s) \<Rightarrow> (Ok (), s)
      | (WPassDone progressed remaining, s) \<Rightarrow>
          if \<not> progressed then (Ok (), s) else ws_loop ops cx count remaining s)"
  by pat_completeness auto
termination
  by (relation "measure (\<lambda>(ops, cx, count, remaining, s). remaining)")
    (auto dest!: ws_pass_remaining [OF sym])

declare ws_loop.simps [simp del]

definition ws_drive ::
    "('t, 'f, 'e, 'r) write_file \<Rightarrow> waker \<Rightarrow> ('t, 'f, 'r, 'a, 'p) writer
      \<Rightarrow> (unit, ('i, 'e) write_error) result \<times> ('t, 'f, 'r, 'a, 'p) writer" where
  "ws_drive ops cx s =
     (let count = length (ww_files s)
      in if count = 0 then (Ok (), s) else ws_loop ops cx count max_poll_ops s)"

end
