(* ===== verification/Write_Operations.thy ===== *)
theory Write_Operations
  imports Write_Scheduler
begin

text \<open>
  \<open>src/write.rs\<close>, the rest of the write scheduler: moving the partial frame into its destination,
  reserving capacity, and the operations of \<open>AsyncFilesWrite\<close>.
\<close>

section \<open>The partial frame\<close>

definition ws_flush_partial ::
    "('p, 'i, 'o, 't, 'x) partial_frame \<Rightarrow> ('t, 'f, 'r, 'a, 'p) writer
      \<Rightarrow> (unit, ('x, 'e) write_error) result \<times> ('t, 'f, 'r, 'a, 'p) writer" where
  "ws_flush_partial pf s =
     (case ww_partial s of
        None \<Rightarrow> (Ok (), s)
      | Some partial \<Rightarrow>
          let s = s\<lparr>ww_partial := None\<rparr>; fi = ww_fill_index s
          in if length (ww_files s) \<le> fi then (Err (write_error_from MissingWriteFile), s)
             else let slot = ww_files s ! fi
               in if pf_is_empty pf partial then
                    let released =
                          (if max_retries (ww_config s) = 0 then 1
                           else if w_assigned slot = 0 then unat (w_capacity slot) else 0)
                    in (Ok (), s\<lparr>ww_used := ww_used s - released\<rparr>)
                  else
                    let slot = slot\<lparr>w_frames := frames_push (w_frames slot) (pf_finish pf partial),
                                 w_assigned := w_assigned slot + 1\<rparr>;
                        slot = (if w_assigned slot = 1 then slot\<lparr>w_state := Opening\<rparr> else slot)
                    in (Ok (),
                        s\<lparr>ww_files := (ww_files s)[fi := slot],
                          ww_fill_index :=
                            (if w_assigned slot = w_capacity slot then fi + 1 else fi)\<rparr>))"

definition ws_ensure_capacity ::
    "waker \<Rightarrow> nat \<Rightarrow> ('t, 'f, 'r, 'a, 'p) writer
      \<Rightarrow> (bool, ('x, 'e) write_error) result \<times> ('t, 'f, 'r, 'a, 'p) writer" where
  "ws_ensure_capacity cx minimum s =
     (if p_capacity (ww_permit s) \<ge> minimum then (Ok True, s)
      else
        let s = (if p_capacity (ww_permit s) > ww_used s then ws_shrink_to (ww_used s) s else s);
            desired = min (max (target_frames (window (ww_config s))) minimum)
                        (total_capacity (ww_budget s));
            (res, permit, budget) = poll_grow cx minimum desired (ww_permit s) (ww_budget s);
            s = s\<lparr>ww_permit := permit, ww_budget := budget\<rparr>
        in case res of
             Ready (Ok _) \<Rightarrow> (Ok True, s)
           | Ready (Err error) \<Rightarrow> (Err (write_error_from error), s)
           | Pending \<Rightarrow> (Ok False, s))"

text \<open>The capacity that the next partial frame needs, and the limit it must fit.\<close>

definition ws_needed ::
    "('t, 'f, 'r) write_slot \<Rightarrow> ('t, 'f, 'r, 'a, 'p) writer \<Rightarrow> nat" where
  "ws_needed slot s =
     (if max_retries (ww_config s) = 0 then 1
      else if w_assigned slot = 0 then unat (w_capacity slot) else 0)"

definition ws_limit :: "('t, 'f, 'r, 'a, 'p) writer \<Rightarrow> nat" where
  "ws_limit s =
     (if max_retries (ww_config s) = 0
      then min (total_capacity (ww_budget s)) (target_frames (window (ww_config s)))
      else total_capacity (ww_budget s))"

text \<open>The block of \<open>poll_write\<close> that starts a partial frame when there is none.\<close>

definition ws_start_partial ::
    "('a, 'p) frame_allocator \<Rightarrow> ('p, 'i, 'o, 't, 'x) partial_frame \<Rightarrow> waker
      \<Rightarrow> ('t, 'f, 'r, 'a, 'p) writer
      \<Rightarrow> (unit, ('x, 'e) write_error) result \<times> ('t, 'f, 'r, 'a, 'p) writer" where
  "ws_start_partial fa pf cx s =
     (if ww_partial s \<noteq> None \<or> length (ww_files s) \<le> ww_fill_index s then (Ok (), s)
      else
        let needed = ws_needed (ww_files s ! ww_fill_index s) s
        in if ws_limit s - ww_used s < needed then (Ok (), s)
           else case ws_ensure_capacity cx (ww_used s + needed) s of
             (Err error, s) \<Rightarrow> (Err error, s)
           | (Ok False, s) \<Rightarrow> (Ok (), s)
           | (Ok True, s) \<Rightarrow>
               let (partial, allocator) = fa_allocate fa (ww_allocator s);
                   s = s\<lparr>ww_used := ww_used s + needed, ww_allocator := allocator\<rparr>
               in if \<not> pf_is_empty pf partial \<or> pf_is_complete pf partial
                  then (Err (write_error_from InvalidPartialFrame), ws_fail s)
                  else (Ok (), s\<lparr>ww_partial := Some partial\<rparr>))"

text \<open>The last part of \<open>poll_write\<close>: nothing was consumed.\<close>

definition ws_report ::
    "waker \<Rightarrow> ('t, 'f, 'r, 'a, 'p) writer
      \<Rightarrow> ('o write_status, ('x, 'e) write_error) result poll \<times> ('t, 'f, 'r, 'a, 'p) writer" where
  "ws_report cx s =
     (let status = ws_status None s
      in if ws_completed_files status > 0 \<or> ws_missing_files status > 0
         then (Ready (Ok status), s)
         else (Pending, ws_wait cx s))"

definition ws_fill ::
    "('p, 'i, 'o, 't, 'x) partial_frame \<Rightarrow> waker \<Rightarrow> 'i \<Rightarrow> ('t, 'f, 'r, 'a, 'p) writer
      \<Rightarrow> ('o write_status, ('x, 'e) write_error) result poll \<times> 'i
         \<times> ('t, 'f, 'r, 'a, 'p) writer" where
  "ws_fill pf cx input s =
     (case ww_partial s of
        None \<Rightarrow> (let (res, s) = ws_report cx s in (res, input, s))
      | Some partial \<Rightarrow>
          let (res, partial, input) = pf_poll_fill pf cx partial input;
              s = s\<lparr>ww_partial := Some partial\<rparr>
          in case res of
               Ready (Err error) \<Rightarrow> (Ready (Err (WInput error)), input, ws_fail s)
             | Ready (Ok out) \<Rightarrow>
                 if pf_is_complete pf partial then
                   if pf_is_empty pf partial
                   then (Ready (Err (write_error_from InvalidPartialFrame)), input, ws_fail s)
                   else case ws_flush_partial pf s of
                     (Err error, s) \<Rightarrow> (Ready (Err error), input, s)
                   | (Ok _, s) \<Rightarrow> (Ready (Ok (ws_status (Some out) s)), input, s)
                 else (Ready (Ok (ws_status (Some out) s)), input, s)
             | Pending \<Rightarrow> (let (res, s) = ws_report cx s in (res, input, s)))"

section \<open>Operations of \<open>AsyncFilesWrite\<close>\<close>

definition ws_accept_file :: "('t, 'f, 'r, 'a, 'p) writer \<Rightarrow> bool" where
  "ws_accept_file s \<longleftrightarrow>
     ww_phase s = PhaseWriting \<and> length (ww_files s) < max_active_files (window (ww_config s))"

definition ws_push_file ::
    "('t, 'f, 'e, 'r) write_file \<Rightarrow> 'f \<Rightarrow> ('t, 'f, 'r, 'a, 'p) writer
      \<Rightarrow> (unit, ('x, 'e) write_error) result \<times> ('t, 'f, 'r, 'a, 'p) writer" where
  "ws_push_file ops file s =
     (if ww_phase s \<noteq> PhaseWriting then (Err (write_error_from InputClosed), s)
      else if \<not> ws_accept_file s then (Err (write_error_from AdmissionNotReady), s)
      else case ws_validate_file ops file s of
             Err error \<Rightarrow> (Err error, s)
           | Ok _ \<Rightarrow>
               (Ok (), ws_wake (s\<lparr>ww_files := ww_files s @
                  [slot_new ops file (max_retries (ww_config s) > 0)]\<rparr>)))"

definition ws_poll_write ::
    "('t, 'f, 'e, 'r) write_file \<Rightarrow> ('a, 'p) frame_allocator \<Rightarrow> ('p, 'i, 'o, 't, 'x) partial_frame
      \<Rightarrow> waker \<Rightarrow> 'i \<Rightarrow> ('t, 'f, 'r, 'a, 'p) writer
      \<Rightarrow> ('o write_status, ('x, 'e) write_error) result poll \<times> 'i
         \<times> ('t, 'f, 'r, 'a, 'p) writer" where
  "ws_poll_write ops fa pf cx input s =
     (let s = s\<lparr>ww_waker := None\<rparr>
      in if ww_phase s \<noteq> PhaseWriting
         then (Ready (Err (write_error_from InputClosed)), input, s)
         else case ws_drive ops cx s of
           (Err error, s) \<Rightarrow> (Ready (Err error), input, s)
         | (Ok _, s) \<Rightarrow>
             (case ws_start_partial fa pf cx s of
                (Err error, s) \<Rightarrow> (Ready (Err error), input, s)
              | (Ok _, s) \<Rightarrow> ws_fill pf cx input s))"

definition ws_take_head ::
    "('t, 'f, 'r, 'a, 'p) writer
      \<Rightarrow> (('t, 'f, 'r) write_slot \<times> 'r) option \<times> ('t, 'f, 'r, 'a, 'p) writer" where
  "ws_take_head s =
     (case ww_files s of
        [] \<Rightarrow> (None, s)
      | slot # files \<Rightarrow>
          if \<not> slot_done slot then (None, s)
          else
            let s = s\<lparr>ww_files := files\<rparr>
            in case w_state slot of
                 Closed out \<Rightarrow>
                   (Some (slot\<lparr>w_state := Idle\<rparr>, out),
                    s\<lparr>ww_fill_index := ww_fill_index s - 1,
                      ww_poll_cursor := ww_poll_cursor s - 1\<rparr>)
               | _ \<Rightarrow> (None, s))"

definition ws_pop_swap ::
    "('t, 'f, 'e, 'r) write_file \<Rightarrow> 'f \<Rightarrow> ('t, 'f, 'r, 'a, 'p) writer
      \<Rightarrow> ('f \<times> 'r, ('x, 'e) write_error) result \<times> ('t, 'f, 'r, 'a, 'p) writer" where
  "ws_pop_swap ops file s =
     (if ww_phase s \<noteq> PhaseWriting then (Err (write_error_from InputClosed), s)
      else case ws_validate_file ops file s of
        Err error \<Rightarrow> (Err error, s)
      | Ok _ \<Rightarrow>
          if \<not> (case ww_files s of [] \<Rightarrow> False | slot # _ \<Rightarrow> slot_done slot)
          then (Err (write_error_from AdmissionNotReady), s)
          else case ws_take_head s of
            (None, s) \<Rightarrow> (Err (write_error_from AdmissionNotReady), s)
          | (Some (slot, out), s) \<Rightarrow>
              let previous = w_file slot;
                  slot = slot\<lparr>w_file := file, w_capacity := wf_frame_capacity ops file,
                           w_assigned := 0, w_written := 0, w_retries := 0, w_state := Idle\<rparr>
              in (Ok (previous, out), ws_wake (s\<lparr>ww_files := ww_files s @ [slot]\<rparr>)))"

text \<open>Trailing destinations that received no frame are dropped unopened.\<close>

definition drop_unused :: "('t, 'f, 'r) write_slot list \<Rightarrow> ('t, 'f, 'r) write_slot list" where
  "drop_unused files = rev (dropWhile (\<lambda>slot. w_assigned slot = 0) (rev files))"

text \<open>The first call of \<open>poll_close\<close> ends the input.\<close>

definition ws_begin_close ::
    "('p, 'i, 'o, 't, 'x) partial_frame \<Rightarrow> ('t, 'f, 'r, 'a, 'p) writer
      \<Rightarrow> (unit, ('x, 'e) write_error) result \<times> ('t, 'f, 'r, 'a, 'p) writer" where
  "ws_begin_close pf s =
     (if ww_phase s \<noteq> PhaseWriting then (Ok (), s)
      else case ws_flush_partial pf (s\<lparr>ww_phase := PhaseClosing\<rparr>) of
        (Err error, s) \<Rightarrow> (Err error, s)
      | (Ok _, s) \<Rightarrow>
          (let s = s\<lparr>ww_files := drop_unused (ww_files s)\<rparr>
           in (Ok (), ws_shrink_to (ww_used s) s)))"

definition ws_poll_close ::
    "('t, 'f, 'e, 'r) write_file \<Rightarrow> ('p, 'i, 'o, 't, 'x) partial_frame \<Rightarrow> waker
      \<Rightarrow> ('t, 'f, 'r, 'a, 'p) writer
      \<Rightarrow> (nat, ('x, 'e) write_error) result poll \<times> ('t, 'f, 'r, 'a, 'p) writer" where
  "ws_poll_close ops pf cx s =
     (let s = s\<lparr>ww_waker := None\<rparr>
      in if ww_phase s = PhaseFailed then (Ready (Err (write_error_from InputClosed)), s)
         else case ws_begin_close pf s of
           (Err error, s) \<Rightarrow> (Ready (Err error), s)
         | (Ok _, s) \<Rightarrow>
             (case ws_drive ops cx s of
                (Err error, s) \<Rightarrow> (Ready (Err error), s)
              | (Ok _, s) \<Rightarrow>
                  let completed = completed_files (ww_files s)
                  in if completed > 0 \<or> ww_files s = [] then (Ready (Ok completed), s)
                     else (Pending, ws_wait cx s)))"

definition ws_pop_file ::
    "('t, 'f, 'r, 'a, 'p) writer
      \<Rightarrow> (('f \<times> 'r) option, ('x, 'e) write_error) result \<times> ('t, 'f, 'r, 'a, 'p) writer" where
  "ws_pop_file s =
     (if ww_phase s \<noteq> PhaseClosing then (Err (write_error_from InputClosed), s)
      else case ws_take_head s of
        (None, s) \<Rightarrow> (Ok None, s)
      | (Some (slot, out), s) \<Rightarrow> (Ok (Some (w_file slot, out)), ws_wake s))"

text \<open>Dropping the scheduler drops its permit.\<close>

definition ws_drop :: "('t, 'f, 'r, 'a, 'p) writer \<Rightarrow> budget \<times> waker list" where
  "ws_drop s = permit_drop (ww_permit s) (ww_budget s)"

end
