(* ===== verification/Write_Invariant.thy ===== *)
theory Write_Invariant
  imports Write_Operations
begin

text \<open>
  The invariant of the write scheduler: what each state of a destination means for its buffer and
  its counters, which destinations are full, which one is being filled, and the exact account of
  the capacity in use. The data that a destination has committed or still holds is related to the
  frames assigned to it by \<open>slot_holds\<close>.
\<close>

section \<open>Destinations\<close>

definition replays :: "'t frames \<Rightarrow> bool" where
  "replays frames \<longleftrightarrow> (case frames of Streaming _ \<Rightarrow> False | Replay _ \<Rightarrow> True)"

fun frame_list :: "'t frames \<Rightarrow> 't list" where
  "frame_list (Streaming frames) = frames"
| "frame_list (Replay frames) = frames"

lemma frames_len_list: "frames_len frames = length (frame_list frames)"
  by (cases frames) simp_all

lemma frames_sel [simp]:
  "replays (frames_new replay) = replay" "frame_list (frames_new replay) = []"
  "replays (frames_push frames frame) = replays frames"
  "frame_list (frames_push frames frame) = frame_list frames @ [frame]"
  "replays (frames_clear frames) = replays frames" "frame_list (frames_clear frames) = []"
  by (cases frames; simp add: replays_def frames_new_def)+

text \<open>What the state of a destination says about its counters and the frames it retains.\<close>

definition slot_state_ok :: "('t, 'f, 'r) write_slot \<Rightarrow> bool" where
  "slot_state_ok slot \<longleftrightarrow>
     (let assigned = unat (w_assigned slot); written = unat (w_written slot);
          retained = frames_len (w_frames slot); replay = replays (w_frames slot)
      in case w_state slot of
           Idle \<Rightarrow> assigned = 0 \<and> written = 0 \<and> retained = 0
         | Opening \<Rightarrow> 0 < assigned \<and> written = 0 \<and> retained = assigned
         | Writing \<Rightarrow> 0 < assigned \<and> written \<le> assigned \<and>
             retained = (if replay then assigned else assigned - written)
         | Closing \<Rightarrow> 0 < assigned \<and> written = assigned \<and>
             retained = (if replay then assigned else 0)
         | Closed _ \<Rightarrow> 0 < assigned \<and> retained = 0)"

text \<open>While input is still accepted only a full destination is closed.\<close>

definition slot_full_ok :: "bool \<Rightarrow> ('t, 'f, 'r) write_slot \<Rightarrow> bool" where
  "slot_full_ok closing slot \<longleftrightarrow>
     (case w_state slot of
        Closing \<Rightarrow> closing \<or> w_assigned slot = w_capacity slot
      | Closed _ \<Rightarrow> closing \<or> w_assigned slot = w_capacity slot
      | _ \<Rightarrow> True)"

definition slot_ok :: "bool \<Rightarrow> u32 \<Rightarrow> nat \<Rightarrow> ('t, 'f, 'r) write_slot \<Rightarrow> bool" where
  "slot_ok closing limit tot slot \<longleftrightarrow>
     0 < w_capacity slot \<and> w_assigned slot \<le> w_capacity slot \<and> w_retries slot \<le> limit \<and>
     (0 < limit \<longrightarrow> unat (w_capacity slot) \<le> tot) \<and> replays (w_frames slot) = (0 < limit) \<and>
     slot_state_ok slot \<and> slot_full_ok closing slot"

lemmas slot_ok_defs = slot_ok_def slot_state_ok_def slot_full_ok_def

text \<open>
  The capacity that a destination accounts for: its buffered frames, or with retries its whole
  reservation, from its first frame until it is closed.
\<close>

definition slot_used :: "u32 \<Rightarrow> ('t, 'f, 'r) write_slot \<Rightarrow> nat" where
  "slot_used limit slot =
     (if limit = 0 then frames_len (w_frames slot)
      else if w_assigned slot = 0 \<or> slot_done slot then 0 else unat (w_capacity slot))"

lemma slot_used_retained:
  assumes "slot_ok closing limit tot slot"
  shows "frames_len (w_frames slot) \<le> slot_used limit slot"
proof -
  have "frames_len (w_frames slot) \<le> unat (w_assigned slot) \<and>
      (slot_done slot \<or> w_assigned slot = 0 \<longrightarrow> frames_len (w_frames slot) = 0)"
    using assms by (auto simp: slot_ok_defs slot_done_def Let_def split: file_state.splits if_splits)
  with assms show ?thesis
    by (auto simp: slot_used_def slot_ok_def word_le_nat_alt)
qed

lemma slot_file_irrelevant [simp]:
  "slot_ok closing limit tot (slot\<lparr>w_file := g\<rparr>) = slot_ok closing limit tot slot"
  "slot_used limit (slot\<lparr>w_file := g\<rparr>) = slot_used limit slot"
  "slot_done (slot\<lparr>w_file := g\<rparr>) = slot_done slot"
  by (cases "w_state slot"; simp add: slot_ok_defs slot_used_def slot_done_def)+

lemma slot_ok_unassigned:
  assumes "slot_ok closing limit tot slot" "w_assigned slot = 0"
  shows "w_state slot = Idle" "slot_used limit slot = 0"
  using assms
  by (auto simp: slot_ok_defs slot_used_def Let_def split: file_state.splits)

text \<open>
  The frames \<open>fs\<close> assigned to a destination, and what its backend has accepted of them. A write may
  be in progress, of the next frame in the buffer.
\<close>

definition slot_holds ::
    "('f \<Rightarrow> ('o, 't) attempt \<Rightarrow> bool) \<Rightarrow> 'o \<Rightarrow> ('o \<Rightarrow> 't \<Rightarrow> 'o) \<Rightarrow> ('f \<times> 'r \<Rightarrow> 'o)
      \<Rightarrow> 't list \<Rightarrow> ('t, 'f, 'r) write_slot \<Rightarrow> bool" where
  "slot_holds rep init add committed fs slot \<longleftrightarrow>
     length fs = unat (w_assigned slot) \<and>
     (case w_state slot of
        Idle \<Rightarrow> rep (w_file slot) Unopened
      | Opening \<Rightarrow> frame_list (w_frames slot) = fs \<and> rep (w_file slot) Unopened
      | Writing \<Rightarrow> frame_list (w_frames slot) =
            (if replays (w_frames slot) then fs else drop (unat (w_written slot)) fs) \<and>
          (let acc = foldl add init (take (unat (w_written slot)) fs)
           in rep (w_file slot) (Holds acc) \<or>
              (\<exists>t. frames_next (w_frames slot) (w_written slot) = Some t \<and>
                 rep (w_file slot) (Partway acc t)))
      | Closing \<Rightarrow> frame_list (w_frames slot) = (if replays (w_frames slot) then fs else []) \<and>
          rep (w_file slot) (Holds (foldl add init fs))
      | Closed r \<Rightarrow> committed (w_file slot, r) = foldl add init fs)"

section \<open>One poll of a destination\<close>

lemma slot_retry_cases [consumes 1, case_names exhausted retry]:
  assumes "slot_retry limit error slot = (res, slot')"
  obtains "w_retries slot = limit" "res = Err error" "slot' = slot"
  | "w_retries slot \<noteq> limit" "res = Ok (True, 0)"
      "slot' = slot\<lparr>w_retries := w_retries slot + 1, w_written := 0, w_state := Opening\<rparr>"
  using assms by (auto simp: slot_retry_def split: if_splits)

text \<open>Every outcome of a poll, with what it did to the slot.\<close>

lemma slot_poll_cases [consumes 1, case_names idle waiting opened wrote finish pending closed error]:
  assumes "slot_poll ops cx closing limit slot = (res, slot')"
  obtains "w_state slot = Idle \<or> slot_done slot" "res = Ok (False, 0)" "slot' = slot"
  | "w_state slot = Writing" "frames_next (w_frames slot) (w_written slot) = None"
      "w_assigned slot \<noteq> w_capacity slot" "\<not> closing" "res = Ok (False, 0)" "slot' = slot"
  | g where "w_state slot = Opening" "wf_poll_open ops cx (w_file slot) = (Ready (Ok ()), g)"
      "res = Ok (True, 0)" "slot' = slot\<lparr>w_file := g, w_state := Writing\<rparr>"
  | frame g released frames where "w_state slot = Writing"
      "frames_next (w_frames slot) (w_written slot) = Some frame"
      "wf_poll_write ops cx (w_file slot) frame = (Ready (Ok ()), g)"
      "frames_accepted (w_frames slot) = (released, frames)" "res = Ok (True, released)"
      "slot' = slot\<lparr>w_file := g, w_written := w_written slot + 1, w_frames := frames\<rparr>"
  | "w_state slot = Writing" "frames_next (w_frames slot) (w_written slot) = None"
      "w_assigned slot = w_capacity slot \<or> closing" "res = Ok (True, 0)"
      "slot' = slot\<lparr>w_state := Closing\<rparr>"
  | g where "res = Ok (False, 0)" "slot' = slot\<lparr>w_file := g\<rparr>"
      "w_state slot = Opening \<and> wf_poll_open ops cx (w_file slot) = (Pending, g) \<or>
       w_state slot = Writing \<and>
         (\<exists>frame. frames_next (w_frames slot) (w_written slot) = Some frame \<and>
            wf_poll_write ops cx (w_file slot) frame = (Pending, g)) \<or>
       w_state slot = Closing \<and> wf_poll_close ops cx (w_file slot) = (Pending, g)"
  | g out where "w_state slot = Closing"
      "wf_poll_close ops cx (w_file slot) = (Ready (Ok out), g)"
      "res = Ok (True, if limit > 0 then unat (w_capacity slot) else 0)"
      "slot' = slot\<lparr>w_file := g, w_state := Closed out, w_frames := frames_clear (w_frames slot)\<rparr>"
  | g e where "slot_retry limit e (slot\<lparr>w_file := g\<rparr>) = (res, slot')"
      "w_state slot = Opening \<and> wf_poll_open ops cx (w_file slot) = (Ready (Err e), g) \<or>
       w_state slot = Writing \<and>
         (\<exists>frame. frames_next (w_frames slot) (w_written slot) = Some frame \<and>
            wf_poll_write ops cx (w_file slot) frame = (Ready (Err e), g)) \<or>
       w_state slot = Closing \<and> wf_poll_close ops cx (w_file slot) = (Ready (Err e), g)"
proof (cases "w_state slot")
  case Idle
  with assms show thesis by (intro that(1)) (auto simp: slot_poll_def)
next
  case (Closed out)
  with assms show thesis by (intro that(1)) (auto simp: slot_poll_def slot_done_def)
next
  case Opening
  obtain o1 g where o: "wf_poll_open ops cx (w_file slot) = (o1, g)" by fastforce
  consider "o1 = Pending" | "o1 = Ready (Ok ())" | e where "o1 = Ready (Err e)"
    by (metis poll.exhaust result.exhaust unit.exhaust)
  then show thesis
  proof cases
    case 1
    with assms Opening o show thesis by (intro that(6)) (auto simp: slot_poll_def)
  next
    case 2
    with assms Opening o show thesis by (intro that(3)) (auto simp: slot_poll_def)
  next
    case 3
    with assms Opening o show thesis by (intro that(8)) (auto simp: slot_poll_def)
  qed
next
  case Writing
  show thesis
  proof (cases "frames_next (w_frames slot) (w_written slot)")
    case None
    show thesis
    proof (cases "w_assigned slot = w_capacity slot \<or> closing")
      case True
      with assms Writing None show thesis by (intro that(5)) (simp_all add: slot_poll_def)
    next
      case False
      with assms Writing None show thesis by (intro that(2)) (simp_all add: slot_poll_def)
    qed
  next
    case (Some frame)
    obtain o1 g where o: "wf_poll_write ops cx (w_file slot) frame = (o1, g)" by fastforce
    obtain released frames where acc: "frames_accepted (w_frames slot) = (released, frames)"
      by fastforce
    consider "o1 = Pending" | "o1 = Ready (Ok ())" | e where "o1 = Ready (Err e)"
      by (metis poll.exhaust result.exhaust unit.exhaust)
    then show thesis
    proof cases
      case 1
      with assms Writing Some o have "res = Ok (False, 0)" "slot' = slot\<lparr>w_file := g\<rparr>"
        by (simp_all add: slot_poll_def)
      with 1 Writing Some o that(6) [of g] show thesis by simp
    next
      case 2
      with assms Writing Some o acc show thesis by (intro that(4)) (auto simp: slot_poll_def)
    next
      case 3
      with assms Writing Some o have "slot_retry limit e (slot\<lparr>w_file := g\<rparr>) = (res, slot')"
        by (simp add: slot_poll_def)
      with 3 Writing Some o that(8) [of e g] show thesis by simp
    qed
  qed
next
  case Closing
  obtain o1 g where o: "wf_poll_close ops cx (w_file slot) = (o1, g)" by fastforce
  consider "o1 = Pending" | out where "o1 = Ready (Ok out)" | e where "o1 = Ready (Err e)"
    by (metis poll.exhaust result.exhaust)
  then show thesis
  proof cases
    case 1
    with assms Closing o show thesis by (intro that(6)) (auto simp: slot_poll_def)
  next
    case 2
    with assms Closing o show thesis by (intro that(7)) (auto simp: slot_poll_def Let_def)
  next
    case 3
    with assms Closing o show thesis by (intro that(8)) (auto simp: slot_poll_def)
  qed
qed

lemma frames_next_None:
  "frames_next frames written = None \<longleftrightarrow>
     (if replays frames then frames_len frames \<le> unat written else frames_len frames = 0)"
  by (cases frames) (auto simp: replays_def split: list.splits)

lemma frames_next_Some:
  "frames_next frames written = Some frame \<longleftrightarrow>
     (if replays frames then unat written < frames_len frames \<and> frame_list frames ! unat written = frame
      else frames_len frames > 0 \<and> hd (frame_list frames) = frame)"
  by (cases frames) (auto simp: replays_def split: list.splits)

text \<open>A new frame is never written before the ones in the buffer.\<close>

lemma frames_next_push:
  "frames_next frames written = None \<or>
   frames_next (frames_push frames frame) written = frames_next frames written"
  by (cases frames) (auto simp: nth_append split: list.splits)

lemma frames_accepted_sel:
  assumes "frames_accepted frames = (released, frames')"
  shows "replays frames' = replays frames" "frames_len frames' + released = frames_len frames"
    "replays frames \<Longrightarrow> frames' = frames \<and> released = 0"
    "\<not> replays frames \<Longrightarrow> frame_list frames' = tl (frame_list frames) \<and>
       released = (if frame_list frames = [] then 0 else 1)"
  using assms by (cases frames rule: frames_accepted.cases; auto simp: replays_def)+

text \<open>
  A poll keeps the slot well formed and its assignment, and what it reports as released is exactly
  what it stopped using.
\<close>

lemma slot_poll_ok:
  assumes p: "slot_poll ops cx closing limit slot = (res, slot')"
    and ok: "slot_ok closing limit tot slot"
  shows "slot_ok closing limit tot slot'" "w_assigned slot' = w_assigned slot"
    "w_capacity slot' = w_capacity slot"
    "res = Ok (changed, released) \<Longrightarrow> slot_used limit slot' + released = slot_used limit slot \<and>
       (\<not> changed \<longrightarrow> released = 0 \<and> w_state slot' = w_state slot \<and> w_frames slot' = w_frames slot)"
proof -
  have "slot_ok closing limit tot slot' \<and> w_assigned slot' = w_assigned slot \<and>
    w_capacity slot' = w_capacity slot \<and>
    (\<forall>changed released. res = Ok (changed, released) \<longrightarrow>
       slot_used limit slot' + released = slot_used limit slot \<and>
       (\<not> changed \<longrightarrow> released = 0 \<and> w_state slot' = w_state slot \<and> w_frames slot' = w_frames slot))"
    using p
  proof (cases rule: slot_poll_cases)
    case (opened g)
    with ok show ?thesis by (auto simp: slot_ok_defs slot_used_def slot_done_def Let_def)
  next
    case (wrote frame g rel frames)
    have next1: "frames_next (w_frames slot) (w_written slot) = Some frame" by (rule wrote(2))
    have "w_written slot < w_assigned slot"
      using ok wrote(1) next1
      by (auto simp: slot_ok_defs frames_next_Some Let_def word_less_nat_alt split: if_splits)
    then have "unat (w_written slot + 1) = Suc (unat (w_written slot))"
      and "unat (w_written slot) < unat (w_assigned slot)"
      by (simp_all add: u32_less_Suc word_less_nat_alt)
    with ok wrote frames_accepted_sel [OF wrote(4)] show ?thesis
      by (auto simp: slot_ok_defs slot_used_def slot_done_def Let_def frames_len_list word_neq_0_conv)
  next
    case finish
    with ok show ?thesis
      by (auto simp: slot_ok_defs slot_used_def slot_done_def frames_next_None Let_def split: if_splits)
  next
    case (closed g out)
    with ok show ?thesis
      by (auto simp: slot_ok_defs slot_used_def slot_done_def frames_len_list Let_def word_neq_0_conv)
  next
    case (error g e)
    then have "w_state slot \<noteq> Idle" "\<not> slot_done slot" by (auto simp: slot_done_def)
    from error(1) show ?thesis
    proof (cases rule: slot_retry_cases)
      case exhausted
      with ok show ?thesis by simp
    next
      case retry
      then have "w_retries slot < limit" using ok by (auto simp: slot_ok_def)
      then have "w_retries slot + 1 \<le> limit" by (simp add: inc_le)
      moreover have "0 < limit" using \<open>w_retries slot < limit\<close> by (simp add: word_less_nat_alt)
      ultimately show ?thesis using ok retry error(2)
        by (auto simp: slot_ok_defs slot_used_def slot_done_def Let_def split: if_splits)
    qed
  qed (use ok in simp_all)
  then show "slot_ok closing limit tot slot'" "w_assigned slot' = w_assigned slot"
    "w_capacity slot' = w_capacity slot"
    "res = Ok (changed, released) \<Longrightarrow> slot_used limit slot' + released = slot_used limit slot \<and>
       (\<not> changed \<longrightarrow> released = 0 \<and> w_state slot' = w_state slot \<and> w_frames slot' = w_frames slot)"
    by blast+
qed

text \<open>
  A poll that reports no error keeps the relation between a destination and the frames assigned to
  it, when the backend keeps its contract: a retry starts from the first frame of the attempt.
\<close>

context write_backend begin

text \<open>The phase of the backend after a poll in state \<open>Writing\<close>.\<close>

lemma slot_write_rep:
  assumes "slot_holds rep init add committed fs slot" "w_state slot = Writing"
    and "frames_next (w_frames slot) (w_written slot) = Some frame"
    and "wf_poll_write ops cx (w_file slot) frame = (res, g)"
  shows "rep g (wrote add (foldl add init (take (unat (w_written slot)) fs)) frame res)"
proof -
  have "\<exists>a. rep (w_file slot) a \<and> takes a (foldl add init (take (unat (w_written slot)) fs)) frame"
    using assms(1-3) by (auto simp: slot_holds_def Let_def intro: exI [of _ "Holds _"] exI [of _ "Partway _ _"])
  then show ?thesis using write_rep assms(4) by blast
qed

text \<open>A file that is not ready keeps what it was given.\<close>

lemma slot_holds_pending:
  assumes h: "slot_holds rep init add committed fs slot" and slot': "slot' = slot\<lparr>w_file := g\<rparr>"
    and poll: "w_state slot = Opening \<and> wf_poll_open ops cx (w_file slot) = (Pending, g) \<or>
       w_state slot = Writing \<and>
         (\<exists>frame. frames_next (w_frames slot) (w_written slot) = Some frame \<and>
            wf_poll_write ops cx (w_file slot) frame = (Pending, g)) \<or>
       w_state slot = Closing \<and> wf_poll_close ops cx (w_file slot) = (Pending, g)"
  shows "slot_holds rep init add committed fs slot'"
proof (cases "w_state slot")
  case Writing
  obtain frame where next1: "frames_next (w_frames slot) (w_written slot) = Some frame"
    and p: "wf_poll_write ops cx (w_file slot) frame = (Pending, g)"
    using poll Writing by auto
  from slot_write_rep [OF h Writing next1 p] h Writing next1 slot' show ?thesis
    by (simp add: slot_holds_def wrote_def Let_def)
next
  case Closing
  with poll h have "rep g (Holds (foldl add init fs))"
    by (auto simp: slot_holds_def intro: close_pending)
  with h Closing slot' show ?thesis by (simp add: slot_holds_def)
next
  case Opening
  with poll h have "rep g Unopened"
    using open_rep [of "w_file slot" cx Pending g] by (auto simp: slot_holds_def opened_def)
  with h Opening slot' show ?thesis by (simp add: slot_holds_def)
qed (use poll h in \<open>auto simp: slot_holds_def\<close>)

text \<open>A file that reports an error can be opened again.\<close>

lemma slot_error_unopened:
  assumes h: "slot_holds rep init add committed fs slot"
    and poll: "w_state slot = Opening \<and> wf_poll_open ops cx (w_file slot) = (Ready (Err e), g) \<or>
       w_state slot = Writing \<and>
         (\<exists>frame. frames_next (w_frames slot) (w_written slot) = Some frame \<and>
            wf_poll_write ops cx (w_file slot) frame = (Ready (Err e), g)) \<or>
       w_state slot = Closing \<and> wf_poll_close ops cx (w_file slot) = (Ready (Err e), g)"
  shows "rep g Unopened"
  using poll
proof (elim disjE conjE exE)
  assume "w_state slot = Opening" "wf_poll_open ops cx (w_file slot) = (Ready (Err e), g)"
  with h open_rep show ?thesis by (fastforce simp: slot_holds_def opened_def)
next
  fix frame
  assume "w_state slot = Writing" "frames_next (w_frames slot) (w_written slot) = Some frame"
    "wf_poll_write ops cx (w_file slot) frame = (Ready (Err e), g)"
  from slot_write_rep [OF h this] show ?thesis by (simp add: wrote_def)
next
  assume "w_state slot = Closing" "wf_poll_close ops cx (w_file slot) = (Ready (Err e), g)"
  with h close_error show ?thesis by (fastforce simp: slot_holds_def)
qed

lemma slot_poll_holds:
  assumes p: "slot_poll ops cx closing limit slot = (Ok (changed, released), slot')"
    and ok: "slot_ok closing limit tot slot"
    and h: "slot_holds rep init add committed fs slot"
  shows "slot_holds rep init add committed fs slot'"
  using p
proof (cases rule: slot_poll_cases)
  case (opened g)
  have "rep g (Holds init)"
    using open_rep [OF _ opened(2)] h opened(1) by (simp add: slot_holds_def opened_def)
  with ok h opened show ?thesis
    by (auto simp: slot_holds_def slot_ok_defs Let_def)
next
  case (wrote frame g rel frames)
  let ?w = "unat (w_written slot)"
  have "w_written slot < w_assigned slot"
    using ok wrote(1,2) by (auto simp: slot_ok_defs frames_next_Some Let_def word_less_nat_alt
        split: if_splits)
  then have w: "unat (w_written slot + 1) = Suc ?w" and lt: "?w < length fs"
    using h by (simp_all add: u32_less_Suc word_less_nat_alt slot_holds_def)
  have list: "frame_list (w_frames slot) = (if replays (w_frames slot) then fs else drop ?w fs)"
    using h wrote(1) by (simp add: slot_holds_def)
  then have "fs ! ?w = frame"
    using wrote(2) lt by (auto simp: frames_next_Some hd_drop_conv_nth split: if_splits)
  then have "rep g (Holds (foldl add init (take (Suc ?w) fs)))"
    using slot_write_rep [OF h wrote(1-3)] lt by (simp add: wrote_def take_Suc_conv_app_nth)
  with h wrote w list frames_accepted_sel [OF wrote(4)] show ?thesis
    by (auto simp: slot_holds_def drop_Suc tl_drop)
next
  case finish
  have n: "frames_len (w_frames slot) = (if replays (w_frames slot) then length fs else
      length fs - unat (w_written slot))" "unat (w_written slot) \<le> length fs"
    using ok h finish(1) by (auto simp: slot_ok_defs slot_holds_def Let_def)
  with finish have "unat (w_written slot) = length fs"
    by (auto simp: frames_next_None split: if_splits)
  with h finish show ?thesis by (auto simp: slot_holds_def)
next
  case (pending g)
  from slot_holds_pending [OF h pending(2,3)] show ?thesis .
next
  case (closed g out)
  with h close_ok [OF _ closed(2)] show ?thesis by (simp add: slot_holds_def)
next
  case (error g e)
  from error(1) show ?thesis
  proof (cases rule: slot_retry_cases)
    case retry
    then have "replays (w_frames slot)"
      using ok by (auto simp: slot_ok_def word_less_nat_alt word_le_nat_alt unat_eq_zero
          intro: ccontr)
    moreover have "rep g Unopened" by (rule slot_error_unopened [OF h error(2)])
    ultimately show ?thesis using retry error(2) h by (auto simp: slot_holds_def)
  qed simp
qed (use h in simp_all)

end

section \<open>The scheduler\<close>

lemma sum_list_map_update:
  fixes f :: "'x \<Rightarrow> nat"
  assumes "i < length xs"
  shows "sum_list (map f (xs[i := y])) + f (xs ! i) = sum_list (map f xs) + f y"
  using assms by (induction xs arbitrary: i) (auto split: nat.splits)

text \<open>
  The destinations before the fill index are full, the one at it is not, and those behind it are
  untouched.
\<close>

definition files_layout :: "nat \<Rightarrow> ('t, 'f, 'r) write_slot list \<Rightarrow> bool" where
  "files_layout fi files \<longleftrightarrow>
     fi \<le> length files \<and>
     (\<forall>i < length files.
        (i < fi \<longrightarrow> w_assigned (files ! i) = w_capacity (files ! i)) \<and>
        (i = fi \<longrightarrow> w_assigned (files ! i) < w_capacity (files ! i)) \<and>
        (fi < i \<longrightarrow> w_assigned (files ! i) = 0))"

definition files_used :: "u32 \<Rightarrow> ('t, 'f, 'r) write_slot list \<Rightarrow> nat" where
  "files_used limit files = sum_list (map (slot_used limit) files)"

text \<open>What the partial frame accounts for: one frame, or the reservation it opened.\<close>

definition partial_used :: "('t, 'f, 'r, 'a, 'p) writer \<Rightarrow> nat" where
  "partial_used s =
     (if ww_partial s = None then 0 else ws_needed (ww_files s ! ww_fill_index s) s)"

definition ws_core :: "('t, 'f, 'r, 'a, 'p) writer \<Rightarrow> bool" where
  "ws_core s \<longleftrightarrow>
     (ww_phase s = PhaseFailed \<or> files_layout (ww_fill_index s) (ww_files s)) \<and>
     (\<forall>slot \<in> set (ww_files s).
        slot_ok (ww_phase s = PhaseClosing) (max_retries (ww_config s)) (b_total (ww_budget s)) slot) \<and>
     (ww_partial s \<noteq> None \<longrightarrow> ww_fill_index s < length (ww_files s)) \<and>
     ww_used s = files_used (max_retries (ww_config s)) (ww_files s) + partial_used s \<and>
     ww_used s \<le> p_capacity (ww_permit s) \<and>
     valid_window (window (ww_config s)) \<and> 0 < b_total (ww_budget s)"

definition ws_phase_ok :: "('t, 'f, 'r, 'a, 'p) writer \<Rightarrow> bool" where
  "ws_phase_ok s \<longleftrightarrow>
     (case ww_phase s of
        PhaseWriting \<Rightarrow> True
      | PhaseClosing \<Rightarrow> ww_partial s = None \<and> (\<forall>slot \<in> set (ww_files s). w_assigned slot \<noteq> 0)
      | PhaseFailed \<Rightarrow> ww_files s = [] \<and> ww_partial s = None \<and> p_capacity (ww_permit s) = 0)"

definition ws_inv :: "('t, 'f, 'r, 'a, 'p) writer \<Rightarrow> bool" where
  "ws_inv s \<longleftrightarrow> ws_core s \<and> ws_phase_ok s"

lemmas ws_inv_defs = ws_inv_def ws_core_def ws_phase_ok_def

text \<open>
  What driving the destinations may change; \<open>E\<close> is the contract of the backend and \<open>H\<close> relates a
  destination to the frames assigned to it.
\<close>

definition ws_moves ::
    "bool \<Rightarrow> ('t list \<Rightarrow> ('t, 'f, 'r) write_slot \<Rightarrow> bool)
      \<Rightarrow> ('t, 'f, 'r, 'a, 'p) writer \<Rightarrow> ('t, 'f, 'r, 'a, 'p) writer \<Rightarrow> bool" where
  "ws_moves E H s s' \<longleftrightarrow>
     ws_inv s' \<and>
     (E \<longrightarrow> (\<forall>fss. list_all2 H fss (ww_files s) \<longrightarrow> list_all2 H fss (ww_files s'))) \<and>
     permit_run (ww_permit s, ww_budget s) (ww_permit s', ww_budget s') \<and>
     map w_capacity (ww_files s') = map w_capacity (ww_files s) \<and>
     map w_assigned (ww_files s') = map w_assigned (ww_files s) \<and>
     ww_partial s' = ww_partial s \<and> ww_allocator s' = ww_allocator s \<and>
     ww_config s' = ww_config s \<and> ww_fill_index s' = ww_fill_index s \<and>
     ww_phase s' = ww_phase s \<and> ww_waker s' = ww_waker s"

lemma ws_moves_refl: "ws_inv s \<Longrightarrow> ws_moves E H s s"
  by (simp add: ws_moves_def)

lemma ws_moves_trans:
  "ws_moves E H s s' \<Longrightarrow> ws_moves E H s' s'' \<Longrightarrow> ws_moves E H s s''"
  by (auto simp: ws_moves_def intro: permit_run_trans)

lemma ws_moves_length: "ws_moves E H s s' \<Longrightarrow> length (ww_files s') = length (ww_files s)"
  by (auto simp: ws_moves_def dest: map_eq_imp_length_eq)

lemma ws_shrink_to_sel [simp]:
  "ww_files (ws_shrink_to n s) = ww_files s" "ww_partial (ws_shrink_to n s) = ww_partial s"
  "ww_allocator (ws_shrink_to n s) = ww_allocator s" "ww_config (ws_shrink_to n s) = ww_config s"
  "ww_used (ws_shrink_to n s) = ww_used s" "ww_fill_index (ws_shrink_to n s) = ww_fill_index s"
  "ww_poll_cursor (ws_shrink_to n s) = ww_poll_cursor s" "ww_phase (ws_shrink_to n s) = ww_phase s"
  "ww_waker (ws_shrink_to n s) = ww_waker s"
  "p_capacity (ww_permit (ws_shrink_to n s)) = min (p_capacity (ww_permit s)) n"
  "p_request (ww_permit (ws_shrink_to n s)) = p_request (ww_permit s)"
  "b_total (ww_budget (ws_shrink_to n s)) = b_total (ww_budget s)"
  by (auto simp: ws_shrink_to_def shrink_to_sel split: prod.splits dest: shrink_to_frame)

lemma ws_wake_sel [simp]:
  "ww_files (ws_wake s) = ww_files s" "ww_partial (ws_wake s) = ww_partial s"
  "ww_allocator (ws_wake s) = ww_allocator s" "ww_config (ws_wake s) = ww_config s"
  "ww_used (ws_wake s) = ww_used s" "ww_fill_index (ws_wake s) = ww_fill_index s"
  "ww_poll_cursor (ws_wake s) = ww_poll_cursor s" "ww_phase (ws_wake s) = ww_phase s"
  "ww_waker (ws_wake s) = None" "ww_permit (ws_wake s) = ww_permit s"
  "ww_budget (ws_wake s) = ww_budget s"
  "ww_wakes (ws_wake s) = ww_wakes s @ (case ww_waker s of None \<Rightarrow> [] | Some cx \<Rightarrow> [cx])"
  by (auto simp: ws_wake_def split: option.splits)

lemma ws_shrink_to_run:
  "permit_run (ww_permit s, ww_budget s) (ww_permit (ws_shrink_to n s), ww_budget (ws_shrink_to n s))"
  by (auto simp: ws_shrink_to_def split: prod.splits intro: permit_run_shrink1)

lemma ws_needed_frame [simp]:
  "ws_needed slot (ws_shrink_to n s) = ws_needed slot s"
  "ws_needed slot (ws_wake s) = ws_needed slot s"
  by (simp_all add: ws_needed_def)

text \<open>Releasing capacity that is not in use keeps everything.\<close>

lemma ws_shrink_to_moves:
  assumes "ws_inv s" "ww_used s \<le> n"
  shows "ws_moves E H s (ws_shrink_to n s)"
  using assms ws_shrink_to_run [of s n]
  by (auto simp: ws_moves_def ws_inv_defs partial_used_def split: phase.splits)

lemma ws_core_slot:
  assumes "ws_core s" "i < length (ww_files s)"
  shows "slot_ok (ww_phase s = PhaseClosing) (max_retries (ww_config s)) (b_total (ww_budget s))
    (ww_files s ! i)"
  using assms by (simp add: ws_core_def)

text \<open>Installing a polled slot and giving back what it released.\<close>

lemma polled_core:
  assumes inv: "ws_inv s" and i: "i < length (ww_files s)" and i_def: "i = ww_poll_cursor s mod count"
    and p: "slot_poll ops cx (ww_phase s = PhaseClosing) (max_retries (ww_config s))
      (ww_files s ! i) = (Ok (changed, released), slot)"
  shows "ws_inv ((polled s count slot)\<lparr>ww_used := ww_used s - released\<rparr>)"
    "released \<le> ww_used s"
proof -
  let ?old = "ww_files s ! i" and ?limit = "max_retries (ww_config s)"
  have core: "ws_core s" using inv by (simp add: ws_inv_def)
  note ok = slot_poll_ok [OF p ws_core_slot [OF core i]]
  have "slot_used ?limit slot + released = slot_used ?limit ?old" using ok(4) by blast
  with sum_list_map_update [OF i, of "slot_used ?limit" slot]
  have used: "files_used ?limit ((ww_files s)[i := slot]) + released = files_used ?limit (ww_files s)"
    by (simp add: files_used_def)
  have needed: "ws_needed ((ww_files s)[i := slot] ! ww_fill_index s) s' =
      ws_needed (ww_files s ! ww_fill_index s) s" if "ww_config s' = ww_config s" for s'
    using ok(2,3) i that by (cases "i = ww_fill_index s") (simp_all add: ws_needed_def)
  have "ww_phase s = PhaseFailed \<or> files_layout (ww_fill_index s) ((ww_files s)[i := slot])"
    using core ok(2,3) i by (auto simp: ws_core_def files_layout_def nth_list_update)
  moreover have "\<forall>x \<in> set ((ww_files s)[i := slot]). slot_ok (ww_phase s = PhaseClosing) ?limit
      (b_total (ww_budget s)) x"
    using core ok(1) set_update_subset_insert [of "ww_files s" i slot] by (auto simp: ws_core_def)
  moreover have "w_assigned x \<noteq> 0" if "x \<in> set ((ww_files s)[i := slot])" "ww_phase s = PhaseClosing" for x
    using that inv ok(2) i set_update_subset_insert [of "ww_files s" i slot]
    by (fastforce simp: ws_inv_defs)
  moreover have "ww_used s = files_used ?limit (ww_files s) + partial_used s"
    "ww_used s \<le> p_capacity (ww_permit s)"
    using core by (simp_all add: ws_core_def)
  ultimately show "ws_inv ((polled s count slot)\<lparr>ww_used := ww_used s - released\<rparr>)"
    and "released \<le> ww_used s"
    using inv used i
    by (auto simp: ws_inv_defs polled_def i_def [symmetric] partial_used_def needed
        split: phase.splits)
qed

end
