(* ===== verification/Write_Drive.thy ===== *)
theory Write_Drive
  imports Write_Invariant
begin

text \<open>
  The driving loop of the write scheduler. \<open>drive_relation\<close> is the interface of a relation between
  the states before and after a drive: one poll must keep it. Its client is the loop; the first
  provider is \<open>ws_moves\<close>, the invariant and the data of the destinations.
\<close>

section \<open>One poll of the loop\<close>

lemma ws_release_sel [simp]:
  "ww_files (ws_release c r d s) = ww_files s" "ww_partial (ws_release c r d s) = ww_partial s"
  "ww_allocator (ws_release c r d s) = ww_allocator s" "ww_config (ws_release c r d s) = ww_config s"
  "ww_fill_index (ws_release c r d s) = ww_fill_index s" "ww_phase (ws_release c r d s) = ww_phase s"
  "ww_poll_cursor (ws_release c r d s) = ww_poll_cursor s" "ww_waker (ws_release c r d s) = ww_waker s"
  "ww_used (ws_release c r d s) = ww_used s - r"
  by (simp_all add: ws_release_def Let_def)

lemma polled_sel [simp]:
  "ww_files (polled s count slot) = (ww_files s)[ww_poll_cursor s mod count := slot]"
  "ww_partial (polled s count slot) = ww_partial s" "ww_allocator (polled s count slot) = ww_allocator s"
  "ww_config (polled s count slot) = ww_config s" "ww_used (polled s count slot) = ww_used s"
  "ww_fill_index (polled s count slot) = ww_fill_index s" "ww_phase (polled s count slot) = ww_phase s"
  "ww_waker (polled s count slot) = ww_waker s" "ww_permit (polled s count slot) = ww_permit s"
  "ww_budget (polled s count slot) = ww_budget s" "ww_wakes (polled s count slot) = ww_wakes s"
  "ww_poll_cursor (polled s count slot) = (ww_poll_cursor s mod count + 1) mod count"
  by (simp_all add: polled_def)

lemma ws_release_run:
  "permit_run (ww_permit s, ww_budget s)
     (ww_permit (ws_release c r d s), ww_budget (ws_release c r d s))"
proof -
  have "permit_run (ww_permit s, ww_budget s)
      (ww_permit (ws_shrink_to n (s\<lparr>ww_used := u\<rparr>)), ww_budget (ws_shrink_to n (s\<lparr>ww_used := u\<rparr>)))" for n u
    using ws_shrink_to_run [of "s\<lparr>ww_used := u\<rparr>" n] by simp
  then show ?thesis by (simp add: ws_release_def Let_def)
qed

lemma ws_release_inv:
  assumes "ws_inv (s\<lparr>ww_used := ww_used s - released\<rparr>)"
  shows "ws_inv (ws_release changed released now_done s)"
proof -
  let ?s = "s\<lparr>ww_used := ww_used s - released\<rparr>"
  have "ws_inv (ws_shrink_to n ?s)" if "ww_used ?s \<le> n" for n
    using ws_shrink_to_moves [OF assms that, of False "\<lambda>_ _. True"] by (simp add: ws_moves_def)
  moreover have "ww_used ?s \<le> p_capacity (ww_permit ?s)"
    using assms by (simp add: ws_inv_defs)
  ultimately show ?thesis
    using assms by (auto simp: ws_release_def Let_def)
qed

lemma polled_moves:
  fixes s :: "('t, 'f, 'r, 'a, 'p) writer"
  assumes inv: "ws_inv s" and i: "ww_poll_cursor s mod count < length (ww_files s)"
    and p: "slot_poll ops cx (ww_phase s = PhaseClosing) (max_retries (ww_config s))
      (ww_files s ! (ww_poll_cursor s mod count)) = (Ok (changed, released), slot)"
  shows "ws_moves (write_file_contract ops rep init add committed)
    (slot_holds rep init add committed) s
    (ws_release changed released (slot_done slot) (polled s count slot))"
proof -
  let ?i = "ww_poll_cursor s mod count" and ?s' = "polled s count slot"
  note ok = ws_core_slot [OF _ i] and inv' = polled_core [OF inv i refl p]
  have core: "ws_core s" using inv by (simp add: ws_inv_def)
  note step = slot_poll_ok [OF p ok [OF core]]
  have "list_all2 (slot_holds rep init add committed) fss ((ww_files s)[?i := slot])"
    if "write_file_contract ops rep init add committed"
      and all: "list_all2 (slot_holds rep init add committed) fss (ww_files s)" for fss
  proof -
    have len: "?i < length fss" using all i by (simp add: list_all2_lengthD)
    have backend: "write_backend ops rep init add committed"
      using that(1) by (simp add: write_backend_iff)
    have "slot_holds rep init add committed (fss ! ?i) slot"
      by (rule write_backend.slot_poll_holds
          [OF backend p ok [OF core] list_all2_nthD [OF all len]])
    with all show ?thesis
      using list_all2_update_cong [of "slot_holds rep init add committed" fss "ww_files s"
          "fss ! ?i" slot ?i] by simp
  qed
  moreover have "ws_inv (ws_release changed released (slot_done slot) ?s')"
    by (rule ws_release_inv) (use inv' in simp)
  moreover have "permit_run (ww_permit s, ww_budget s)
      (ww_permit (ws_release changed released (slot_done slot) ?s'),
       ww_budget (ws_release changed released (slot_done slot) ?s'))"
    using ws_release_run [of ?s' changed released "slot_done slot"] by simp
  ultimately show ?thesis
    using step i by (auto simp: ws_moves_def map_update list_update_same_conv)
qed

section \<open>The loop\<close>

locale drive_relation =
  fixes ops :: "('t, 'f, 'e, 'r) write_file" and cx :: waker
    and R :: "('t, 'f, 'r, 'a, 'p) writer \<Rightarrow> ('t, 'f, 'r, 'a, 'p) writer \<Rightarrow> bool"
  assumes R_refl: "ws_inv s \<Longrightarrow> R s s"
    and R_trans: "R s s' \<Longrightarrow> R s' s'' \<Longrightarrow> R s s''"
    and R_inv: "R s s' \<Longrightarrow> ws_inv s' \<and> length (ww_files s') = length (ww_files s)"
    and R_log: "R s s' \<Longrightarrow> R s (s'\<lparr>ww_wakes := ww_wakes s' @ [cx]\<rparr>)"
    and R_poll: "ws_inv s \<Longrightarrow> ww_poll_cursor s mod count < length (ww_files s) \<Longrightarrow>
      slot_poll ops cx (ww_phase s = PhaseClosing) (max_retries (ww_config s))
        (ww_files s ! (ww_poll_cursor s mod count)) = (Ok (changed, released), slot) \<Longrightarrow>
      R s (ws_release changed released (slot_done slot) (polled s count slot))"
begin

text \<open>A failure of the loop is the error of a destination that has used up its retries.\<close>

definition fails ::
    "('t, 'f, 'r, 'a, 'p) writer \<Rightarrow> ('i, 'e) write_error \<Rightarrow> ('t, 'f, 'r, 'a, 'p) writer \<Rightarrow> bool" where
  "fails s error s' \<longleftrightarrow>
     (\<exists>s1 e count slot i. R s s1 \<and> error = WBackend e \<and> s' = ws_fail (polled s1 count slot) \<and>
        i < length (ww_files s1) \<and>
        slot_poll ops cx (ww_phase s1 = PhaseClosing) (max_retries (ww_config s1))
          (ww_files s1 ! i) = (Err e, slot))"

lemma fails_trans: "R s s1 \<Longrightarrow> fails s1 e s' \<Longrightarrow> fails s e s'"
  unfolding fails_def by (elim exE conjE) (intro exI conjI, rule R_trans)

lemma pass_relation:
  fixes pr :: "('i, 'e) write_error write_pass"
  assumes "ws_pass ops cx n count progressed remaining s = (pr, s')"
    and "ws_inv s" "count = length (ww_files s)" "0 < count"
  shows "case pr of WPassError e \<Rightarrow> fails s e s' | _ \<Rightarrow> R s s'"
  using assms
proof (induction n arbitrary: progressed remaining s)
  case 0
  then show ?case by (auto simp: R_refl)
next
  case (Suc n)
  have i: "ww_poll_cursor s mod count < length (ww_files s)"
    using Suc.prems(3,4) by simp
  from Suc.prems(1) show ?case
  proof (cases rule: ws_pass_step)
    case missing
    with i show ?thesis by simp
  next
    case (failed e slot)
    then have "fails s (WBackend e) s'"
      unfolding fails_def using R_refl [OF Suc.prems(2)] i by blast
    with failed show ?thesis by simp
  next
    case (exhausted released slot)
    then show ?thesis
      using R_log [OF R_poll [OF Suc.prems(2) i exhausted(2)]] by (simp add: Let_def)
  next
    case (changed released slot)
    let ?s = "ws_release True released (slot_done slot) (polled s count slot)"
    have r: "R s ?s" by (rule R_poll [OF Suc.prems(2) i changed(2)])
    from R_inv [OF r] Suc.prems have "case pr of WPassError e \<Rightarrow> fails ?s e s' | _ \<Rightarrow> R ?s s'"
      by (intro Suc.IH [OF changed(4)]) auto
    with r show ?thesis by (auto split: write_pass.splits intro: R_trans fails_trans)
  next
    case (same released slot)
    let ?s = "ws_release False released (slot_done slot) (polled s count slot)"
    have r: "R s ?s" by (rule R_poll [OF Suc.prems(2) i same(2)])
    from R_inv [OF r] Suc.prems have "case pr of WPassError e \<Rightarrow> fails ?s e s' | _ \<Rightarrow> R ?s s'"
      by (intro Suc.IH [OF same(3)]) auto
    with r show ?thesis by (auto split: write_pass.splits intro: R_trans fails_trans)
  qed
qed

lemma loop_relation:
  fixes res :: "(unit, ('i, 'e) write_error) result"
  assumes "ws_loop ops cx count remaining s = (res, s')"
    and "ws_inv s" "count = length (ww_files s)" "0 < count"
  shows "case res of Err e \<Rightarrow> fails s e s' | Ok _ \<Rightarrow> R s s'"
  using assms
proof (induction remaining arbitrary: s rule: less_induct)
  case (less remaining)
  obtain pr s1 where p: "ws_pass ops cx count count False remaining s =
      (pr :: ('i, 'e) write_error write_pass, s1)"
    by fastforce
  note rel = pass_relation [OF p less.prems(2-4)]
  show ?case
  proof (cases pr)
    case (WPassDone progressed remaining')
    show ?thesis
    proof (cases progressed)
      case True
      with p WPassDone have lt: "remaining' < remaining"
        using ws_pass_remaining [OF p [unfolded WPassDone]] by simp
      have r: "R s s1" using rel WPassDone by simp
      have next_pass: "ws_loop ops cx count remaining' s1 = (res, s')"
        using less.prems(1) p WPassDone True by (simp add: ws_loop.simps [of ops cx count remaining s])
      have "case res of Err e \<Rightarrow> fails s1 e s' | Ok _ \<Rightarrow> R s1 s'"
        by (rule less.IH [OF lt next_pass]) (use R_inv [OF r] less.prems(3,4) in simp_all)
      with r show ?thesis by (auto split: result.splits intro: R_trans fails_trans)
    next
      case False
      with less.prems(1) p WPassDone rel show ?thesis
        by (auto simp: ws_loop.simps [of ops cx count remaining s])
    qed
  qed (use less.prems(1) p rel in \<open>auto simp: ws_loop.simps [of ops cx count remaining s]\<close>)
qed

lemma drive_relation:
  fixes res :: "(unit, ('i, 'e) write_error) result"
  assumes "ws_drive ops cx s = (res, s')" "ws_inv s"
  shows "case res of Err e \<Rightarrow> fails s e s' | Ok _ \<Rightarrow> R s s'"
  using assms loop_relation [of "length (ww_files s)" max_poll_ops s res s']
  by (auto simp: ws_drive_def Let_def R_refl split: if_splits)

end

lemma ws_inv_log [simp]:
  "ws_inv (s\<lparr>ww_wakes := w\<rparr>) = ws_inv s" "ws_inv (s\<lparr>ww_waker := k\<rparr>) = ws_inv s"
  by (cases "ww_phase s"; simp add: ws_inv_defs partial_used_def ws_needed_def)+

interpretation moves: drive_relation ops cx
    "ws_moves (write_file_contract ops rep init add committed) (slot_holds rep init add committed)"
  for ops :: "('t, 'f, 'e, 'r) write_file" and cx and rep :: "'f \<Rightarrow> ('o, 't) attempt \<Rightarrow> bool" and init and add and committed
proof
  let ?R = "ws_moves (write_file_contract ops rep init add committed)
    (slot_holds rep init add committed)"
  show "?R s (s'\<lparr>ww_wakes := ww_wakes s' @ [cx]\<rparr>)" if "?R s s'" for s s'
    using that by (simp add: ws_moves_def)
  show "ws_inv s' \<and> length (ww_files s') = length (ww_files s)" if "?R s s'" for s s'
    using that ws_moves_length [OF that] by (simp add: ws_moves_def)
qed (fact ws_moves_refl ws_moves_trans polled_moves)+

end
