(* ===== verification/Write_Steps.thy ===== *)
theory Write_Steps
  imports Write_Drive
begin

text \<open>
  The operations of the write scheduler on a well-formed state: the outcome of each on every branch,
  that each keeps the invariant, and that the internal checks (a fill index without a destination,
  an invalid budget request) never fire.
\<close>

section \<open>Failing\<close>

lemma ws_fail_sel [simp]:
  "ww_files (ws_fail s) = []" "ww_partial (ws_fail s) = None" "ww_used (ws_fail s) = 0"
  "ww_phase (ws_fail s) = PhaseFailed" "ww_config (ws_fail s) = ww_config s"
  "ww_allocator (ws_fail s) = ww_allocator s" "ww_waker (ws_fail s) = None"
  "p_capacity (ww_permit (ws_fail s)) = 0"
  "p_request (ww_permit (ws_fail s)) = p_request (ww_permit s)"
  "b_total (ww_budget (ws_fail s)) = b_total (ww_budget s)"
  by (simp_all add: ws_fail_def)

lemma ws_fail_run:
  "permit_run (ww_permit s, ww_budget s) (ww_permit (ws_fail s), ww_budget (ws_fail s))"
  using ws_shrink_to_run [of "s\<lparr>ww_phase := PhaseFailed, ww_files := [], ww_partial := None,
    ww_used := 0\<rparr>" 0] by (simp add: ws_fail_def)

lemma ws_fail_inv:
  "valid_window (window (ww_config s)) \<Longrightarrow> 0 < b_total (ww_budget s) \<Longrightarrow> ws_inv (ws_fail s)"
  by (simp add: ws_inv_defs files_used_def partial_used_def)

lemma ws_inv_valid:
  "ws_inv s \<Longrightarrow> valid_window (window (ww_config s)) \<and> 0 < b_total (ww_budget s) \<and>
     ww_used s \<le> p_capacity (ww_permit s)"
  by (simp add: ws_inv_defs)

text \<open>What every operation keeps, whatever the backend does.\<close>

definition ws_safe :: "('t, 'f, 'r, 'a, 'p) writer \<Rightarrow> ('t, 'f, 'r, 'a, 'p) writer \<Rightarrow> bool" where
  "ws_safe s s' \<longleftrightarrow>
     ws_inv s' \<and> permit_run (ww_permit s, ww_budget s) (ww_permit s', ww_budget s') \<and>
     max_retries (ww_config s') = max_retries (ww_config s)"

lemma ws_safe_refl: "ws_inv s \<Longrightarrow> ws_safe s s"
  by (simp add: ws_safe_def)

lemma ws_safe_trans: "ws_safe s s' \<Longrightarrow> ws_safe s' s'' \<Longrightarrow> ws_safe s s''"
  by (auto simp: ws_safe_def intro: permit_run_trans)

lemma ws_moves_safe: "ws_moves E H s s' \<Longrightarrow> ws_safe s s'"
  by (simp add: ws_moves_def ws_safe_def)

lemma ws_safe_fail: "ws_inv s \<Longrightarrow> ws_safe s (ws_fail s)"
  using ws_fail_run [of s] ws_inv_valid [of s] by (simp add: ws_safe_def ws_fail_inv)

lemma ws_safe_log:
  "ws_safe s (s'\<lparr>ww_wakes := w\<rparr>) = ws_safe s s'" "ws_safe s (s'\<lparr>ww_waker := k\<rparr>) = ws_safe s s'"
  "ws_safe (s\<lparr>ww_waker := k\<rparr>) s' = ws_safe s s'"
  by (simp_all add: ws_safe_def)

section \<open>Driving\<close>

lemma ws_drive_cases [consumes 2, case_names driven failed]:
  fixes s :: "('t, 'f, 'r, 'a, 'p) writer"
  assumes "ws_drive ops cx s = (res, s')" "ws_inv s"
  obtains "res = Ok ()" "ws_moves (write_file_contract ops rep init add committed)
      (slot_holds rep init add committed) s s'"
  | e s1 where "res = Err (WBackend e)" "s' = ws_fail s1" "ws_safe s s'"
proof -
  note rel = moves.drive_relation [OF assms, of rep init add committed]
  show thesis
  proof (cases res)
    case (Ok u)
    with rel that(1) show thesis by simp
  next
    case (Err e)
    then obtain s1 b count slot where f: "e = WBackend b" "s' = ws_fail (polled s1 count slot)"
      and m: "ws_moves (write_file_contract ops rep init add committed)
        (slot_holds rep init add committed) s s1"
      using rel by (auto simp: moves.fails_def)
    have "valid_window (window (ww_config s1))" "0 < b_total (ww_budget s1)"
      using m ws_inv_valid [of s1] by (simp_all add: ws_moves_def)
    then have "ws_safe s s'"
      using ws_moves_safe [OF m] ws_fail_run [of "polled s1 count slot"]
      by (auto simp: ws_safe_def f ws_fail_inv intro: permit_run_trans)
    with that(2) Err f show thesis by blast
  qed
qed

section \<open>The partial frame\<close>

text \<open>The destination that the partial frame belongs to.\<close>

lemma ws_fill_slot:
  assumes "ws_core s" "ww_fill_index s < length (ww_files s)" "ww_phase s \<noteq> PhaseFailed"
  defines "slot \<equiv> ww_files s ! ww_fill_index s"
  shows "w_assigned slot < w_capacity slot"
    "slot_ok (ww_phase s = PhaseClosing) (max_retries (ww_config s)) (b_total (ww_budget s)) slot"
    "slot_full_ok False slot \<Longrightarrow> \<not> slot_done slot \<and> w_state slot \<noteq> Closing"
  using assms by (auto simp: ws_core_def files_layout_def slot_full_ok_def slot_done_def
      split: file_state.splits)

text \<open>
  Adding one frame to the destination being filled: its slot, and the next fill index.
\<close>

definition fill_slot :: "'t \<Rightarrow> ('t, 'f, 'r) write_slot \<Rightarrow> ('t, 'f, 'r) write_slot" where
  "fill_slot frame slot =
     (let slot = slot\<lparr>w_frames := frames_push (w_frames slot) frame, w_assigned := w_assigned slot + 1\<rparr>
      in if w_assigned slot = 1 then slot\<lparr>w_state := Opening\<rparr> else slot)"

lemma fill_slot_sel [simp]:
  "w_assigned (fill_slot frame slot) = w_assigned slot + 1"
  "w_capacity (fill_slot frame slot) = w_capacity slot"
  "w_file (fill_slot frame slot) = w_file slot"
  "w_frames (fill_slot frame slot) = frames_push (w_frames slot) frame"
  "w_written (fill_slot frame slot) = w_written slot"
  "w_retries (fill_slot frame slot) = w_retries slot"
  "w_state (fill_slot frame slot) = (if w_assigned slot = 0 then Opening else w_state slot)"
  by (simp_all add: fill_slot_def Let_def)

lemma fill_slot_ok:
  assumes ok: "slot_ok closing limit tot slot" and room: "w_assigned slot < w_capacity slot"
    and open_: "slot_full_ok False slot"
  shows "slot_ok closing limit tot (fill_slot frame slot)" "slot_full_ok False (fill_slot frame slot)"
    "slot_used limit (fill_slot frame slot) =
       slot_used limit slot + (if limit = 0 then 1
         else if w_assigned slot = 0 then unat (w_capacity slot) else 0)"
proof -
  have a: "unat (w_assigned slot + 1) = Suc (unat (w_assigned slot))"
    by (rule u32_less_Suc [OF room])
  then have le: "w_assigned slot + 1 \<le> w_capacity slot" "w_assigned slot + 1 \<noteq> 0"
    using room by (auto simp: inc_le)
  have st: "w_state slot \<noteq> Closing" "\<not> slot_done slot"
    using room open_ by (auto simp: slot_full_ok_def slot_done_def split: file_state.splits)
  have idle: "w_state slot = Idle" if "w_assigned slot = 0"
    using that ok by (auto simp: slot_ok_defs Let_def split: file_state.splits)
  show "slot_ok closing limit tot (fill_slot frame slot)" "slot_full_ok False (fill_slot frame slot)"
    "slot_used limit (fill_slot frame slot) =
       slot_used limit slot + (if limit = 0 then 1
         else if w_assigned slot = 0 then unat (w_capacity slot) else 0)"
    using ok a le st idle
    by (auto simp: slot_ok_defs Let_def frames_len_list slot_used_def slot_done_def unat_eq_zero
        split: file_state.splits if_splits)
qed

lemma fill_slot_holds:
  assumes "slot_holds rep init add committed fs slot" "slot_ok closing limit tot slot"
    and "w_assigned slot < w_capacity slot" "slot_full_ok False slot"
  shows "slot_holds rep init add committed (fs @ [frame]) (fill_slot frame slot)"
proof -
  have a: "unat (w_assigned slot + 1) = Suc (unat (w_assigned slot))"
    by (rule u32_less_Suc [OF assms(3)])
  have "w_state slot \<noteq> Closing" "\<not> slot_done slot"
    using assms(3,4) by (auto simp: slot_full_ok_def slot_done_def split: file_state.splits)
  with assms a show ?thesis
    using frames_next_push [of "w_frames slot" "w_written slot" frame]
    by (auto simp: slot_holds_def slot_ok_defs Let_def slot_done_def frames_len_list unat_eq_zero
        split: file_state.splits if_splits)
qed

lemma ws_flush_cases [consumes 3, case_names none empty frame]:
  assumes f: "ws_flush_partial pf s = (res, s')" and core: "ws_core s" and "ww_phase s \<noteq> PhaseFailed"
  obtains "ww_partial s = None" "res = Ok ()" "s' = s"
  | p where "ww_partial s = Some p" "pf_is_empty pf p" "res = Ok ()"
      "s' = s\<lparr>ww_partial := None, ww_used := ww_used s - partial_used s\<rparr>"
  | p where "ww_partial s = Some p" "\<not> pf_is_empty pf p" "res = Ok ()"
      "s' = s\<lparr>ww_partial := None,
         ww_files := (ww_files s)[ww_fill_index s :=
            fill_slot (pf_finish pf p) (ww_files s ! ww_fill_index s)],
         ww_fill_index := (if w_assigned (ww_files s ! ww_fill_index s) + 1 =
              w_capacity (ww_files s ! ww_fill_index s)
            then ww_fill_index s + 1 else ww_fill_index s)\<rparr>"
proof (cases "ww_partial s")
  case None
  with f have "res = Ok ()" "s' = s" by (simp_all add: ws_flush_partial_def)
  with that(1) None show thesis by blast
next
  case (Some p)
  let ?old = "ww_files s ! ww_fill_index s"
  have i: "\<not> length (ww_files s) \<le> ww_fill_index s" using core Some by (simp add: ws_core_def)
  show thesis
  proof (cases "pf_is_empty pf p")
    case True
    have "ws_flush_partial pf s = (Ok (), s\<lparr>ww_partial := None, ww_used := ww_used s - partial_used s\<rparr>)"
      using Some i True unfolding ws_flush_partial_def partial_used_def ws_needed_def Let_def by simp
    from trans [OF f [symmetric] this]
    have "res = Ok ()" "s' = s\<lparr>ww_partial := None, ww_used := ww_used s - partial_used s\<rparr>"
      by simp_all
    with that(2) [OF Some True] show thesis by blast
  next
    case False
    have slot: "fill_slot frame ?old = (let slot = ?old\<lparr>w_frames := frames_push (w_frames ?old) frame,
        w_assigned := w_assigned ?old + 1\<rparr>
      in if w_assigned slot = 1 then slot\<lparr>w_state := Opening\<rparr> else slot)" for frame
      by (simp add: fill_slot_def)
    have "ws_flush_partial pf s = (Ok (), s\<lparr>ww_partial := None,
         ww_files := (ww_files s)[ww_fill_index s := fill_slot (pf_finish pf p) ?old],
         ww_fill_index := (if w_assigned ?old + 1 = w_capacity ?old
            then ww_fill_index s + 1 else ww_fill_index s)\<rparr>)"
      using Some i False unfolding ws_flush_partial_def Let_def by (simp add: slot)
    from trans [OF f [symmetric] this]
    have "res = Ok ()" "s' = s\<lparr>ww_partial := None,
         ww_files := (ww_files s)[ww_fill_index s := fill_slot (pf_finish pf p) ?old],
         ww_fill_index := (if w_assigned ?old + 1 = w_capacity ?old
            then ww_fill_index s + 1 else ww_fill_index s)\<rparr>"
      by simp_all
    with that(3) [OF Some False] show thesis by blast
  qed
qed

lemma ws_flush_core:
  assumes f: "ws_flush_partial pf s = (res, s')" and core: "ws_core s" and ph: "ww_phase s \<noteq> PhaseFailed"
    and op: "\<forall>slot \<in> set (ww_files s). slot_full_ok False slot"
  shows "res = Ok ()" "ws_core s'" "\<forall>slot \<in> set (ww_files s'). slot_full_ok False slot"
    "ww_partial s' = None" "ww_permit s' = ww_permit s" "ww_budget s' = ww_budget s"
    "ww_config s' = ww_config s" "ww_phase s' = ww_phase s" "ww_wakes s' = ww_wakes s"
    "map w_capacity (ww_files s') = map w_capacity (ww_files s)" "ww_waker s' = ww_waker s"
proof -
  have "res = Ok () \<and> ws_core s' \<and> (\<forall>slot \<in> set (ww_files s'). slot_full_ok False slot) \<and>
    ww_partial s' = None \<and> ww_permit s' = ww_permit s \<and> ww_budget s' = ww_budget s \<and>
    ww_config s' = ww_config s \<and> ww_phase s' = ww_phase s \<and> ww_wakes s' = ww_wakes s \<and>
    map w_capacity (ww_files s') = map w_capacity (ww_files s) \<and> ww_waker s' = ww_waker s"
    using f core ph
  proof (cases rule: ws_flush_cases)
    case none
    with core op show ?thesis by simp
  next
    case (empty p)
    with core op show ?thesis by (auto simp: ws_core_def partial_used_def)
  next
    case (frame p)
    let ?i = "ww_fill_index s" and ?fr = "pf_finish pf p"
    let ?old = "ww_files s ! ?i"
    let ?slot = "fill_slot ?fr ?old" and ?limit = "max_retries (ww_config s)"
    have i: "?i < length (ww_files s)" using core frame(1) by (simp add: ws_core_def)
    note old = ws_fill_slot(1,2) [OF core i ph]
    have full: "slot_full_ok False ?old" using op i by simp
    note new = fill_slot_ok [OF old(2,1) full, of ?fr]
    have "w_assigned ?old + 1 \<le> w_capacity ?old" by (rule inc_le [OF old(1)])
    then have less: "w_assigned ?old + 1 \<noteq> w_capacity ?old \<Longrightarrow>
        w_assigned ?old + 1 < w_capacity ?old" by simp
    have lay: "files_layout (if w_assigned ?old + 1 = w_capacity ?old then ?i + 1 else ?i)
        ((ww_files s)[?i := ?slot])"
    proof (cases "w_assigned ?old + 1 = w_capacity ?old")
      case True
      have "0 < w_capacity (ww_files s ! j)" if "j < length (ww_files s)" for j
        using core that by (auto simp: ws_core_def slot_ok_def)
      with core ph i True show ?thesis
        by (auto simp: ws_core_def files_layout_def nth_list_update less_Suc_eq)
    next
      case False
      with core ph i less show ?thesis
        by (auto simp: ws_core_def files_layout_def nth_list_update)
    qed
    have "\<forall>x \<in> set ((ww_files s)[?i := ?slot]). slot_ok (ww_phase s = PhaseClosing) ?limit
        (b_total (ww_budget s)) x \<and> slot_full_ok False x"
      using core op new(1,2) set_update_subset_insert [of "ww_files s" ?i ?slot]
      by (auto simp: ws_core_def)
    moreover have "files_used ?limit ((ww_files s)[?i := ?slot]) =
        files_used ?limit (ww_files s) + partial_used s"
      using sum_list_map_update [OF i, of "slot_used ?limit" ?slot] new(3) frame(1)
      by (simp add: files_used_def partial_used_def ws_needed_def)
    moreover have "partial_used s' = 0" using frame(4) by (simp add: partial_used_def)
    ultimately show ?thesis
      using core lay i frame(3,4) by (simp add: ws_core_def map_update list_update_same_conv)
  qed
  then show "res = Ok ()" "ws_core s'" "\<forall>slot \<in> set (ww_files s'). slot_full_ok False slot"
    "ww_partial s' = None" "ww_permit s' = ww_permit s" "ww_budget s' = ww_budget s"
    "ww_config s' = ww_config s" "ww_phase s' = ww_phase s" "ww_wakes s' = ww_wakes s"
    "map w_capacity (ww_files s') = map w_capacity (ww_files s)" "ww_waker s' = ww_waker s"
    by blast+
qed

section \<open>Capacity\<close>

text \<open>
  A satisfiable capacity request never fails; what it leaves unanswered waits in the budget's queue
  with the caller's waker.
\<close>

definition ws_queued :: "waker \<Rightarrow> ('t, 'f, 'r, 'a, 'p) writer \<Rightarrow> bool" where
  "ws_queued cx s \<longleftrightarrow>
     req_waiting (b_requests (ww_budget s) (p_request (ww_permit s))) \<and>
     req_waker (b_requests (ww_budget s) (p_request (ww_permit s))) = Some cx"

lemma ws_ensure_capacity_outcome:
  fixes res :: "(bool, ('x, 'e) write_error) result"
  assumes e: "ws_ensure_capacity cx minimum s = (res, s')" and inv: "ws_inv s"
    and ph: "ww_phase s \<noteq> PhaseFailed" 
    and m: "minimum \<le> p_capacity (ww_permit s) \<or> minimum \<le> b_total (ww_budget s)"
  shows "\<exists>b. res = Ok b \<and> ws_moves E H s s' \<and> ww_files s' = ww_files s \<and> ww_used s' = ww_used s \<and>
    (b \<longrightarrow> minimum \<le> p_capacity (ww_permit s')) \<and> (\<not> b \<longrightarrow> ws_queued cx s')"
proof (cases "minimum \<le> p_capacity (ww_permit s)")
  case True
  with e inv show ?thesis by (auto simp: ws_ensure_capacity_def ws_moves_refl)
next
  case False
  define s1 where "s1 = (if p_capacity (ww_permit s) > ww_used s then ws_shrink_to (ww_used s) s else s)"
  let ?d = "min (max (target_frames (window (ww_config s))) minimum) (b_total (ww_budget s))"
  have s1: "ww_config s1 = ww_config s" "b_total (ww_budget s1) = b_total (ww_budget s)"
    "ww_files s1 = ww_files s" "ww_used s1 = ww_used s" "ww_phase s1 = ww_phase s"
    by (simp_all add: s1_def)
  have moved: "ws_moves E H s s1"
    using ws_shrink_to_moves [OF inv] ws_moves_refl [OF inv] by (simp add: s1_def)
  obtain r p' b' where g: "poll_grow cx minimum ?d (ww_permit s1) (ww_budget s1) = (r, p', b')"
    by (metis prod_cases3)
  have no_error: "r \<noteq> Ready (Err e)" for e
  proof
    assume "r = Ready (Err e)"
    with g have "poll_grow cx minimum ?d (ww_permit s1) (ww_budget s1) = (Ready (Err e), p', b')"
      by simp
    then show False by (rule fg.grow_no_error) (use m s1 False in simp_all)
  qed
  let ?s' = "s1\<lparr>ww_permit := p', ww_budget := b'\<rparr>"
  have i1: "ws_inv s1" using moved by (simp add: ws_moves_def)
  moreover have "ww_used s1 \<le> p_capacity p'" "b_total b' = b_total (ww_budget s1)"
    using fg.grow_covers [OF g] fg.grow_mono [OF g] ws_inv_valid [OF i1] by simp_all
  ultimately have "ws_inv ?s'"
    using ph s1(5) by (cases "ww_phase s") (simp_all add: ws_inv_defs partial_used_def ws_needed_def)
  moreover have "permit_run (ww_permit s1, ww_budget s1) (p', b')" by (rule permit_run_grow1 [OF g])
  ultimately have "ws_moves E H s1 ?s'" by (simp add: ws_moves_def)
  with moved have all: "ws_moves E H s ?s'" by (rule ws_moves_trans)
  have frame: "ww_files ?s' = ww_files s" "ww_used ?s' = ww_used s" using s1 by simp_all
  have res: "(res, s') = (case r of Ready (Ok _) \<Rightarrow> Ok True | Ready (Err error) \<Rightarrow>
      Err (write_error_from error) | Pending \<Rightarrow> Ok False, ?s')"
    using e False g s1 unfolding ws_ensure_capacity_def Let_def total_capacity_def s1_def [symmetric]
    by (auto split: poll.splits result.splits)
  show ?thesis
  proof (cases r)
    case Pending
    from g [unfolded this] have "ws_queued cx ?s'"
      by (cases rule: poll_grow_cases) (auto simp: ws_queued_def)
    with res Pending all frame show ?thesis by (intro exI [of _ False]) simp
  next
    case (Ready x)
    then obtain u where x: "x = Ok u" using no_error by (cases x) auto
    then have "minimum \<le> p_capacity p'"
      using fg.grow_ready [of cx minimum ?d "ww_permit s1" "ww_budget s1" p' b'] g Ready by simp
    with res Ready x all frame show ?thesis by (intro exI [of _ True]) simp
  qed
qed

section \<open>Starting a partial frame\<close>

text \<open>
  A new frame is allocated only for a destination with room, and only once its capacity is there;
  without one, either every destination is full, or the limit is reached, or the request is queued.
\<close>

definition ws_started ::
    "('a, 'p) frame_allocator \<Rightarrow> ('p, 'i, 'o, 't, 'x) partial_frame \<Rightarrow> waker
      \<Rightarrow> ('t, 'f, 'r, 'a, 'p) writer \<Rightarrow> ('t, 'f, 'r, 'a, 'p) writer \<Rightarrow> bool" where
  "ws_started fa pf cx s s' \<longleftrightarrow>
     ws_safe s s' \<and> ww_files s' = ww_files s \<and> ww_fill_index s' = ww_fill_index s \<and>
     ww_config s' = ww_config s \<and> ww_phase s' = ww_phase s \<and> ww_waker s' = ww_waker s \<and>
     (case ww_partial s' of
        None \<Rightarrow> ww_partial s = None \<and> ww_used s' = ww_used s \<and>
          (ww_fill_index s = length (ww_files s) \<or>
           ws_limit s < ww_used s + ws_needed (ww_files s ! ww_fill_index s) s \<or> ws_queued cx s')
      | Some p \<Rightarrow> ww_partial s = Some p \<or>
          ww_partial s = None \<and> pf_is_empty pf p \<and> \<not> pf_is_complete pf p) \<and>
     (ww_partial s' = ww_partial s \<and> ww_allocator s' = ww_allocator s \<or>
      ww_partial s = None \<and>
      (\<exists>p. ww_partial s' = Some p \<and> fa_allocate fa (ww_allocator s) = (p, ww_allocator s')))"

text \<open>The frame a granted request allocates: kept when it is empty and open, refused otherwise.\<close>

lemma ws_start_partial_allocated:
  fixes res :: "(unit, ('x, 'e) write_error) result"
  assumes m: "ws_moves False (\<lambda>_ _. True) s s1"
    and s: "ww_partial s = None" "ww_phase s = PhaseWriting" "ww_fill_index s < length (ww_files s)"
    and s1: "ww_files s1 = ww_files s" "ww_used s1 = ww_used s"
      "ww_used s + ws_needed (ww_files s ! ww_fill_index s) s \<le> p_capacity (ww_permit s1)"
    and al: "fa_allocate fa (ww_allocator s1) = (p, a)"
    and step: "(res, s') =
      (let s2 = s1\<lparr>ww_used := ww_used s + ws_needed (ww_files s ! ww_fill_index s) s, ww_allocator := a\<rparr>
       in if \<not> pf_is_empty pf p \<or> pf_is_complete pf p
          then (Err (write_error_from InvalidPartialFrame), ws_fail s2)
          else (Ok (), s2\<lparr>ww_partial := Some p\<rparr>))"
  shows "res = Ok () \<and> ws_started fa pf cx s s' \<or>
    res = Err (WContract InvalidPartialFrame) \<and> ww_phase s' = PhaseFailed \<and> ws_safe s s'"
proof -
  let ?s2 = "s1\<lparr>ww_used := ww_used s + ws_needed (ww_files s ! ww_fill_index s) s, ww_allocator := a\<rparr>"
  from m have same: "ww_partial s1 = None" "ww_config s1 = ww_config s" "ww_phase s1 = ww_phase s"
    "ww_fill_index s1 = ww_fill_index s" "ww_waker s1 = ww_waker s" "ws_inv s1"
    "ww_allocator s1 = ww_allocator s"
    using s(1) by (simp_all add: ws_moves_def)
  have run: "permit_run (ww_permit s, ww_budget s) (ww_permit s1, ww_budget s1)"
    using ws_moves_safe [OF m] by (simp add: ws_safe_def)
  show ?thesis
  proof (cases "\<not> pf_is_empty pf p \<or> pf_is_complete pf p")
    case True
    with step have "res = Err (WContract InvalidPartialFrame)" "s' = ws_fail ?s2"
      by (simp_all add: write_error_from_def Let_def)
    moreover have "ws_safe s (ws_fail ?s2)"
      using ws_inv_valid [OF same(6)] same(2) run ws_fail_run [of ?s2]
      by (auto simp: ws_safe_def ws_fail_inv intro: permit_run_trans)
    ultimately show ?thesis by simp
  next
    case False
    with step have s': "res = Ok ()" "s' = ?s2\<lparr>ww_partial := Some p\<rparr>"
      by (simp_all add: Let_def)
    have "ws_needed x s' = ws_needed x s" for x
      using same(2) by (simp add: s' ws_needed_def)
    then have "ws_inv s'"
      using same s s1 by (simp add: s'(2) ws_inv_defs partial_used_def)
    with s' same s1 run False s(1) al show ?thesis
      by (simp add: ws_started_def ws_safe_def)
  qed
qed

lemma ws_start_partial_outcome:
  fixes res :: "(unit, ('x, 'e) write_error) result"
  assumes st: "ws_start_partial fa pf cx s = (res, s')" and inv: "ws_inv s"
    and ph: "ww_phase s = PhaseWriting"
  shows "res = Ok () \<and> ws_started fa pf cx s s' \<or>
    res = Err (WContract InvalidPartialFrame) \<and> ww_phase s' = PhaseFailed \<and> ws_safe s s'"
proof -
  have core: "ws_core s" and lay: "ww_fill_index s \<le> length (ww_files s)"
    using inv ph by (auto simp: ws_inv_def ws_core_def files_layout_def)
  let ?slot = "ww_files s ! ww_fill_index s"
  let ?needed = "ws_needed ?slot s"
  consider "ww_partial s \<noteq> None" | "ww_partial s = None" "ww_fill_index s = length (ww_files s)"
    | "ww_partial s = None" "ww_fill_index s < length (ww_files s)" "ws_limit s - ww_used s < ?needed"
    | "ww_partial s = None" "ww_fill_index s < length (ww_files s)" "\<not> ws_limit s - ww_used s < ?needed"
    using lay by fastforce
  then show ?thesis
  proof cases
    case 1
    with st inv show ?thesis by (auto simp: ws_start_partial_def ws_started_def ws_safe_refl)
  next
    case 2
    with st inv show ?thesis by (auto simp: ws_start_partial_def ws_started_def ws_safe_refl)
  next
    case 3
    then have "(res, s') = (Ok (), s)"
      using st by (simp add: ws_start_partial_def Let_def)
    with 3 inv show ?thesis by (auto simp: ws_started_def ws_safe_refl)
  next
    case 4
    have cap: "ww_used s \<le> p_capacity (ww_permit s)" using ws_inv_valid [OF inv] by simp
    have limit: "ws_limit s \<le> b_total (ww_budget s)" by (simp add: ws_limit_def total_capacity_def)
    have room: "ww_used s + ?needed \<le> p_capacity (ww_permit s) \<or>
        ww_used s + ?needed \<le> b_total (ww_budget s)"
      using 4(3) cap limit by (cases "?needed = 0") auto
    obtain r s1 where e: "ws_ensure_capacity cx (ww_used s + ?needed) s =
        (r :: (bool, ('x, 'e) write_error) result, s1)"
      by fastforce
    have "\<exists>b. r = Ok b \<and> ws_moves False (\<lambda>_ _. True) s s1 \<and> ww_files s1 = ww_files s \<and>
      ww_used s1 = ww_used s \<and> (b \<longrightarrow> ww_used s + ?needed \<le> p_capacity (ww_permit s1)) \<and>
      (\<not> b \<longrightarrow> ws_queued cx s1)"
      by (rule ws_ensure_capacity_outcome [OF e inv _ room]) (simp add: ph)
    then obtain b where r: "r = Ok b" and m: "ws_moves False (\<lambda>_ _. True) s s1"
      and s1: "ww_files s1 = ww_files s" "ww_used s1 = ww_used s"
        "b \<Longrightarrow> ww_used s + ?needed \<le> p_capacity (ww_permit s1)" "\<not> b \<Longrightarrow> ws_queued cx s1"
      by blast
    from m have same: "ww_config s1 = ww_config s" "ww_phase s1 = ww_phase s" "ww_waker s1 = ww_waker s"
      "ww_fill_index s1 = ww_fill_index s" "ww_partial s1 = None" "ww_allocator s1 = ww_allocator s"
      using 4(1) by (simp_all add: ws_moves_def)
    have step: "(res, s') = (case (r, s1) of
        (Err error, s) \<Rightarrow> (Err error, s)
      | (Ok False, s) \<Rightarrow> (Ok (), s)
      | (Ok True, s) \<Rightarrow>
          let (partial, allocator) = fa_allocate fa (ww_allocator s);
              s = s\<lparr>ww_used := ww_used s + ?needed, ww_allocator := allocator\<rparr>
          in if \<not> pf_is_empty pf partial \<or> pf_is_complete pf partial
             then (Err (write_error_from InvalidPartialFrame), ws_fail s)
             else (Ok (), s\<lparr>ww_partial := Some partial\<rparr>))"
      using st 4 e unfolding ws_start_partial_def Let_def by simp
    show ?thesis
    proof (cases b)
      case False
      with step r have "res = Ok ()" "s' = s1" by simp_all
      with False s1 same ws_moves_safe [OF m] 4(1) show ?thesis by (simp add: ws_started_def)
    next
      case True
      obtain p a where al: "fa_allocate fa (ww_allocator s1) = (p, a)" by fastforce
      show ?thesis
        by (rule ws_start_partial_allocated [OF m 4(1) ph 4(2) s1(1,2) s1(3) [OF True] al])
          (use step r True al s1(2) in \<open>simp add: Let_def\<close>)
    qed
  qed
qed

end
