(* ===== verification/Write_Poll.thy ===== *)
theory Write_Poll
  imports Write_Steps
begin

text \<open>
  The polls of the write scheduler on a well-formed state: \<open>poll_write\<close> as driving, starting a
  partial frame and filling it, with the outcome of every branch; \<open>push_file\<close>, \<open>pop_swap\<close>,
  \<open>pop_file\<close>, \<open>set_window\<close> and \<open>poll_close\<close>.
\<close>

section \<open>Writing\<close>

lemma ws_report_cases [consumes 1, case_names ready pending]:
  assumes "ws_report cx s = (res, s')"
  obtains "res = Ready (Ok (ws_status None s))" "s' = s"
      "0 < completed_files (ww_files s) \<or> length (ww_files s) < max_active_files (window (ww_config s))"
  | "res = Pending" "s' = s\<lparr>ww_waker := Some cx\<rparr>" "completed_files (ww_files s) = 0"
      "max_active_files (window (ww_config s)) \<le> length (ww_files s)"
proof (cases "ws_completed_files (ws_status None s) > 0 \<or> ws_missing_files (ws_status None s) > 0")
  case True
  with assms have "res = Ready (Ok (ws_status None s))" "s' = s"
    unfolding ws_report_def Let_def by (auto simp: ws_status_def)
  moreover have "0 < completed_files (ww_files s) \<or>
      length (ww_files s) < max_active_files (window (ww_config s))"
    using True by (auto simp: ws_status_def)
  ultimately show thesis by (rule that(1))
next
  case False
  with assms have "res = Pending" "s' = s\<lparr>ww_waker := Some cx\<rparr>"
    unfolding ws_report_def Let_def by (auto simp: ws_wait_def ws_status_def)
  moreover have "completed_files (ww_files s) = 0"
    "max_active_files (window (ww_config s)) \<le> length (ww_files s)"
    using False by (auto simp: ws_status_def)
  ultimately show thesis by (rule that(2))
qed

text \<open>A report: what the caller learns when no input was consumed.\<close>

definition ws_reports ::
    "waker \<Rightarrow> ('t, 'f, 'r, 'a, 'p) writer \<Rightarrow> ('o write_status, ('x, 'e) write_error) result poll
      \<Rightarrow> ('t, 'f, 'r, 'a, 'p) writer \<Rightarrow> bool" where
  "ws_reports cx s res s' \<longleftrightarrow> ws_report cx s = (res, s')"

lemma ws_reports_frame:
  assumes "ws_reports cx s res s'"
  shows "ww_files s' = ww_files s" "ww_partial s' = ww_partial s" "ww_config s' = ww_config s"
    "ww_fill_index s' = ww_fill_index s" "ww_phase s' = ww_phase s" "ww_permit s' = ww_permit s"
    "ww_budget s' = ww_budget s" "ww_wakes s' = ww_wakes s" "ww_used s' = ww_used s"
    "ws_safe t s' = ws_safe t s" "ws_inv s' = ws_inv s" "ww_allocator s' = ww_allocator s"
  using assms unfolding ws_reports_def
  by (cases rule: ws_report_cases; simp add: ws_safe_def)+

text \<open>The errors a writer can end with, apart from refused calls.\<close>

definition write_fault :: "('x, 'e) write_error \<Rightarrow> bool" where
  "write_fault error \<longleftrightarrow>
     (\<exists>i. error = WInput i) \<or> (\<exists>e. error = WBackend e) \<or> error = WContract InvalidPartialFrame"

lemma ws_partial_inv:
  "ws_inv s \<Longrightarrow> ww_partial s = Some p \<Longrightarrow> ws_inv (s\<lparr>ww_partial := Some q\<rparr>)"
  by (cases "ww_phase s") (auto simp: ws_inv_defs partial_used_def ws_needed_def)

lemma ws_inv_writing_full:
  assumes "ws_inv s" "ww_phase s = PhaseWriting"
  shows "\<forall>slot \<in> set (ww_files s). slot_full_ok False slot"
  using assms by (auto simp: ws_inv_defs slot_ok_def)

lemma ws_flush_inv:
  assumes "ws_flush_partial pf s = (res, s')" "ws_inv s" "ww_phase s = PhaseWriting"
  shows "res = Ok ()" "ws_safe s s'" "ww_phase s' = PhaseWriting" "ww_partial s' = None"
    "ww_config s' = ww_config s" "map w_capacity (ww_files s') = map w_capacity (ww_files s)"
    "ww_wakes s' = ww_wakes s" "ww_waker s' = ww_waker s"
    "ww_permit s' = ww_permit s" "ww_budget s' = ww_budget s"
proof -
  have core: "ws_core s" using assms(2) by (simp add: ws_inv_def)
  have "ww_phase s \<noteq> PhaseFailed" using assms(3) by simp
  note fl = ws_flush_core [OF assms(1) core this ws_inv_writing_full [OF assms(2,3)]]
  show "res = Ok ()" "ww_phase s' = PhaseWriting" "ww_partial s' = None"
    "ww_config s' = ww_config s" "map w_capacity (ww_files s') = map w_capacity (ww_files s)"
    "ww_wakes s' = ww_wakes s" "ww_waker s' = ww_waker s"
    "ww_permit s' = ww_permit s" "ww_budget s' = ww_budget s"
    using fl assms(3) by simp_all
  show "ws_safe s s'"
    using fl assms(3) by (simp add: ws_safe_def ws_inv_def ws_phase_ok_def)
qed

text \<open>
  Filling: nothing to fill, nothing to read yet, a failure, or input consumed, after which a complete
  frame has moved to its destination.
\<close>

lemma ws_fill_cases [consumes 3, case_names none pending failed stored flushed]:
  fixes res :: "('o write_status, ('x, 'e) write_error) result poll"
  assumes f: "ws_fill pf cx input s = (res, input', s')" and inv: "ws_inv s"
    and ph: "ww_phase s = PhaseWriting"
  obtains "ww_partial s = None" "ws_reports cx s res s'" "input' = input"
  | p p' where "ww_partial s = Some p" "pf_poll_fill pf cx p input = (Pending, p', input')"
      "ws_reports cx (s\<lparr>ww_partial := Some p'\<rparr>) res s'"
  | e where "res = Ready (Err e)" "write_fault e" "ww_phase s' = PhaseFailed" "ws_safe s s'"
  | p out p' where "ww_partial s = Some p"
      "pf_poll_fill pf cx p input = (Ready (Ok out), p', input')" "\<not> pf_is_complete pf p'"
      "res = Ready (Ok (ws_status (Some out) s'))" "s' = s\<lparr>ww_partial := Some p'\<rparr>" "ws_safe s s'"
  | p out p' where "ww_partial s = Some p"
      "pf_poll_fill pf cx p input = (Ready (Ok out), p', input')"
      "pf_is_complete pf p'" "\<not> pf_is_empty pf p'"
      "ws_flush_partial pf (s\<lparr>ww_partial := Some p'\<rparr>) =
         (Ok () :: (unit, ('x, 'e) write_error) result, s')"
      "res = Ready (Ok (ws_status (Some out) s'))" "ws_safe s s'"
proof (cases "ww_partial s")
  case None
  obtain r s1 where rep: "ws_report cx s =
      (r :: ('o write_status, ('x, 'e) write_error) result poll, s1)" by fastforce
  with f None have "res = r" "input' = input" "s' = s1" by (simp_all add: ws_fill_def)
  with that(1) [OF None] rep show thesis by (simp add: ws_reports_def)
next
  case (Some p)
  obtain o1 p' i' where fill: "pf_poll_fill pf cx p input = (o1, p', i')" by (metis prod_cases3)
  let ?s = "s\<lparr>ww_partial := Some p'\<rparr>"
  have inv': "ws_inv ?s" by (rule ws_partial_inv [OF inv Some])
  have fail: "ws_safe s (ws_fail ?s)"
    using ws_safe_fail [OF inv'] by (simp add: ws_safe_def)
  have keep: "ws_safe s ?s" using inv' by (simp add: ws_safe_def)
  note step = f [unfolded ws_fill_def Let_def Some option.case fill prod.case]
  consider "o1 = Pending" | e where "o1 = Ready (Err e)" | out where "o1 = Ready (Ok out)"
    by (metis poll.exhaust result.exhaust)
  then show thesis
  proof cases
    case 1
    obtain r s1 where rep: "ws_report cx ?s =
        (r :: ('o write_status, ('x, 'e) write_error) result poll, s1)" by fastforce
    with step 1 have "res = r" "input' = i'" "s' = s1" by simp_all
    with that(2) [OF Some, of p'] fill 1 rep show thesis by (simp add: ws_reports_def)
  next
    case (2 e)
    with step have "res = Ready (Err (WInput e))" "s' = ws_fail ?s" by simp_all
    with that(3) fail show thesis by (simp add: write_fault_def)
  next
    case (3 out)
    show thesis
    proof (cases "pf_is_complete pf p'")
      case False
      with step 3 have "res = Ready (Ok (ws_status (Some out) ?s))" "input' = i'" "s' = ?s"
        by auto
      with that(4) [OF Some, of out p'] fill 3 False keep show thesis by simp
    next
      case complete: True
      show thesis
      proof (cases "pf_is_empty pf p'")
        case True
        with step 3 complete have "res = Ready (Err (WContract InvalidPartialFrame))" "s' = ws_fail ?s"
          by (simp_all add: write_error_from_def)
        with that(3) fail show thesis by (simp add: write_fault_def)
      next
        case False
        obtain r s1 where fl: "ws_flush_partial pf ?s = (r :: (unit, ('x, 'e) write_error) result, s1)"
          by fastforce
        have r: "r = Ok ()" and safe: "ws_safe ?s s1"
          using ws_flush_inv(1,2) [OF fl inv'] ph by simp_all
        with step 3 complete False fl
        have "res = Ready (Ok (ws_status (Some out) s1))" "input' = i'" "s' = s1"
          by auto
        with that(5) [OF Some, of out p'] fill 3 complete False fl r ws_safe_trans [OF keep safe]
        show thesis by simp
      qed
    qed
  qed
qed

text \<open>The stages of \<open>poll_write\<close>.\<close>

lemma ws_poll_write_cases [consumes 2, case_names closed failed filled]:
  fixes res :: "('o write_status, ('x, 'e) write_error) result poll"
    and s s' :: "('t, 'f, 'r, 'a, 'p) writer"
  assumes p: "ws_poll_write ops fa pf cx input s = (res, input', s')" and inv: "ws_inv s"
  obtains "ww_phase s \<noteq> PhaseWriting" "res = Ready (Err (WContract InputClosed))" "input' = input"
      "s' = s\<lparr>ww_waker := None\<rparr>"
  | e where "ww_phase s = PhaseWriting" "res = Ready (Err e)" "write_fault e" "input' = input"
      "ww_phase s' = PhaseFailed" "ws_safe s s'"
  | s1 s2 where "ww_phase s = PhaseWriting"
      "ws_drive ops cx (s\<lparr>ww_waker := None\<rparr>) = (Ok () :: (unit, ('x, 'e) write_error) result, s1)"
      "ws_moves (write_file_contract ops rep init add committed)
         (slot_holds rep init add committed) (s\<lparr>ww_waker := None\<rparr>) s1"
      "ws_started fa pf cx s1 s2" "ws_fill pf cx input s2 = (res, input', s')"
      "ws_safe s s2" "ws_inv s2" "ww_phase s2 = PhaseWriting"
      "ws_start_partial fa pf cx s1 = (Ok () :: (unit, ('x, 'e) write_error) result, s2)"
proof (cases "ww_phase s = PhaseWriting")
  case False
  with p that(1) show thesis by (simp add: ws_poll_write_def Let_def write_error_from_def)
next
  case True
  let ?s = "s\<lparr>ww_waker := None\<rparr>"
  obtain r s1 where d: "ws_drive ops cx ?s = (r :: (unit, ('x, 'e) write_error) result, s1)"
    by fastforce
  have inv0: "ws_inv ?s" using inv by simp
  note step = p [unfolded ws_poll_write_def Let_def]
  from d inv0 show thesis
  proof (cases rule: ws_drive_cases [where rep = rep and init = init and add = add
        and committed = committed])
    case (failed e s0)
    with step d True have "res = Ready (Err (WBackend e))" "input' = input" "s' = s1" by simp_all
    with that(2) True failed show thesis by (simp add: write_fault_def ws_safe_log)
  next
    case driven
    then have inv1: "ws_inv s1" and ph1: "ww_phase s1 = PhaseWriting"
      using True by (simp_all add: ws_moves_def)
    have safe1: "ws_safe s s1" using ws_moves_safe [OF driven(2)] by (simp add: ws_safe_log)
    obtain r2 s2 where st: "ws_start_partial fa pf cx s1 =
        (r2 :: (unit, ('x, 'e) write_error) result, s2)" by fastforce
    from ws_start_partial_outcome [OF st inv1 ph1] show thesis
    proof
      assume ok: "r2 = Ok () \<and> ws_started fa pf cx s1 s2"
      with step d driven(1) st True have "ws_fill pf cx input s2 = (res, input', s')" by simp
      moreover have safe: "ws_safe s1 s2" "ww_phase s2 = PhaseWriting"
        using ok ph1 by (simp_all add: ws_started_def)
      moreover have "ws_inv s2" using safe(1) by (simp add: ws_safe_def)
      ultimately show thesis
        using that(3) [OF True d [unfolded driven(1)] driven(2)] ok st
          ws_safe_trans [OF safe1 safe(1)]
        by blast
    next
      assume bad: "r2 = Err (WContract InvalidPartialFrame) \<and> ww_phase s2 = PhaseFailed \<and> ws_safe s1 s2"
      with step d driven(1) st True have "res = Ready (Err (WContract InvalidPartialFrame))"
        "input' = input" "s' = s2" by simp_all
      with that(2) True bad ws_safe_trans [OF safe1] show thesis by (simp add: write_fault_def)
    qed
  qed
qed

end
