(* ===== verification/Write_Queue.thy ===== *)
theory Write_Queue
  imports Write_Poll
begin

text \<open>
  The queue of destinations: \<open>push_file\<close>, \<open>pop_swap\<close>, \<open>pop_file\<close>, \<open>set_window\<close>, and the end of the
  input in \<open>poll_close\<close>, with the outcome of every branch on a well-formed state.
\<close>

section \<open>Admission\<close>

lemma ws_validate_file_cases [consumes 1, case_names zero large valid]:
  fixes res :: "(unit, ('x, 'e) write_error) result"
  assumes "ws_validate_file ops f s = res"
  obtains "wf_frame_capacity ops f = 0" "res = Err (WContract ZeroFrameCapacity)"
  | "wf_frame_capacity ops f \<noteq> 0" "0 < max_retries (ww_config s)"
      "b_total (ww_budget s) < unat (wf_frame_capacity ops f)"
      "res = Err (WContract FrameCapacityExceedsBudget)"
  | "0 < wf_frame_capacity ops f" "res = Ok ()"
      "0 < max_retries (ww_config s) \<Longrightarrow> unat (wf_frame_capacity ops f) \<le> b_total (ww_budget s)"
  using assms
  by (auto simp: ws_validate_file_def Let_def total_capacity_def write_error_from_def word_neq_0_conv
      split: if_splits)

lemma slot_new_sel [simp]:
  "w_file (slot_new ops f replay) = f" "w_state (slot_new ops f replay) = Idle"
  "w_frames (slot_new ops f replay) = frames_new replay"
  "w_capacity (slot_new ops f replay) = wf_frame_capacity ops f"
  "w_assigned (slot_new ops f replay) = 0" "w_written (slot_new ops f replay) = 0"
  "w_retries (slot_new ops f replay) = 0"
  by (simp_all add: slot_new_def)

text \<open>An unopened destination at the end of the queue changes no account.\<close>

lemma append_idle_inv:
  assumes inv: "ws_inv s" and ph: "ww_phase s = PhaseWriting"
    and slot: "w_state slot = Idle" "w_assigned slot = 0" "w_written slot = 0" "w_retries slot = 0"
      "frames_len (w_frames slot) = 0" "replays (w_frames slot) = (0 < max_retries (ww_config s))"
      "0 < w_capacity slot"
      "0 < max_retries (ww_config s) \<Longrightarrow> unat (w_capacity slot) \<le> b_total (ww_budget s)"
  shows "ws_inv (s\<lparr>ww_files := ww_files s @ [slot]\<rparr>)"
proof -
  have "slot_ok False (max_retries (ww_config s)) (b_total (ww_budget s)) slot"
    using slot by (simp add: slot_ok_defs)
  moreover have "files_layout (ww_fill_index s) (ww_files s @ [slot])"
    using inv ph slot by (auto simp: ws_inv_defs files_layout_def nth_append less_Suc_eq)
  moreover have "slot_used (max_retries (ww_config s)) slot = 0"
    using slot by (simp add: slot_used_def)
  moreover have "partial_used (s\<lparr>ww_files := ww_files s @ [slot]\<rparr>) = partial_used s"
    using inv by (auto simp: partial_used_def ws_needed_def ws_inv_defs nth_append)
  ultimately show ?thesis
    using inv ph by (auto simp: ws_inv_defs files_used_def)
qed

lemma ws_wake_safe: "ws_inv s' \<Longrightarrow> ws_safe s s' \<Longrightarrow> ws_safe s (ws_wake s')"
  by (auto simp: ws_safe_def ws_wake_def split: option.splits)

lemma ws_push_file_cases [consumes 2, case_names closed full invalid accepted]:
  fixes res :: "(unit, ('x, 'e) write_error) result"
  assumes p: "ws_push_file ops f s = (res, s')" and inv: "ws_inv s"
  obtains "ww_phase s \<noteq> PhaseWriting" "res = Err (WContract InputClosed)" "s' = s"
  | "ww_phase s = PhaseWriting" "max_active_files (window (ww_config s)) \<le> length (ww_files s)"
      "res = Err (WContract AdmissionNotReady)" "s' = s"
  | e where "ww_phase s = PhaseWriting" "length (ww_files s) < max_active_files (window (ww_config s))"
      "ws_validate_file ops f s = Err e" "res = Err e" "s' = s"
  | "ww_phase s = PhaseWriting" "length (ww_files s) < max_active_files (window (ww_config s))"
      "0 < wf_frame_capacity ops f" "res = Ok ()"
      "s' = ws_wake (s\<lparr>ww_files := ww_files s @ [slot_new ops f (max_retries (ww_config s) > 0)]\<rparr>)"
      "ws_safe s s'"
proof -
  let ?s = "s\<lparr>ww_files := ww_files s @ [slot_new ops f (max_retries (ww_config s) > 0)]\<rparr>"
  have idle: "ws_inv ?s" if "ww_phase s = PhaseWriting" "0 < wf_frame_capacity ops f"
    "0 < max_retries (ww_config s) \<Longrightarrow> unat (wf_frame_capacity ops f) \<le> b_total (ww_budget s)"
    using that by (intro append_idle_inv inv) (simp_all add: frames_len_list)
  have keep: "ws_safe s (ws_wake ?s)" if "ws_inv ?s"
    using that by (intro ws_wake_safe) (simp_all add: ws_safe_def)
  obtain v where v: "ws_validate_file ops f s = (v :: (unit, ('x, 'e) write_error) result)" by simp
  consider "ww_phase s \<noteq> PhaseWriting" | "ww_phase s = PhaseWriting" "\<not> ws_accept_file s"
    | e where "ww_phase s = PhaseWriting" "ws_accept_file s" "v = Err e"
    | "ww_phase s = PhaseWriting" "ws_accept_file s" "v = Ok ()"
    by (cases v) auto
  then show thesis
  proof cases
    case 1
    with p have "res = Err (WContract InputClosed)" "s' = s"
      by (simp_all add: ws_push_file_def write_error_from_def)
    with 1 that(1) show thesis by blast
  next
    case 2
    with p have "res = Err (WContract AdmissionNotReady)" "s' = s"
      by (simp_all add: ws_push_file_def write_error_from_def)
    with 2 that(2) show thesis by (simp add: ws_accept_file_def)
  next
    case (3 e)
    with p v have "res = Err e" "s' = s" by (simp_all add: ws_push_file_def)
    with 3 v that(3) show thesis by (simp add: ws_accept_file_def)
  next
    case 4
    with p v have s': "res = Ok ()" "s' = ws_wake ?s" by (simp_all add: ws_push_file_def)
    from v have cap: "0 < wf_frame_capacity ops f"
      "0 < max_retries (ww_config s) \<Longrightarrow> unat (wf_frame_capacity ops f) \<le> b_total (ww_budget s)"
      using 4(3) by (cases rule: ws_validate_file_cases; simp)+
    with 4 s' keep [OF idle [OF 4(1) cap]] that(4) show thesis by (simp add: ws_accept_file_def)
  qed
qed

section \<open>Taking the head\<close>

text \<open>A completed head gives no capacity back: it holds none.\<close>

lemma ws_take_head_cases [consumes 2, case_names none some]:
  assumes t: "ws_take_head s = (x, s')" and inv: "ws_inv s"
  obtains "x = None" "s' = s" "\<not> (case ww_files s of [] \<Rightarrow> False | slot # _ \<Rightarrow> slot_done slot)"
  | slot files out where "ww_files s = slot # files" "w_state slot = Closed out"
      "x = Some (slot\<lparr>w_state := Idle\<rparr>, out)" "ww_phase s \<noteq> PhaseFailed"
      "s' = s\<lparr>ww_files := files, ww_fill_index := ww_fill_index s - 1,
              ww_poll_cursor := ww_poll_cursor s - 1\<rparr>"
      "ws_inv s'" "frames_len (w_frames slot) = 0"
      "ww_phase s = PhaseWriting \<Longrightarrow> w_assigned slot = w_capacity slot"
proof (cases "ww_files s")
  case Nil
  with t have "x = None" "s' = s" by (simp_all add: ws_take_head_def)
  with Nil that(1) show thesis by simp
next
  case (Cons slot files)
  show thesis
  proof (cases "slot_done slot")
    case False
    with t Cons have "x = None" "s' = s" by (simp_all add: ws_take_head_def)
    with Cons False that(1) show thesis by simp
  next
    case True
    then obtain out where st: "w_state slot = Closed out"
      by (auto simp: slot_done_def split: file_state.splits)
    let ?s = "s\<lparr>ww_files := files, ww_fill_index := ww_fill_index s - 1,
      ww_poll_cursor := ww_poll_cursor s - 1\<rparr>"
    have s': "x = Some (slot\<lparr>w_state := Idle\<rparr>, out)" "s' = ?s"
      using t Cons True st by (simp_all add: ws_take_head_def Let_def)
    have ph: "ww_phase s \<noteq> PhaseFailed" using inv Cons by (auto simp: ws_inv_defs)
    have core: "ws_core s" using inv by (simp add: ws_inv_def)
    have slot: "slot_ok (ww_phase s = PhaseClosing) (max_retries (ww_config s))
        (b_total (ww_budget s)) slot"
      using core Cons by (simp add: ws_core_def)
    have len: "frames_len (w_frames slot) = 0" using slot st by (simp add: slot_ok_defs)
    then have used: "slot_used (max_retries (ww_config s)) slot = 0"
      using True by (simp add: slot_used_def)
    have full: "w_assigned slot = w_capacity slot" if "ww_phase s = PhaseWriting"
      using slot st that by (simp add: slot_ok_defs)
    have lay: "files_layout (ww_fill_index s) (slot # files)"
      using core ph Cons by (simp add: ws_core_def)
    have pos: "0 < ww_fill_index s \<or> files = []"
    proof (rule ccontr)
      assume bad: "\<not> (0 < ww_fill_index s \<or> files = [])"
      have "w_assigned slot < w_capacity slot"
        using lay bad unfolding files_layout_def by (auto dest: spec [of _ 0])
      moreover have "w_assigned (files ! 0) = 0"
        using lay bad unfolding files_layout_def by (auto dest: spec [of _ 1])
      moreover have "ww_phase s = PhaseWriting \<or> ww_phase s = PhaseClosing"
        using ph by (cases "ww_phase s") auto
      ultimately show False
        using full bad inv Cons nth_mem [of 0 files] by (auto simp: ws_inv_defs)
    qed
    then have lay': "files_layout (ww_fill_index s - 1) files"
      using lay by (cases "ww_fill_index s") (fastforce simp: files_layout_def)+
    have "partial_used ?s = partial_used s"
    proof (cases "ww_partial s")
      case (Some p)
      then have "ww_phase s = PhaseWriting" "ww_fill_index s < Suc (length files)"
        using inv ph Cons by (auto simp: ws_inv_defs split: phase.splits)
      moreover have "0 < ww_fill_index s"
        using pos lay full calculation by (cases "ww_fill_index s") (auto simp: files_layout_def)
      ultimately show ?thesis
        using Cons by (simp add: partial_used_def ws_needed_def nth_Cons')
    qed (simp add: partial_used_def)
    moreover have "ww_partial s \<noteq> None \<longrightarrow> ww_fill_index s - 1 < length files"
    proof
      assume "ww_partial s \<noteq> None"
      then have "ww_phase s = PhaseWriting" "ww_fill_index s < Suc (length files)"
        using inv ph Cons by (auto simp: ws_inv_defs split: phase.splits)
      then show "ww_fill_index s - 1 < length files"
        using pos lay full by (cases "ww_fill_index s") (auto simp: files_layout_def)
    qed
    ultimately have "ws_inv ?s"
      using inv Cons lay' used by (auto simp: ws_inv_defs files_used_def split: phase.splits)
    with that(2) [OF Cons st s'(1) ph] s'(2) len full show thesis by simp
  qed
qed

end
