(* ===== verification/Write_Close.thy ===== *)
theory Write_Close
  imports Write_Queue
begin

text \<open>
  Replacing and removing completed heads, changing the window, and closing: \<open>pop_swap\<close>, \<open>pop_file\<close>,
  \<open>set_window\<close> and \<open>poll_close\<close>, with the outcome of every branch on a well-formed state.
\<close>

section \<open>Completed heads\<close>

lemma ws_pop_swap_cases [consumes 2, case_names closed invalid early swapped]:
  fixes res :: "('f \<times> 'r, ('x, 'e) write_error) result"
    and ops :: "('t, 'f, 'e, 'r) write_file"
  assumes p: "ws_pop_swap ops f s = (res, s')" and inv: "ws_inv s"
  obtains "ww_phase s \<noteq> PhaseWriting" "res = Err (WContract InputClosed)" "s' = s"
  | e where "ww_phase s = PhaseWriting" "ws_validate_file ops f s = Err e" "res = Err e" "s' = s"
  | "ww_phase s = PhaseWriting" "res = Err (WContract AdmissionNotReady)" "s' = s"
      "\<not> (case ww_files s of [] \<Rightarrow> False | slot # _ \<Rightarrow> slot_done slot)"
  | slot files out new where "ww_phase s = PhaseWriting" "ww_files s = slot # files"
      "w_state slot = Closed out" "w_assigned slot = w_capacity slot"
      "res = Ok (w_file slot, out)" "0 < wf_frame_capacity ops f"
      "new = slot\<lparr>w_file := f, w_capacity := wf_frame_capacity ops f, w_assigned := 0,
         w_written := 0, w_retries := 0, w_state := Idle\<rparr>"
      "s' = ws_wake (s\<lparr>ww_fill_index := ww_fill_index s - 1,
              ww_poll_cursor := ww_poll_cursor s - 1, ww_files := files @ [new]\<rparr>)"
      "ws_safe s s'"
proof -
  obtain v where v: "ws_validate_file ops f s = (v :: (unit, ('x, 'e) write_error) result)" by simp
  obtain x s1 where t: "ws_take_head s = (x, s1)" by fastforce
  let ?done = "case ww_files s of [] \<Rightarrow> False | slot # _ \<Rightarrow> slot_done slot"
  consider "ww_phase s \<noteq> PhaseWriting" | e where "ww_phase s = PhaseWriting" "v = Err e"
    | "ww_phase s = PhaseWriting" "v = Ok ()" "\<not> ?done"
    | "ww_phase s = PhaseWriting" "v = Ok ()" "?done"
    by (cases v) auto
  then show thesis
  proof cases
    case 1
    with p have "res = Err (WContract InputClosed)" "s' = s"
      by (simp_all add: ws_pop_swap_def write_error_from_def)
    with 1 that(1) show thesis by blast
  next
    case (2 e)
    with p v have "res = Err e" "s' = s" by (simp_all add: ws_pop_swap_def)
    with 2 v that(2) show thesis by blast
  next
    case 3
    with p v have "res = Err (WContract AdmissionNotReady)" "s' = s"
      by (simp_all add: ws_pop_swap_def write_error_from_def)
    with 3 that(3) show thesis by blast
  next
    case 4
    from v have cap: "0 < wf_frame_capacity ops f"
      "0 < max_retries (ww_config s) \<Longrightarrow> unat (wf_frame_capacity ops f) \<le> b_total (ww_budget s)"
      using 4(2) by (cases rule: ws_validate_file_cases; simp)+
    from t inv show thesis
    proof (cases rule: ws_take_head_cases)
      case none
      with 4 show thesis by simp
    next
      case (some slot files out)
      let ?new = "slot\<lparr>w_file := f, w_capacity := wf_frame_capacity ops f, w_assigned := 0,
         w_written := 0, w_retries := 0, w_state := Idle\<rparr>"
      let ?s = "s\<lparr>ww_fill_index := ww_fill_index s - 1,
              ww_poll_cursor := ww_poll_cursor s - 1, ww_files := files @ [?new]\<rparr>"
      have "(res, s') = (Ok (w_file slot, out), ws_wake ?s)"
        using p v 4 t some(1,3,5) unfolding ws_pop_swap_def Let_def by auto
      then have s': "res = Ok (w_file slot, out)" "s' = ws_wake ?s" by simp_all
      have "replays (w_frames slot) = (0 < max_retries (ww_config s))"
        using inv some(1) by (simp add: ws_inv_defs slot_ok_def)
      then have "ws_inv (s1\<lparr>ww_files := ww_files s1 @ [?new]\<rparr>)"
        using 4(1) some cap by (intro append_idle_inv) (simp_all add: some(5))
      then have "ws_inv ?s" using some(5) by simp
      then have "ws_safe s s'" unfolding s'(2) by (intro ws_wake_safe) (simp_all add: ws_safe_def)
      with that(4) [OF 4(1) some(1,2) some(8) [OF 4(1)] s'(1) cap(1) refl s'(2)]
      show thesis by blast
    qed
  qed
qed

lemma ws_pop_file_cases [consumes 2, case_names closed none popped]:
  fixes res :: "(('f \<times> 'r) option, ('x, 'e) write_error) result"
  assumes p: "ws_pop_file s = (res, s')" and inv: "ws_inv s"
  obtains "ww_phase s \<noteq> PhaseClosing" "res = Err (WContract InputClosed)" "s' = s"
  | "ww_phase s = PhaseClosing" "res = Ok None" "s' = s"
      "\<not> (case ww_files s of [] \<Rightarrow> False | slot # _ \<Rightarrow> slot_done slot)"
  | slot files out where "ww_phase s = PhaseClosing" "ww_files s = slot # files"
      "w_state slot = Closed out" "res = Ok (Some (w_file slot, out))"
      "s' = ws_wake (s\<lparr>ww_files := files, ww_fill_index := ww_fill_index s - 1,
              ww_poll_cursor := ww_poll_cursor s - 1\<rparr>)"
      "ws_safe s s'"
proof (cases "ww_phase s = PhaseClosing")
  case False
  with p have "res = Err (WContract InputClosed)" "s' = s"
    by (simp_all add: ws_pop_file_def write_error_from_def)
  with False that(1) show thesis by blast
next
  case True
  obtain x s1 where t: "ws_take_head s = (x, s1)" by fastforce
  from t inv show thesis
  proof (cases rule: ws_take_head_cases)
    case none
    with p t True have "res = Ok None" "s' = s" by (simp_all add: ws_pop_file_def)
    with True none that(2) show thesis by blast
  next
    case (some slot files out)
    with p t True have s': "res = Ok (Some (w_file slot, out))" "s' = ws_wake s1"
      by (simp_all add: ws_pop_file_def)
    have "ws_safe s (ws_wake s1)"
      using some(5,6) by (intro ws_wake_safe) (simp_all add: ws_safe_def)
    with that(3) [OF True some(1,2)] s' some(5) show thesis by simp
  qed
qed

section \<open>The window\<close>

lemma ws_set_window_cases [consumes 2, case_names invalid accepted]:
  assumes p: "ws_set_window w s = (res, s')" and inv: "ws_inv s"
  obtains e where "\<not> valid_window w" "window_validate w = Err e" "res = Err e" "s' = s"
  | "valid_window w" "res = Ok ()" "ws_safe s s'" "ww_files s' = ww_files s"
      "ww_partial s' = ww_partial s" "ww_config s' = (ww_config s)\<lparr>window := w\<rparr>"
      "ww_phase s' = ww_phase s" "ww_fill_index s' = ww_fill_index s" "ww_used s' = ww_used s"
      "ww_allocator s' = ww_allocator s" "ww_waker s' = None"
      "p_capacity (ww_permit s') = min (p_capacity (ww_permit s)) (max (target_frames w) (ww_used s))"
proof (cases "valid_window w")
  case False
  then obtain e where "window_validate w = Err e" by (auto simp: window_validate_cases)
  moreover from this p have "res = Err e" "s' = s" by (simp_all add: ws_set_window_def)
  ultimately show thesis using that(1) [OF False] by blast
next
  case True
  let ?s = "s\<lparr>ww_config := (ww_config s)\<lparr>window := w\<rparr>\<rparr>"
  let ?n = "min (p_capacity (ww_permit s)) (max (target_frames w) (ww_used s))"
  have s': "res = Ok ()" "s' = ws_wake (ws_shrink_to ?n ?s)"
    using p True by (simp_all add: ws_set_window_def window_validate_cases Let_def)
  have inv': "ws_inv ?s"
    using inv True
    by (cases "ww_phase s") (auto simp: ws_inv_defs partial_used_def ws_needed_def files_used_def)
  have ws_used_le: "ww_used ?s \<le> ?n" using ws_inv_valid [OF inv] by simp
  have "ws_safe ?s (ws_shrink_to ?n ?s)"
    by (rule ws_moves_safe [OF ws_shrink_to_moves [OF inv' ws_used_le]])
  then have "ws_safe s s'"
    unfolding s'(2) by (intro ws_wake_safe) (simp_all add: ws_safe_def)
  with that(2) [OF True s'(1)] s'(2) show thesis by simp
qed

section \<open>Closing\<close>

lemma drop_unused_append:
  "\<exists>unused. files = drop_unused files @ unused \<and> (\<forall>slot \<in> set unused. w_assigned slot = 0) \<and>
     (drop_unused files \<noteq> [] \<longrightarrow> w_assigned (last (drop_unused files)) \<noteq> 0)"
proof (intro exI conjI)
  let ?P = "\<lambda>slot. w_assigned slot = 0"
  have "rev files = takeWhile ?P (rev files) @ dropWhile ?P (rev files)" by simp
  then show "files = drop_unused files @ rev (takeWhile ?P (rev files))"
    unfolding drop_unused_def by (metis rev_append rev_rev_ident)
  show "\<forall>slot \<in> set (rev (takeWhile ?P (rev files))). w_assigned slot = 0"
    by (auto dest: set_takeWhileD)
  show "drop_unused files \<noteq> [] \<longrightarrow> w_assigned (last (drop_unused files)) \<noteq> 0"
    using hd_dropWhile [of ?P "rev files"] by (simp add: drop_unused_def last_rev)
qed

lemma drop_unused_layout:
  assumes lay: "files_layout fi files" and pos: "\<forall>slot \<in> set files. 0 < w_capacity slot"
  shows "files_layout fi (drop_unused files)" "\<forall>slot \<in> set (drop_unused files). w_assigned slot \<noteq> 0"
proof -
  obtain unused where files: "files = drop_unused files @ unused"
    and un: "\<forall>slot \<in> set unused. w_assigned slot = 0"
    and last: "drop_unused files \<noteq> [] \<longrightarrow> w_assigned (last (drop_unused files)) \<noteq> 0"
    using drop_unused_append by blast
  let ?k = "length (drop_unused files)"
  have nth: "files ! i = drop_unused files ! i" if "i < ?k" for i
    using files that by (metis nth_append)
  have len: "?k \<le> length files" using files by (metis length_append le_add1)
  have "fi \<le> ?k"
  proof (rule ccontr)
    assume "\<not> fi \<le> ?k"
    then have "?k < fi" "?k < length files" using lay by (auto simp: files_layout_def)
    moreover from this have "files ! ?k \<in> set unused"
      using files by (metis length_append nth_append_length_plus add_0_right nth_mem nat_add_left_cancel_less)
    moreover from calculation have "w_assigned (files ! ?k) = w_capacity (files ! ?k)"
      using lay unfolding files_layout_def by blast
    ultimately show False using un pos by (metis nth_mem less_irrefl)
  qed
  then show "files_layout fi (drop_unused files)"
    using lay len unfolding files_layout_def by (auto simp: nth [symmetric] dest: spec [of _ fi])
  show "\<forall>slot \<in> set (drop_unused files). w_assigned slot \<noteq> 0"
  proof
    fix slot assume "slot \<in> set (drop_unused files)"
    then obtain i where i: "i < ?k" "slot = drop_unused files ! i" by (auto simp: in_set_conv_nth)
    then have "drop_unused files \<noteq> []" by auto
    then have "w_assigned (files ! (?k - 1)) \<noteq> 0" using last nth [of "?k - 1"] i by (simp add: last_conv_nth)
    then have "?k - 1 \<le> fi" using lay len i by (auto simp: files_layout_def not_less [symmetric])
    then have "i < fi \<or> i = ?k - 1" using i by linarith
    then show "w_assigned slot \<noteq> 0"
    proof
      assume "i < fi"
      then have "w_assigned slot = w_capacity slot"
        using lay i len by (auto simp: files_layout_def nth [symmetric])
      moreover have "slot \<in> set files" using nth i len by (metis nth_mem less_le_trans)
      ultimately show ?thesis using pos by auto
    next
      assume "i = ?k - 1"
      with i nth \<open>w_assigned (files ! (?k - 1)) \<noteq> 0\<close> show ?thesis by simp
    qed
  qed
qed

lemma slot_ok_closing: "slot_ok False limit tot slot \<Longrightarrow> slot_ok True limit tot slot"
  by (auto simp: slot_ok_defs split: file_state.splits)

text \<open>Ending the input: the partial frame is sent or dropped, and so are untouched destinations.\<close>

lemma ws_begin_close_outcome:
  fixes res :: "(unit, ('x, 'e) write_error) result"
  assumes b: "ws_begin_close pf s = (res, s')" and inv: "ws_inv s" and ph: "ww_phase s = PhaseWriting"
  shows "\<exists>s1. ws_flush_partial pf (s\<lparr>ww_phase := PhaseClosing\<rparr>) =
        (Ok () :: (unit, ('x, 'e) write_error) result, s1) \<and>
      res = Ok () \<and> ws_safe s s' \<and> ww_files s' = drop_unused (ww_files s1) \<and>
      ww_phase s' = PhaseClosing \<and> ww_partial s' = None \<and> ww_config s' = ww_config s \<and>
      map w_capacity (ww_files s1) = map w_capacity (ww_files s) \<and>
      p_capacity (ww_permit s') = ww_used s' \<and> ww_allocator s' = ww_allocator s1"
proof -
  let ?s = "s\<lparr>ww_phase := PhaseClosing\<rparr>"
  let ?limit = "max_retries (ww_config s)" and ?tot = "b_total (ww_budget s)"
  obtain r s1 where f: "ws_flush_partial pf ?s = (r :: (unit, ('x, 'e) write_error) result, s1)"
    by fastforce
  have full: "\<forall>slot \<in> set (ww_files s). slot_full_ok False slot" by (rule ws_inv_writing_full [OF inv ph])
  have core: "ws_core ?s"
    using inv ph by (auto simp: ws_inv_def ws_core_def partial_used_def ws_needed_def slot_ok_closing)
  have "ww_phase ?s \<noteq> PhaseFailed" by simp
  note fl = ws_flush_core [OF f core this, simplified, OF full]
  have cfg: "ww_config s1 = ww_config s" "ww_phase s1 = PhaseClosing" "ww_budget s1 = ww_budget s"
    "ww_permit s1 = ww_permit s" using fl by simp_all
  let ?s2 = "s1\<lparr>ww_files := drop_unused (ww_files s1)\<rparr>"
  have s': "res = Ok ()" "s' = ws_shrink_to (ww_used s1) ?s2"
    using b f fl(1) ph unfolding ws_begin_close_def Let_def by auto
  obtain unused where app: "ww_files s1 = drop_unused (ww_files s1) @ unused"
    and un: "\<forall>slot \<in> set unused. w_assigned slot = 0"
    using drop_unused_append by blast
  have ok: "\<forall>slot \<in> set (ww_files s1). slot_ok True ?limit ?tot slot"
    using fl(2) cfg by (simp add: ws_core_def)
  then have ok_parts: "\<forall>slot \<in> set (drop_unused (ww_files s1)). slot_ok True ?limit ?tot slot"
    "\<forall>slot \<in> set unused. slot_ok True ?limit ?tot slot"
    using app by (metis Un_iff set_append)+
  have "slot_used ?limit slot = 0" if "slot \<in> set unused" for slot
    using that un ok_parts(2) slot_ok_unassigned by blast
  then have "files_used ?limit unused = 0" by (simp add: files_used_def sum_list_eq_0_iff)
  moreover have "files_used ?limit (ww_files s1) =
      files_used ?limit (drop_unused (ww_files s1)) + files_used ?limit unused"
    using arg_cong [OF app, of "files_used ?limit"] by (simp add: files_used_def)
  ultimately have used: "files_used ?limit (drop_unused (ww_files s1)) = files_used ?limit (ww_files s1)"
    by simp
  have lay: "files_layout (ww_fill_index s1) (ww_files s1)" using fl(2) cfg by (simp add: ws_core_def)
  have pos: "\<forall>slot \<in> set (ww_files s1). 0 < w_capacity slot" using ok by (simp add: slot_ok_def)
  have "ws_inv ?s2"
    using fl(2,4) cfg used ok_parts(1) drop_unused_layout [OF lay pos]
    by (auto simp: ws_inv_defs partial_used_def)
  from ws_shrink_to_moves [OF this, of "ww_used s1" False "\<lambda>_ _. True"]
  have "ws_moves False (\<lambda>_ _. True) ?s2 s'" using s'(2) by simp
  from ws_moves_safe [OF this] have safe: "ws_safe s s'" using cfg by (simp add: ws_safe_def)
  have "ww_used s1 \<le> p_capacity (ww_permit s1)" using fl(2) by (simp add: ws_core_def)
  then show ?thesis using f fl(1,4,10) s' safe cfg by auto
qed

lemma ws_poll_close_cases [consumes 2, case_names closed failed completed pending]:
  fixes res :: "(nat, ('x, 'e) write_error) result poll"
    and s s' :: "('t, 'f, 'r, 'a, 'p) writer"
  assumes p: "ws_poll_close ops pf cx s = (res, s')" and inv: "ws_inv s"
  obtains "ww_phase s = PhaseFailed" "res = Ready (Err (WContract InputClosed))"
      "s' = s\<lparr>ww_waker := None\<rparr>"
  | e where "ww_phase s \<noteq> PhaseFailed" "res = Ready (Err (WBackend e))"
      "ww_phase s' = PhaseFailed" "ws_safe s s'"
  | s1 where "ww_phase s \<noteq> PhaseFailed"
      "ws_begin_close pf (s\<lparr>ww_waker := None\<rparr>) = (Ok () :: (unit, ('x, 'e) write_error) result, s1)"
      "ws_moves (write_file_contract ops rep init add committed)
         (slot_holds rep init add committed) s1 s'"
      "ww_phase s1 = PhaseClosing" "ws_safe s s1" "ws_safe s s'"
      "ws_drive ops cx s1 = (Ok () :: (unit, ('x, 'e) write_error) result, s')"
      "res = Ready (Ok (completed_files (ww_files s')))"
      "0 < completed_files (ww_files s') \<or> ww_files s' = []"
  | s1 s2 where "ww_phase s \<noteq> PhaseFailed"
      "ws_begin_close pf (s\<lparr>ww_waker := None\<rparr>) = (Ok () :: (unit, ('x, 'e) write_error) result, s1)"
      "ws_moves (write_file_contract ops rep init add committed)
         (slot_holds rep init add committed) s1 s2"
      "ww_phase s1 = PhaseClosing" "ws_safe s s1" "ws_safe s s'"
      "ws_drive ops cx s1 = (Ok () :: (unit, ('x, 'e) write_error) result, s2)"
      "res = Pending" "s' = s2\<lparr>ww_waker := Some cx\<rparr>"
      "completed_files (ww_files s2) = 0" "ww_files s2 \<noteq> []"
proof (cases "ww_phase s = PhaseFailed")
  case True
  with p have "res = Ready (Err (WContract InputClosed))" "s' = s\<lparr>ww_waker := None\<rparr>"
    by (simp_all add: ws_poll_close_def Let_def write_error_from_def)
  with True that(1) show thesis by blast
next
  case False
  let ?s = "s\<lparr>ww_waker := None\<rparr>"
  obtain r s1 where b: "ws_begin_close pf ?s = (r :: (unit, ('x, 'e) write_error) result, s1)"
    by fastforce
  have begun: "r = Ok () \<and> ws_safe s s1 \<and> ww_phase s1 = PhaseClosing"
  proof (cases "ww_phase s = PhaseWriting")
    case True
    with ws_begin_close_outcome [OF b] inv show ?thesis by (auto simp: ws_safe_log)
  next
    case writing: False
    with False have "ww_phase s = PhaseClosing" by (cases "ww_phase s") auto
    with b inv show ?thesis by (auto simp: ws_begin_close_def ws_safe_log ws_safe_refl)
  qed
  then have inv1: "ws_inv s1" by (simp add: ws_safe_def)
  obtain r2 s2 where d: "ws_drive ops cx s1 = (r2 :: (unit, ('x, 'e) write_error) result, s2)"
    by fastforce
  note step = p [unfolded ws_poll_close_def Let_def]
  note safe1 = conjunct1 [OF conjunct2 [OF begun]]
  from d inv1 show thesis
  proof (cases rule: ws_drive_cases [where rep = rep and init = init and add = add
        and committed = committed])
    case (failed e s0)
    with step b d begun False have "res = Ready (Err (WBackend e))" "s' = s2" by simp_all
    with that(2) [OF False] failed ws_safe_trans [OF safe1] show thesis by simp
  next
    case driven
    have safe2: "ws_safe s s2" by (rule ws_safe_trans [OF safe1 ws_moves_safe [OF driven(2)]])
    show thesis
    proof (cases "completed_files (ww_files s2) > 0 \<or> ww_files s2 = []")
      case True
      with step b d begun False driven(1)
      have "res = Ready (Ok (completed_files (ww_files s2)))" "s' = s2" by auto
      with that(3) [OF False] b d begun driven safe1 safe2 True show thesis by simp
    next
      case more: False
      with step b d begun False driven(1)
      have "res = Pending" "s' = s2\<lparr>ww_waker := Some cx\<rparr>" by (auto simp: ws_wait_def)
      with that(4) [OF False] b d begun driven safe1 safe2 more show thesis
        by (simp add: ws_safe_log)
    qed
  qed
qed

end
