(* ===== verification/Write_Run.thy ===== *)
theory Write_Run
  imports Write_Close Pool_Client
begin

text \<open>
  Runs of a write scheduler on a budget that it shares: the caller's operations in any order, each
  with its result, and between them any steps of the other permits of the pool. What was consumed
  from the input, which destinations were accepted and which results were handed back is read off
  the list of events.
\<close>

section \<open>Events and steps\<close>

datatype ('i, 'o, 'f, 'r, 'e, 'x) write_event =
    WPush 'f "(unit, ('x, 'e) write_error) result"
  | WWindow window "(unit, contract_error) result"
  | WWrite waker 'i "('o write_status, ('x, 'e) write_error) result poll" 'i
  | WSwap 'f "('f \<times> 'r, ('x, 'e) write_error) result"
  | WClose waker "(nat, ('x, 'e) write_error) result poll"
  | WPop "(('f \<times> 'r) option, ('x, 'e) write_error) result"
  | WOther pool_event

text \<open>The pool that the writer draws on: the others' capacities and its own.\<close>

definition ws_pool :: "('t, 'f, 'r, 'a, 'p) writer \<times> (rid \<Rightarrow> nat) \<Rightarrow> pool" where
  "ws_pool x = (ww_budget (fst x),
     (snd x)(p_request (ww_permit (fst x)) := p_capacity (ww_permit (fst x))))"

inductive ws_step ::
    "('t, 'f, 'e, 'r) write_file \<Rightarrow> ('a, 'p) frame_allocator \<Rightarrow> ('p, 'i, 'o, 't, 'x) partial_frame
      \<Rightarrow> ('t, 'f, 'r, 'a, 'p) writer \<times> (rid \<Rightarrow> nat) \<Rightarrow> ('i, 'o, 'f, 'r, 'e, 'x) write_event
      \<Rightarrow> ('t, 'f, 'r, 'a, 'p) writer \<times> (rid \<Rightarrow> nat) \<Rightarrow> bool"
  for ops fa pf where
  push: "ws_push_file ops f s = (res, s') \<Longrightarrow> ws_step ops fa pf (s, caps) (WPush f res) (s', caps)"
| set_window: "ws_set_window w s = (res, s') \<Longrightarrow>
    ws_step ops fa pf (s, caps) (WWindow w res) (s', caps)"
| poll_write: "ws_poll_write ops fa pf cx input s = (res, input', s') \<Longrightarrow>
    ws_step ops fa pf (s, caps) (WWrite cx input res input') (s', caps)"
| pop_swap: "ws_pop_swap ops f s = (res, s') \<Longrightarrow>
    ws_step ops fa pf (s, caps) (WSwap f res) (s', caps)"
| poll_close: "ws_poll_close ops pf cx s = (res, s') \<Longrightarrow>
    ws_step ops fa pf (s, caps) (WClose cx res) (s', caps)"
| pop_file: "ws_pop_file s = (res, s') \<Longrightarrow> ws_step ops fa pf (s, caps) (WPop res) (s', caps)"
| others: "pool_step (ws_pool (s, caps)) ev (b', caps') \<Longrightarrow>
    event_rid ev \<noteq> Some (p_request (ww_permit s)) \<Longrightarrow>
    ws_step ops fa pf (s, caps) (WOther ev) (s\<lparr>ww_budget := b'\<rparr>, caps')"

inductive ws_run ::
    "('t, 'f, 'e, 'r) write_file \<Rightarrow> ('a, 'p) frame_allocator \<Rightarrow> ('p, 'i, 'o, 't, 'x) partial_frame
      \<Rightarrow> nat \<Rightarrow> 'a \<Rightarrow> ('i, 'o, 'f, 'r, 'e, 'x) write_event list
      \<Rightarrow> ('t, 'f, 'r, 'a, 'p) writer \<times> (rid \<Rightarrow> nat) \<Rightarrow> bool"
  for ops fa pf n allocator where
  created: "pool_reachable n (b, caps) \<Longrightarrow> ws_new allocator b config = Ok s \<Longrightarrow>
    ws_run ops fa pf n allocator [] (s, caps)"
| stepped: "ws_run ops fa pf n allocator evs x \<Longrightarrow> ws_step ops fa pf x ev y \<Longrightarrow> ws_run ops fa pf n allocator (evs @ [ev]) y"

section \<open>Reading a run\<close>

text \<open>Destinations accepted, in order; what is handed back, destination and result, in order; input reported as consumed.\<close>

fun accepted_destination :: "('i, 'o, 'f, 'r, 'e, 'x) write_event \<Rightarrow> 'f list" where
  "accepted_destination (WPush f (Ok u)) = [f]"
| "accepted_destination (WSwap f (Ok x)) = [f]"
| "accepted_destination _ = []"

fun returned_result :: "('i, 'o, 'f, 'r, 'e, 'x) write_event \<Rightarrow> ('f \<times> 'r) list" where
  "returned_result (WSwap f (Ok x)) = [x]"
| "returned_result (WPop (Ok (Some x))) = [x]"
| "returned_result _ = []"

fun consumed_input ::
    "('o \<Rightarrow> 'i \<Rightarrow> 'y list) \<Rightarrow> ('i, 'o, 'f, 'r, 'e, 'x) write_event \<Rightarrow> 'y list" where
  "consumed_input taken (WWrite cx input (Ready (Ok status)) input') =
     (case ws_output status of None \<Rightarrow> [] | Some out \<Rightarrow> taken out input)"
| "consumed_input taken _ = []"

definition accepted_destinations :: "('i, 'o, 'f, 'r, 'e, 'x) write_event list \<Rightarrow> 'f list" where
  "accepted_destinations evs = concat (map accepted_destination evs)"

definition returned_results :: "('i, 'o, 'f, 'r, 'e, 'x) write_event list \<Rightarrow> ('f \<times> 'r) list" where
  "returned_results evs = concat (map returned_result evs)"

definition consumed_inputs ::
    "('o \<Rightarrow> 'i \<Rightarrow> 'y list) \<Rightarrow> ('i, 'o, 'f, 'r, 'e, 'x) write_event list \<Rightarrow> 'y list" where
  "consumed_inputs taken evs = concat (map (consumed_input taken) evs)"

definition capacities ::
    "('t, 'f, 'e, 'r) write_file \<Rightarrow> ('i, 'o, 'f, 'r, 'e, 'x) write_event list \<Rightarrow> nat list" where
  "capacities ops evs = map (\<lambda>f. unat (wf_frame_capacity ops f)) (accepted_destinations evs)"

lemmas write_reading_defs =
  accepted_destinations_def returned_results_def consumed_inputs_def capacities_def

lemma write_reading_Nil [simp]:
  "accepted_destinations [] = []" "returned_results [] = []" "consumed_inputs taken [] = []"
  "capacities ops [] = []"
  by (simp_all add: write_reading_defs)

lemma write_reading_snoc [simp]:
  "accepted_destinations (evs @ [ev]) = accepted_destinations evs @ accepted_destination ev"
  "returned_results (evs @ [ev]) = returned_results evs @ returned_result ev"
  "consumed_inputs taken (evs @ [ev]) = consumed_inputs taken evs @ consumed_input taken ev"
  "capacities ops (evs @ [ev]) = capacities ops evs @
     map (\<lambda>f. unat (wf_frame_capacity ops f)) (accepted_destination ev)"
  by (simp_all add: write_reading_defs)

section \<open>The invariant of runs\<close>

definition write_state :: "nat \<Rightarrow> ('t, 'f, 'r, 'a, 'p) writer \<times> (rid \<Rightarrow> nat) \<Rightarrow> bool" where
  "write_state n x \<longleftrightarrow>
     ws_inv (fst x) \<and> client_ok n (ww_permit (fst x)) (ww_budget (fst x)) (snd x)"

lemma write_state_safe:
  assumes "write_state n (s, caps)" "ws_safe s s'"
  shows "write_state n (s', caps)"
  using assms client_run [of n "ww_permit s" "ww_budget s" caps]
  by (simp add: write_state_def ws_safe_def)

lemma ws_poll_write_safe:
  assumes p: "ws_poll_write ops fa pf cx input s = (res, input', s')" and inv: "ws_inv s"
  shows "ws_safe s s'"
  using p inv
proof (cases rule: ws_poll_write_cases [where rep = "\<lambda>_ _. True" and init = "()" and add = "\<lambda>_ _. ()"
      and committed = "\<lambda>_. ()"])
  case closed
  with inv show ?thesis by (simp add: ws_safe_def)
next
  case (filled s1 s2)
  from filled(5,7,8) have "ws_safe s2 s'"
  proof (cases rule: ws_fill_cases)
    case none
    from ws_reports_frame(10) [OF none(2)] filled(7) show ?thesis by (simp add: ws_safe_refl)
  next
    case (pending p p')
    have "ws_safe s2 (s2\<lparr>ww_partial := Some p'\<rparr>)"
      using ws_partial_inv [OF filled(7) pending(1)] by (simp add: ws_safe_def)
    with ws_reports_frame(10) [OF pending(3)] show ?thesis by simp
  qed
  with filled(6) show ?thesis by (rule ws_safe_trans)
qed

lemma ws_poll_close_safe:
  assumes p: "ws_poll_close ops pf cx s = (res, s')" and inv: "ws_inv s"
  shows "ws_safe s s'"
  using p inv
  by (cases rule: ws_poll_close_cases [where rep = "\<lambda>_ _. True" and init = "()" and add = "\<lambda>_ _. ()"
      and committed = "\<lambda>_. ()"])
    (use inv in \<open>simp_all add: ws_safe_def\<close>)

lemma ws_step_safe:
  assumes "ws_step ops fa pf (s, caps) ev (s', caps')" "ws_inv s"
  shows "ws_safe s s' \<or> (\<exists>e b'. ev = WOther e \<and> s' = s\<lparr>ww_budget := b'\<rparr>)"
  using assms
proof (cases rule: ws_step.cases)
  case (push f res)
  from push(3) assms(2) show ?thesis
    by (cases rule: ws_push_file_cases) (use push assms(2) in \<open>auto simp: ws_safe_refl\<close>)
next
  case (set_window w res)
  from set_window(3) assms(2) show ?thesis
    by (cases rule: ws_set_window_cases) (use set_window assms(2) in \<open>auto simp: ws_safe_refl\<close>)
next
  case (poll_write cx input res input')
  from ws_poll_write_safe [OF poll_write(3) assms(2)] show ?thesis by simp
next
  case (pop_swap f res)
  from pop_swap(3) assms(2) show ?thesis
    by (cases rule: ws_pop_swap_cases) (use pop_swap assms(2) in \<open>auto simp: ws_safe_refl\<close>)
next
  case (poll_close cx res)
  from ws_poll_close_safe [OF poll_close(3) assms(2)] show ?thesis by simp
next
  case (pop_file res)
  from pop_file(3) assms(2) show ?thesis
    by (cases rule: ws_pop_file_cases) (use pop_file assms(2) in \<open>auto simp: ws_safe_refl\<close>)
next
  case (others e b')
  then show ?thesis by blast
qed

lemma ws_step_state:
  assumes st: "ws_step ops fa pf x ev y" and ok: "write_state n x"
  shows "write_state n y"
proof -
  obtain s caps s' caps' where xy: "x = (s, caps)" "y = (s', caps')" by fastforce
  have inv: "ws_inv s" using ok by (simp add: xy write_state_def)
  show ?thesis
  proof (cases "\<exists>e. ev = WOther e")
    case False
    then have "ws_safe s s'" using ws_step_safe [OF st [unfolded xy] inv] by auto
    moreover have "caps' = caps" using st [unfolded xy] False by (cases rule: ws_step.cases) auto
    ultimately show ?thesis using write_state_safe ok by (simp add: xy)
  next
    case True
    from st [unfolded xy] True show ?thesis
    proof (cases rule: ws_step.cases)
      case (others e b')
      have c: "client_ok n (ww_permit s) (ww_budget s) caps" using ok by (simp add: xy write_state_def)
      have "pool_step (ww_budget s, caps(p_request (ww_permit s) := p_capacity (ww_permit s))) e
          (b', caps')"
        using others(3) by (simp add: ws_pool_def)
      from client_other [OF c others(4) this] client_capacity(2) [OF c]
      have c': "client_ok n (ww_permit s) b' caps'" "b_total b' = b_total (ww_budget s)"
        using client_capacity(2) by auto
      with others(2) inv show ?thesis
        by (cases "ww_phase s")
          (auto simp: xy write_state_def ws_inv_defs partial_used_def ws_needed_def files_used_def)
    qed auto
  qed
qed

lemma ws_new_cases:
  assumes "ws_new allocator b config = Ok s"
  shows "ws_inv s" "permit_new b = (ww_permit s, ww_budget s)" "ww_files s = []"
    "ww_phase s = PhaseWriting" "ww_partial s = None" "ww_config s = config" "0 < b_total b"
    "ww_fill_index s = 0" "ww_wakes s = []" "ww_waker s = None" "ww_allocator s = allocator"
  using assms
  by (auto simp: ws_new_def total_capacity_def Let_def window_validate_cases permit_new_def
      ws_inv_defs files_layout_def files_used_def partial_used_def
      split: result.splits if_splits)

lemma ws_run_state: "ws_run ops fa pf n allocator evs x \<Longrightarrow> write_state n x"
proof (induction rule: ws_run.induct)
  case (created b caps config s)
  from ws_new_cases [OF created(2)] client_new [OF created(1)] show ?case
    by (simp add: write_state_def)
qed (auto intro: ws_step_state)

section \<open>After a failure\<close>

text \<open>
  The answers of a failed scheduler. What it is asked to take or to hand back it refuses with
  \<open>InputClosed\<close>; \<open>set_window\<close> does not look at the phase, and still answers by the window alone.
  Steps of the other permits have no answer.
\<close>

fun failed_answer :: "('i, 'o, 'f, 'r, 'e, 'x) write_event \<Rightarrow> bool" where
  "failed_answer (WPush f res) = (res = Err (WContract InputClosed))"
| "failed_answer (WWrite cx input res input') = (res = Ready (Err (WContract InputClosed)) \<and> input' = input)"
| "failed_answer (WSwap f res) = (res = Err (WContract InputClosed))"
| "failed_answer (WClose cx res) = (res = Ready (Err (WContract InputClosed)))"
| "failed_answer (WPop res) = (res = Err (WContract InputClosed))"
| "failed_answer (WWindow w res) = (res = (if valid_window w then Ok () else Err InvalidWindow))"
| "failed_answer (WOther e) = True"

lemma ws_step_failed:
  assumes st: "ws_step ops fa pf (s, caps) ev (s', caps')" and inv: "ws_inv s"
    and failed: "ww_phase s = PhaseFailed"
  shows "failed_answer ev" "ww_phase s' = PhaseFailed"
proof -
  have "failed_answer ev \<and> ww_phase s' = PhaseFailed"
    using st
  proof (cases rule: ws_step.cases)
    case (push f res)
    from push(3) inv show ?thesis
      by (cases rule: ws_push_file_cases) (use push(1) failed in simp_all)
  next
    case (set_window w res)
    from set_window(3) inv show ?thesis
      by (cases rule: ws_set_window_cases)
        (use set_window(1) failed in \<open>simp_all add: window_validate_cases\<close>)
  next
    case (poll_write cx input res input')
    with failed show ?thesis by (auto simp: ws_poll_write_def Let_def write_error_from_def)
  next
    case (pop_swap f res)
    from pop_swap(3) inv show ?thesis
      by (cases rule: ws_pop_swap_cases) (use pop_swap(1) failed in simp_all)
  next
    case (poll_close cx res)
    with failed show ?thesis by (auto simp: ws_poll_close_def Let_def write_error_from_def)
  next
    case (pop_file res)
    from pop_file(3) inv show ?thesis
      by (cases rule: ws_pop_file_cases) (use pop_file(1) failed in simp_all)
  next
    case (others e b')
    with failed show ?thesis by simp
  qed
  then show "failed_answer ev" "ww_phase s' = PhaseFailed" by simp_all
qed

lemma failed_answer_reading:
  assumes "failed_answer ev"
  shows "accepted_destination ev = []" "returned_result ev = []" "consumed_input taken ev = []"
  using assms by (cases ev; simp)+

section \<open>Runs as functions, to evaluate examples\<close>

datatype ('i, 'f) write_command =
    DoAdmit 'f
  | DoResize window
  | DoFill waker 'i
  | DoSwap 'f
  | DoFinish waker
  | DoTake

fun ws_exec1 ::
    "('t, 'f, 'e, 'r) write_file \<Rightarrow> ('a, 'p) frame_allocator \<Rightarrow> ('p, 'i, 'o, 't, 'x) partial_frame
      \<Rightarrow> ('t, 'f, 'r, 'a, 'p) writer \<Rightarrow> ('i, 'f) write_command
      \<Rightarrow> ('i, 'o, 'f, 'r, 'e, 'x) write_event \<times> ('t, 'f, 'r, 'a, 'p) writer" where
  "ws_exec1 ops fa pf s (DoAdmit f) = (let (res, s') = ws_push_file ops f s in (WPush f res, s'))"
| "ws_exec1 ops fa pf s (DoResize w) = (let (res, s') = ws_set_window w s in (WWindow w res, s'))"
| "ws_exec1 ops fa pf s (DoFill cx input) =
     (let (res, input', s') = ws_poll_write ops fa pf cx input s in (WWrite cx input res input', s'))"
| "ws_exec1 ops fa pf s (DoSwap f) = (let (res, s') = ws_pop_swap ops f s in (WSwap f res, s'))"
| "ws_exec1 ops fa pf s (DoFinish cx) = (let (res, s') = ws_poll_close ops pf cx s in (WClose cx res, s'))"
| "ws_exec1 ops fa pf s DoTake = (let (res, s') = ws_pop_file s in (WPop res, s'))"

fun ws_exec ::
    "('t, 'f, 'e, 'r) write_file \<Rightarrow> ('a, 'p) frame_allocator \<Rightarrow> ('p, 'i, 'o, 't, 'x) partial_frame
      \<Rightarrow> ('t, 'f, 'r, 'a, 'p) writer \<Rightarrow> ('i, 'f) write_command list
      \<Rightarrow> ('i, 'o, 'f, 'r, 'e, 'x) write_event list \<times> ('t, 'f, 'r, 'a, 'p) writer" where
  "ws_exec ops fa pf s [] = ([], s)"
| "ws_exec ops fa pf s (c # cs) =
     (let (ev, s1) = ws_exec1 ops fa pf s c; (evs, s2) = ws_exec ops fa pf s1 cs in (ev # evs, s2))"

lemma ws_exec1_step:
  assumes "ws_exec1 ops fa pf s c = (ev, s')"
  shows "ws_step ops fa pf (s, caps) ev (s', caps)"
  using assms by (cases c) (auto intro: ws_step.intros split: prod.splits)

lemma ws_exec_run:
  assumes "ws_run ops fa pf n allocator evs (s, caps)" "ws_exec ops fa pf s cs = (evs', s')"
  shows "ws_run ops fa pf n allocator (evs @ evs') (s', caps)"
  using assms
proof (induction cs arbitrary: s evs evs')
  case Nil
  then show ?case by simp
next
  case (Cons c cs)
  obtain ev s1 evs1 where e: "ws_exec1 ops fa pf s c = (ev, s1)" "ws_exec ops fa pf s1 cs = (evs1, s')"
    "evs' = ev # evs1"
    using Cons.prems(2) by (auto simp: Let_def split: prod.splits)
  have "ws_run ops fa pf n allocator (evs @ [ev]) (s1, caps)"
    by (rule stepped [OF Cons.prems(1) ws_exec1_step [OF e(1)]])
  from Cons.IH [OF this e(2)] e(3) show ?case by simp
qed

text \<open>A writer started on a fresh budget.\<close>

definition ws_start :: "'a \<Rightarrow> nat \<Rightarrow> scheduler_config \<Rightarrow> ('t, 'f, 'r, 'a, 'p) writer" where
  "ws_start allocator n config =
     (let (p, b) = permit_new (budget_new n)
      in \<lparr>ww_allocator = allocator, ww_config = config, ww_files = [], ww_partial = None,
          ww_permit = p, ww_budget = b, ww_wakes = [], ww_used = 0, ww_fill_index = 0,
          ww_poll_cursor = 0, ww_phase = PhaseWriting, ww_waker = None\<rparr>)"

lemma ws_exec_start:
  assumes "0 < n" "valid_window (window config)"
    and "ws_exec ops fa pf (ws_start allocator n config) cs = (evs, s)"
  shows "ws_run ops fa pf n allocator evs (s, \<lambda>_. 0)"
proof -
  have "ws_new allocator (budget_new n) config =
      Ok (ws_start allocator n config)"
    using assms(1,2)
    by (simp add: ws_new_def ws_start_def window_validate_cases total_capacity_def budget_new_def
        Let_def split: prod.splits)
  from ws_exec_run [OF created [OF pool_start this] assms(3)] show ?thesis by simp
qed

end
