(* ===== verification/Write_Order.thy ===== *)
theory Write_Order
  imports Write_Run
begin

text \<open>
  What a write scheduler does to its input. The input consumed so far is a list of frames and the
  content of the partial frame; the frames are cut into one segment per accepted destination, each
  as long as the capacity of its destination allows. A destination holds or has committed exactly
  its segment.
\<close>

section \<open>Segments\<close>

fun segments :: "nat list \<Rightarrow> 'y list \<Rightarrow> 'y list list" where
  "segments [] frames = []"
| "segments (c # cs) frames = take c frames # segments cs (drop c frames)"

lemma length_segments [simp]: "length (segments cs frames) = length cs"
  by (induction cs frames rule: segments.induct) simp_all

lemma segments_nil [simp]: "segments cs [] = replicate (length cs) []"
  by (induction cs) simp_all

lemma segments_append:
  "segments (cs @ ds) frames = segments cs frames @ segments ds (drop (sum_list cs) frames)"
  by (induction cs frames rule: segments.induct) (simp_all add: add.commute)

lemma concat_segments: "concat (segments cs frames) = take (sum_list cs) frames"
  by (induction cs frames rule: segments.induct) (simp_all add: take_add)

text \<open>The next frame goes to the first segment that has room.\<close>

lemma segments_next:
  assumes "k < length cs" "\<forall>i < k. length (segments cs frames ! i) = cs ! i"
    and "length (segments cs frames ! k) < cs ! k"
  shows "segments cs (frames @ [x]) = (segments cs frames)[k := segments cs frames ! k @ [x]] \<and>
    length frames < sum_list cs"
  using assms
proof (induction cs frames arbitrary: k rule: segments.induct)
  case (2 c cs frames)
  show ?case
  proof (cases k)
    case 0
    with 2(4) show ?thesis by auto
  next
    case (Suc j)
    have "length (take c frames) = c" using 2(3) Suc by force
    then have "c \<le> length frames" by simp
    moreover have "segments cs (drop c frames @ [x]) =
        (segments cs (drop c frames))[j := segments cs (drop c frames) ! j @ [x]] \<and>
      length (drop c frames) < sum_list cs"
    proof (rule "2.IH")
      show "\<forall>i < j. length (segments cs (drop c frames) ! i) = cs ! i"
      proof (intro allI impI)
        fix i assume "i < j"
        with 2(3) Suc have "length (segments (c # cs) frames ! Suc i) = (c # cs) ! Suc i" by blast
        then show "length (segments cs (drop c frames) ! i) = cs ! i" by simp
      qed
    qed (use 2(2,4) Suc in simp_all)
    ultimately show ?thesis using Suc by auto
  qed
qed simp

lemma list_all2_concat_nil:
  "list_all2 P xss ys \<Longrightarrow> (\<And>xs y. P xs y \<Longrightarrow> y \<in> set ys \<Longrightarrow> xs = []) \<Longrightarrow> concat xss = []"
  by (induction rule: list_all2_induct) auto

lemma list_all_butlast [simp]: "list_all P xs \<Longrightarrow> list_all P (butlast xs)"
  by (auto simp: list_all_iff dest: in_set_butlastD)

section \<open>The order of the output\<close>

text \<open>
  \<open>cs\<close> are the capacities of the accepted destinations, \<open>results\<close> the results handed back and
  \<open>consumed\<close> the input taken. The retained destinations are those after the returned ones; while
  the input is open they are all of them, and the returned ones are full.
\<close>

definition write_order ::
    "('f \<Rightarrow> ('o, 't) attempt \<Rightarrow> bool) \<Rightarrow> 'o \<Rightarrow> ('o \<Rightarrow> 't \<Rightarrow> 'o) \<Rightarrow> ('f \<times> 'r \<Rightarrow> 'o)
      \<Rightarrow> ('p, 'i, 'u, 't, 'x) partial_frame \<Rightarrow> ('p \<Rightarrow> 'y list) \<Rightarrow> ('t \<Rightarrow> 'y list)
      \<Rightarrow> ('a \<Rightarrow> bool) \<Rightarrow> ('p \<Rightarrow> bool) \<Rightarrow> ('t \<Rightarrow> bool) \<Rightarrow> ('t \<Rightarrow> bool) \<Rightarrow> nat list \<Rightarrow> ('f \<times> 'r) list \<Rightarrow> 'y list \<Rightarrow> 't list \<Rightarrow> ('t, 'f, 'r, 'a, 'p) writer \<Rightarrow> bool" where
  "write_order rep init add committed pf items frame_items ready good piece whole cs results consumed frames s \<longleftrightarrow>
     (let segs = segments cs frames; k = length results; m = length (ww_files s)
      in consumed = concat (map frame_items frames) @
           (case ww_partial s of None \<Rightarrow> [] | Some p \<Rightarrow> items p) \<and>
         (\<forall>p. ww_partial s = Some p \<longrightarrow> \<not> pf_is_complete pf p) \<and>
         k + m \<le> length cs \<and>
         concat (take (k + m) segs) = frames \<and>
         list_all2 (\<lambda>r seg. committed r = foldl add init seg) results (take k segs) \<and>
         [] \<notin> set (take k segs) \<and>
         list_all2 (slot_holds rep init add committed) (take m (drop k segs)) (ww_files s) \<and>
         map (\<lambda>slot. unat (w_capacity slot)) (ww_files s) = take m (drop k cs) \<and>
         (ww_phase s = PhaseWriting \<longrightarrow>
            k + m = length cs \<and> (\<forall>i < k. length (segs ! i) = cs ! i)) \<and>
         ready (ww_allocator s) \<and> (\<forall>p. ww_partial s = Some p \<longrightarrow> good p) \<and>
         list_all piece frames \<and>
         list_all whole (if ww_phase s = PhaseWriting then frames else butlast frames))"

lemmas write_orderD = write_order_def [THEN iffD1, unfolded Let_def]

lemma write_order_new:
  "ws_new allocator b config = Ok s \<Longrightarrow> ready allocator \<Longrightarrow>
     write_order rep init add committed pf items frame_items ready good piece whole [] [] [] [] s"
  by (simp add: write_order_def ws_new_cases)

text \<open>Steps that leave the assignment of frames alone.\<close>

lemma write_order_moves:
  assumes "write_order rep init add committed pf items frame_items ready good piece whole cs results consumed frames s"
    and "\<And>fss. list_all2 (slot_holds rep init add committed) fss (ww_files s) \<Longrightarrow>
      list_all2 (slot_holds rep init add committed) fss (ww_files s')"
    and caps: "map w_capacity (ww_files s') = map w_capacity (ww_files s)"
    and "ww_phase s' = ww_phase s"
    and "ww_partial s' = ww_partial s \<or> ww_partial s = None \<and>
      (\<exists>p. ww_partial s' = Some p \<and> items p = [] \<and> \<not> pf_is_complete pf p \<and> good p)"
    and "ready (ww_allocator s) \<Longrightarrow> ready (ww_allocator s')"
  shows "write_order rep init add committed pf items frame_items ready good piece whole cs results consumed frames s'"
proof -
  have len: "length (ww_files s') = length (ww_files s)" using caps by (rule map_eq_imp_length_eq)
  have "map (\<lambda>slot. unat (w_capacity slot)) (ww_files s') =
      map (\<lambda>slot. unat (w_capacity slot)) (ww_files s)"
    using arg_cong [OF caps, of "map unat"] by (simp add: comp_def)
  then show ?thesis
    using assms(1,2,4-6) len by (auto simp: write_order_def Let_def)
qed

text \<open>
  The contract of the whole pipeline: the frames' and the backend's. Whatever the shape of frames,
  all of them have it, and while the input is open only complete ones are assigned.
\<close>

locale write_pipeline =
  write_backend ops rep init add committed + frame_builder fa pf items frame_items taken
  for ops :: "('t, 'f, 'e, 'r) write_file" and rep :: "'f \<Rightarrow> ('o, 't) attempt \<Rightarrow> bool" and init :: 'o
    and add :: "'o \<Rightarrow> 't \<Rightarrow> 'o" and committed :: "'f \<times> 'r \<Rightarrow> 'o"
    and fa :: "('a, 'p) frame_allocator" and pf :: "('p, 'i, 'u, 't, 'x) partial_frame"
    and items :: "'p \<Rightarrow> 'y list" and frame_items :: "'t \<Rightarrow> 'y list"
    and taken :: "'u \<Rightarrow> 'i \<Rightarrow> 'y list" +
  fixes ready :: "'a \<Rightarrow> bool" and good :: "'p \<Rightarrow> bool" and piece whole :: "'t \<Rightarrow> bool"
  assumes allocate_shape: "ready a \<Longrightarrow> fa_allocate fa a = (p, a') \<Longrightarrow> ready a' \<and> good p"
    and fill_shape: "good p \<Longrightarrow> \<not> pf_is_complete pf p \<Longrightarrow>
      pf_poll_fill pf cx p i = (res, p', i') \<Longrightarrow> good p'"
    and piece: "good p \<Longrightarrow> \<not> pf_is_empty pf p \<Longrightarrow> piece (pf_finish pf p)"
    and whole: "good p \<Longrightarrow> \<not> pf_is_empty pf p \<Longrightarrow> pf_is_complete pf p \<Longrightarrow> whole (pf_finish pf p)"
begin

abbreviation order ::
    "nat list \<Rightarrow> ('f \<times> 'r) list \<Rightarrow> 'y list \<Rightarrow> 't list \<Rightarrow> ('t, 'f, 'r, 'a, 'p) writer \<Rightarrow> bool" where
  "order \<equiv> write_order rep init add committed pf items frame_items ready good piece whole"

lemma backend_contract: "write_file_contract ops rep init add committed"
  using write_backend_axioms by (simp add: write_backend_iff)

lemma order_drive:
  assumes "order cs results consumed frames s"
    and "ws_moves (write_file_contract ops rep init add committed)
      (slot_holds rep init add committed) s s'"
  shows "order cs results consumed frames s'"
  by (rule write_order_moves [OF assms(1)])
    (use assms(2) backend_contract in \<open>auto simp: ws_moves_def\<close>)

lemma order_started:
  assumes "order cs results consumed frames s" "ws_started fa pf cx s s'"
  shows "order cs results consumed frames s'"
proof (cases "ww_partial s' = ww_partial s \<and> ww_allocator s' = ww_allocator s")
  case True
  with assms(2) show ?thesis by (intro write_order_moves [OF assms(1)]) (auto simp: ws_started_def)
next
  case False
  with assms(2) obtain p where p: "ww_partial s' = Some p" "ww_partial s = None" "pf_is_empty pf p"
    "\<not> pf_is_complete pf p" "fa_allocate fa (ww_allocator s) = (p, ww_allocator s')"
    by (auto simp: ws_started_def)
  have "ready (ww_allocator s)" using assms(1) by (simp add: write_order_def Let_def)
  from allocate_shape [OF this p(5)] p(1-4) assms(2) show ?thesis
    by (intro write_order_moves [OF assms(1)]) (auto simp: ws_started_def empty_items)
qed

text \<open>A new frame extends the segment of the destination being filled.\<close>

lemma order_fill:
  assumes ord: "order cs results consumed frames s" and inv: "ws_inv s"
    and fr: "piece fr" "ww_phase s' = PhaseWriting \<Longrightarrow> whole fr" "ww_allocator s' = ww_allocator s"
    and ph: "ww_phase s = PhaseWriting" and fi: "ww_fill_index s < length (ww_files s)"
    and more: "consumed' = concat (map frame_items frames) @ frame_items fr"
    and s': "ww_partial s' = None"
      "ww_files s' = (ww_files s)[ww_fill_index s := fill_slot fr (ww_files s ! ww_fill_index s)]"
  shows "order cs results consumed' (frames @ [fr]) s'"
proof -
  let ?segs = "segments cs frames" and ?k = "length results" and ?m = "length (ww_files s)"
  let ?i = "ww_fill_index s" and ?slot = "ww_files s ! ww_fill_index s"
  let ?n = "?k + ?i" and ?H = "slot_holds rep init add committed"
  have all: "?k + ?m = length cs" and full: "\<forall>i < ?k. length (?segs ! i) = cs ! i"
    and res: "list_all2 (\<lambda>r seg. committed r = foldl add init seg) results (take ?k ?segs)"
    and some: "[] \<notin> set (take ?k ?segs)"
    and holds: "list_all2 ?H (take ?m (drop ?k ?segs)) (ww_files s)"
    and caps: "map (\<lambda>slot. unat (w_capacity slot)) (ww_files s) = take ?m (drop ?k cs)"
    using ord ph by (simp_all add: write_order_def Let_def)
  have core: "ws_core s" using inv by (simp add: ws_inv_def)
  have lay: "files_layout ?i (ww_files s)" using core ph by (simp add: ws_core_def)
  have seg: "length (?segs ! (?k + i)) = unat (w_assigned (ww_files s ! i))"
    "cs ! (?k + i) = unat (w_capacity (ww_files s ! i))" if "i < ?m" for i
  proof -
    have "?H (take ?m (drop ?k ?segs) ! i) (ww_files s ! i)"
      by (rule list_all2_nthD2 [OF holds that])
    with that all show "length (?segs ! (?k + i)) = unat (w_assigned (ww_files s ! i))"
      by (simp add: slot_holds_def)
    have "map (\<lambda>slot. unat (w_capacity slot)) (ww_files s) ! i = take ?m (drop ?k cs) ! i"
      by (simp only: caps)
    with that all show "cs ! (?k + i) = unat (w_capacity (ww_files s ! i))" by simp
  qed
  have before: "\<forall>i < ?n. length (?segs ! i) = cs ! i"
  proof (intro allI impI)
    fix i assume "i < ?n"
    then have "i < ?k \<or> (\<exists>d < ?i. i = ?k + d)" by presburger
    then show "length (?segs ! i) = cs ! i"
      using full seg fi lay by (auto simp: files_layout_def)
  qed
  have room: "w_assigned ?slot < w_capacity ?slot" using lay fi by (simp add: files_layout_def)
  then have "length (?segs ! ?n) < cs ! ?n" using seg [OF fi] by (simp add: word_less_nat_alt)
  moreover have n: "?n < length cs" using all fi by simp
  ultimately have next1: "segments cs (frames @ [fr]) = ?segs[?n := ?segs ! ?n @ [fr]]"
    and len: "length frames < sum_list cs"
    using segments_next [OF _ before] by simp_all
  have "take ?m (drop ?k (segments cs (frames @ [fr]))) =
      (take ?m (drop ?k ?segs))[?i := take ?m (drop ?k ?segs) ! ?i @ [fr]]"
    using fi n by (simp add: next1 drop_update_swap take_update_swap)
  moreover have "?H (take ?m (drop ?k ?segs) ! ?i @ [fr]) (fill_slot fr ?slot)"
  proof (rule fill_slot_holds)
    show "?H (take ?m (drop ?k ?segs) ! ?i) ?slot"
      by (rule list_all2_nthD2 [OF holds fi])
    show "slot_ok (ww_phase s = PhaseClosing) (max_retries (ww_config s)) (b_total (ww_budget s)) ?slot"
      by (rule ws_core_slot [OF core fi])
    show "slot_full_ok False ?slot" using ws_inv_writing_full [OF inv ph] fi by simp
  qed (rule room)
  ultimately have "list_all2 ?H (take ?m (drop ?k (segments cs (frames @ [fr]))))
      ((ww_files s)[?i := fill_slot fr ?slot])"
    using holds by (simp add: list_all2_update_cong)
  moreover have "concat (take (?k + ?m) (segments cs (frames @ [fr]))) = frames @ [fr]"
    using all len by (simp add: concat_segments)
  moreover have "take ?k (segments cs (frames @ [fr])) = take ?k ?segs"
    by (simp add: next1)
  moreover have "\<forall>i < ?k. length (segments cs (frames @ [fr]) ! i) = cs ! i"
    using full by (simp add: next1)
  moreover have "map (\<lambda>slot. unat (w_capacity slot)) ((ww_files s)[?i := fill_slot fr ?slot]) =
      take ?m (drop ?k cs)"
    unfolding caps [symmetric] using fi by (simp add: map_update list_update_same_conv)
  moreover have "ready (ww_allocator s')" "list_all piece (frames @ [fr])"
    "list_all whole (if ww_phase s' = PhaseWriting then frames @ [fr] else butlast (frames @ [fr]))"
    using ord fr ph by (simp_all add: write_order_def Let_def)
  ultimately show ?thesis
    using all res some more s' by (simp add: write_order_def Let_def)
qed

lemma order_closing:
  assumes "order cs results consumed frames s"
  shows "order cs results consumed frames (s\<lparr>ww_phase := PhaseClosing\<rparr>)"
  using assms by (auto simp: write_order_def Let_def split: if_splits)

text \<open>\<open>poll_write\<close> consumes what it reports.\<close>

lemma order_poll_write:
  fixes s s' :: "('t, 'f, 'r, 'a, 'p) writer" and res :: "('u write_status, ('x, 'e) write_error) result poll"
  assumes p: "ws_poll_write ops fa pf cx input s = (res, input', s')" and inv: "ws_inv s"
    and ord: "order cs results consumed frames s"
  shows "ww_phase s' = PhaseFailed \<or> (\<exists>frames'. order cs results
    (consumed @ consumed_input taken (WWrite cx input res input' :: ('i, 'u, 'f, 'r, 'e, 'x) write_event))
    frames' s')"
  using p inv
proof (cases rule: ws_poll_write_cases [where rep = rep and init = init and add = add
      and committed = committed])
  case closed
  have "order cs results consumed frames (s\<lparr>ww_waker := None\<rparr>)"
    by (rule write_order_moves [OF ord]) simp_all
  with closed show ?thesis by auto
next
  case (filled s1 s2)
  have "order cs results consumed frames (s\<lparr>ww_waker := None\<rparr>)"
    by (rule write_order_moves [OF ord]) simp_all
  from order_started [OF order_drive [OF this filled(3)] filled(4)]
  have ord2: "order cs results consumed frames s2" .
  from filled(5,7,8) show ?thesis
  proof (cases rule: ws_fill_cases)
    case none
    note fr = ws_reports_frame [OF none(2)]
    have "order cs results consumed frames s'"
      by (rule write_order_moves [OF ord2]) (simp_all add: fr)
    moreover have "consumed_input taken (WWrite cx input res input' ::
        ('i, 'u, 'f, 'r, 'e, 'x) write_event) = []"
      using none(2) unfolding ws_reports_def by (cases rule: ws_report_cases) (simp_all add: ws_status_def)
    ultimately show ?thesis by auto
  next
    case (pending p p')
    note fr = ws_reports_frame [OF pending(3)]
    have p: "\<not> pf_is_complete pf p" "good p"
      using ord2 pending(1) by (simp_all add: write_order_def Let_def)
    from fill_pending [OF p(1) pending(2)] fill_shape [OF p(2,1) pending(2)]
    have "items p' = items p" "\<not> pf_is_complete pf p'" "good p'" by simp_all
    with ord2 pending(1) fr have "order cs results consumed frames s'"
      by (simp add: write_order_def Let_def)
    moreover have "consumed_input taken (WWrite cx input res input' ::
        ('i, 'u, 'f, 'r, 'e, 'x) write_event) = []"
      using pending(3) unfolding ws_reports_def
      by (cases rule: ws_report_cases) (simp_all add: ws_status_def)
    ultimately show ?thesis by auto
  next
    case (stored p out p')
    have p: "\<not> pf_is_complete pf p" "good p"
      using ord2 stored(1) by (simp_all add: write_order_def Let_def)
    from fill_ok [OF p(1) stored(2)] fill_shape [OF p(2,1) stored(2)]
    have "items p' = items p @ taken out input" "good p'" by simp_all
    with ord2 stored have "order cs results (consumed @ taken out input) frames s'"
      by (simp add: write_order_def Let_def)
    then show ?thesis using stored(4) by (auto simp: ws_status_def)
  next
    case (flushed p out p')
    let ?s = "s2\<lparr>ww_partial := Some p'\<rparr>"
    have p: "\<not> pf_is_complete pf p" "good p"
      using ord2 flushed(1) by (simp_all add: write_order_def Let_def)
    note good' = fill_shape [OF p(2,1) flushed(2)]
    from fill_ok [OF p(1) flushed(2)] have "items p' = items p @ taken out input" .
    then have more: "consumed @ taken out input =
        concat (map frame_items frames) @ frame_items (pf_finish pf p')"
      using ord2 flushed(1,4) by (simp add: write_order_def Let_def finish_items)
    have fi: "ww_fill_index s2 < length (ww_files s2)"
      using filled(7) flushed(1) by (simp add: ws_inv_def ws_core_def)
    have inv': "ws_inv ?s" by (rule ws_partial_inv [OF filled(7) flushed(1)])
    have "ws_core ?s" "ww_phase ?s \<noteq> PhaseFailed"
      using inv' filled(8) by (simp_all add: ws_inv_def)
    with flushed(5) have "order cs results (consumed @ taken out input)
        (frames @ [pf_finish pf p']) s'"
    proof (cases rule: ws_flush_cases)
      case (frame q)
      then show ?thesis
        using piece [OF good' flushed(4)] whole [OF good' flushed(4,3)]
        by (intro order_fill [OF ord2 filled(7) _ _ _ filled(8) fi more]) simp_all
    qed (use flushed(4) in simp_all)
    then show ?thesis using flushed(6) by (auto simp: ws_status_def)
  qed simp
qed simp

text \<open>Admission and the heads handed back.\<close>

lemma order_push:
  assumes ord: "order cs results consumed frames s" and ph: "ww_phase s = PhaseWriting"
    and slot: "w_state slot = Idle" "w_assigned slot = 0" "unat (w_capacity slot) = c"
      "rep (w_file slot) Unopened"
    and s': "ww_files s' = ww_files s @ [slot]" "ww_partial s' = ww_partial s"
      "ww_allocator s' = ww_allocator s"
  shows "order (cs @ [c]) results consumed frames s'"
proof -
  let ?k = "length results" and ?m = "length (ww_files s)"
  have all: "?k + ?m = length cs" using ord ph by (simp add: write_order_def Let_def)
  have covered: "concat (take (?k + ?m) (segments cs frames)) = frames"
    using ord unfolding write_order_def Let_def by (elim conjE)
  have "take (sum_list cs) frames = frames" using all covered by (simp add: concat_segments)
  then have "length frames \<le> sum_list cs" by (metis length_take min.cobounded2)
  then have segs: "segments (cs @ [c]) frames = segments cs frames @ [[]]"
    by (simp add: segments_append)
  have "slot_holds rep init add committed [] slot" using slot by (simp add: slot_holds_def)
  with ord ph slot s' all covered show ?thesis
    by (auto simp: write_order_def Let_def segs nth_append list_all2_appendI)
qed

lemma closed_assigned:
  assumes "ws_inv s" "ww_files s = slot # files" "w_state slot = Closed r"
  shows "0 < w_assigned slot"
proof -
  have "slot_state_ok slot" using assms(1,2) by (auto simp: ws_inv_defs slot_ok_def)
  with assms(3) show ?thesis by (simp add: slot_state_ok_def Let_def word_less_nat_alt)
qed

lemma order_pop:
  assumes ord: "order cs results consumed frames s" and files: "ww_files s = slot # files"
    and slot: "w_state slot = Closed r" "0 < w_assigned slot"
      "ww_phase s = PhaseWriting \<Longrightarrow> w_assigned slot = w_capacity slot"
    and s': "ww_files s' = files" "ww_partial s' = ww_partial s" "ww_phase s' = ww_phase s"
      "ww_allocator s' = ww_allocator s"
  shows "order cs (results @ [(w_file slot, r)]) consumed frames s'"
proof -
  let ?k = "length results" and ?segs = "segments cs frames"
  have len: "?k < length cs" and holds: "list_all2 (slot_holds rep init add committed)
      (take (Suc (length files)) (drop ?k ?segs)) (slot # files)"
    and caps: "map (\<lambda>slot. unat (w_capacity slot)) (slot # files) = take (Suc (length files)) (drop ?k cs)"
    using ord files by (auto simp: write_order_def Let_def)
  have seg: "drop ?k ?segs = ?segs ! ?k # drop (Suc ?k) ?segs" "drop ?k cs = cs ! ?k # drop (Suc ?k) cs"
    using len by (simp_all add: Cons_nth_drop_Suc)
  with holds caps have head: "slot_holds rep init add committed (?segs ! ?k) slot"
    "list_all2 (slot_holds rep init add committed) (take (length files) (drop (Suc ?k) ?segs)) files"
    "unat (w_capacity slot) = cs ! ?k"
    "map (\<lambda>slot. unat (w_capacity slot)) files = take (length files) (drop (Suc ?k) cs)"
    by simp_all
  from head(1) slot(1) have "committed (w_file slot, r) = foldl add init (?segs ! ?k)"
    "length (?segs ! ?k) = unat (w_assigned slot)" by (simp_all add: slot_holds_def)
  moreover from this(2) slot(2) have "?segs ! ?k \<noteq> []" by (auto simp: word_less_nat_alt)
  moreover have "take (Suc ?k) ?segs = take ?k ?segs @ [?segs ! ?k]"
    using len by (simp add: take_Suc_conv_app_nth)
  ultimately show ?thesis
    using ord files slot(3) s' head(2-4)
    by (auto simp: write_order_def Let_def list_all2_appendI less_Suc_eq)
qed

text \<open>Closing drops destinations that hold nothing.\<close>

lemma order_drop:
  assumes ord: "order cs results consumed frames s" and files: "ww_files s = kept @ unused"
    and un: "\<forall>slot \<in> set unused. w_assigned slot = 0"
    and s': "ww_files s' = kept" "ww_partial s' = ww_partial s" "ww_phase s' = PhaseClosing"
      "ww_allocator s' = ww_allocator s"
  shows "order cs results consumed frames s'"
proof -
  let ?k = "length results" and ?segs = "segments cs frames"
  let ?fss = "take (length kept + length unused) (drop ?k ?segs)"
  have len: "?k + (length kept + length unused) \<le> length cs"
    and holds: "list_all2 (slot_holds rep init add committed) ?fss (kept @ unused)"
    and caps: "map (\<lambda>slot. unat (w_capacity slot)) (kept @ unused) =
      take (length kept + length unused) (drop ?k cs)"
    and cover: "concat (take (?k + (length kept + length unused)) ?segs) = frames"
    using ord files by (auto simp: write_order_def Let_def)
  have split: "?fss = take (length kept) (drop ?k ?segs) @ take (length unused) (drop (?k + length kept) ?segs)"
    by (simp add: take_add add.commute)
  have parts: "list_all2 (slot_holds rep init add committed) (take (length kept) (drop ?k ?segs)) kept"
    "list_all2 (slot_holds rep init add committed)
       (take (length unused) (drop (?k + length kept) ?segs)) unused"
    using holds len unfolding split by (simp_all add: list_all2_append)
  have none: "concat (take (length unused) (drop (?k + length kept) ?segs)) = []"
    by (rule list_all2_concat_nil [OF parts(2)]) (use un in \<open>auto simp: slot_holds_def\<close>)
  have "take (?k + (length kept + length unused)) ?segs = take (?k + length kept) ?segs @
      take (length unused) (drop (?k + length kept) ?segs)"
    by (simp add: take_add add.assoc [symmetric])
  then have "concat (take (?k + length kept) ?segs) = frames"
    using cover none by (metis append_Nil2 concat_append)
  moreover have "map (\<lambda>slot. unat (w_capacity slot)) kept = take (length kept) (drop ?k cs)"
    using arg_cong [OF caps, of "take (length kept)"] by simp
  ultimately show ?thesis
    using ord files len parts(1) s' by (auto simp: write_order_def Let_def split: if_splits)
qed

lemma order_begin_close:
  fixes s s' :: "('t, 'f, 'r, 'a, 'p) writer" and res :: "(unit, ('x, 'e) write_error) result"
  assumes b: "ws_begin_close pf s = (res, s')" and inv: "ws_inv s" and ph: "ww_phase s \<noteq> PhaseFailed"
    and ord: "order cs results consumed frames s"
  shows "\<exists>frames'. order cs results consumed frames' s'"
proof (cases "ww_phase s = PhaseWriting")
  case False
  with b have "s' = s" by (simp add: ws_begin_close_def)
  with ord show ?thesis by blast
next
  case True
  let ?s = "s\<lparr>ww_phase := PhaseClosing\<rparr>"
  obtain s1 where fl: "ws_flush_partial pf ?s = (Ok () :: (unit, ('x, 'e) write_error) result, s1)"
    and s': "ww_files s' = drop_unused (ww_files s1)" "ww_phase s' = PhaseClosing" "ww_partial s' = None"
      "ww_allocator s' = ww_allocator s1"
    using ws_begin_close_outcome [OF b inv True] by blast
  have core: "ws_core ?s"
    using inv True by (auto simp: ws_inv_def ws_core_def partial_used_def ws_needed_def slot_ok_closing)
  have "ww_phase ?s \<noteq> PhaseFailed" by simp
  with fl core have "\<exists>frames'. order cs results consumed frames' s1 \<and> ww_partial s1 = None"
  proof (cases rule: ws_flush_cases)
    case none
    with order_closing [OF ord] show ?thesis by auto
  next
    case (empty p)
    with order_closing [OF ord] have "order cs results consumed frames s1"
      by (auto simp: write_order_def Let_def empty_items)
    with empty show ?thesis by auto
  next
    case (frame p)
    have "consumed = concat (map frame_items frames) @ frame_items (pf_finish pf p)"
      using ord frame(1,2) by (simp add: write_order_def Let_def finish_items)
    moreover have "ww_fill_index s < length (ww_files s)"
      using inv frame(1) by (simp add: ws_inv_def ws_core_def)
    ultimately have "order cs results consumed (frames @ [pf_finish pf p]) s1"
      using frame(1,2,4) ord piece [of p]
      by (intro order_fill [OF ord inv _ _ _ True]) (simp_all add: write_order_def Let_def)
    with frame(4) show ?thesis by auto
  qed
  then obtain frames' where o1: "order cs results consumed frames' s1" and p1: "ww_partial s1 = None"
    by blast
  obtain unused where un: "ww_files s1 = drop_unused (ww_files s1) @ unused"
    "\<forall>slot \<in> set unused. w_assigned slot = 0"
    using drop_unused_append by blast
  have "order cs results consumed frames' s'"
    by (rule order_drop [OF o1 un s'(1) _ s'(2,4)]) (simp add: s'(3) p1)
  then show ?thesis by blast
qed

lemma order_poll_close:
  fixes s s' :: "('t, 'f, 'r, 'a, 'p) writer" and res :: "(nat, ('x, 'e) write_error) result poll"
  assumes st: "ws_poll_close ops pf cx s = (res, s')" and inv: "ws_inv s"
    and ord: "order cs results consumed frames s"
  shows "ww_phase s' = PhaseFailed \<or> (\<exists>frames'. order cs results consumed frames' s')"
proof -
  have ord0: "order cs results consumed frames (s\<lparr>ww_waker := None\<rparr>)"
    by (rule write_order_moves [OF ord]) simp_all
  have inv0: "ws_inv (s\<lparr>ww_waker := None\<rparr>)" using inv by simp
  from st inv show ?thesis
  proof (cases rule: ws_poll_close_cases [where rep = rep and init = init and add = add
        and committed = committed])
    case closed
    with ord0 show ?thesis by auto
  next
    case (completed s1)
    then obtain frames' where "order cs results consumed frames' s1"
      using order_begin_close [OF completed(2) inv0 _ ord0] by auto
    from order_drive [OF this completed(3)] completed(8) show ?thesis by auto
  next
    case (pending s1 s2)
    then obtain frames' where "order cs results consumed frames' s1"
      using order_begin_close [OF pending(2) inv0 _ ord0] by auto
    from order_drive [OF this pending(3)] have "order cs results consumed frames' s2" .
    from write_order_moves [OF this, of s'] pending(9) have "order cs results consumed frames' s'"
      by simp
    with pending(8) show ?thesis by auto
  qed simp
qed

text \<open>Every operation keeps the order, until the writer fails.\<close>

lemma order_step:
  fixes s s' :: "('t, 'f, 'r, 'a, 'p) writer" and ev :: "('i, 'u, 'f, 'r, 'e, 'x) write_event"
  assumes st: "ws_step ops fa pf (s, caps) ev (s', caps')" and inv: "ws_inv s"
    and ord: "order cs results consumed frames s"
    and unopened: "\<forall>f \<in> set (accepted_destination ev). rep f Unopened"
  shows "ww_phase s' = PhaseFailed \<or> (\<exists>frames'. order
    (cs @ map (\<lambda>f. unat (wf_frame_capacity ops f)) (accepted_destination ev))
    (results @ returned_result ev) (consumed @ consumed_input taken ev) frames' s')"
  using st
proof (cases rule: ws_step.cases)
  case (push f res)
  from push(3) inv show ?thesis
  proof (cases rule: ws_push_file_cases)
    case accepted
    have "order (cs @ [unat (wf_frame_capacity ops f)]) results consumed frames s'"
      by (rule order_push [OF ord accepted(1), of "slot_new ops f (max_retries (ww_config s) > 0)"])
        (use unopened push(1) accepted(4) in \<open>simp_all add: accepted(5)\<close>)
    with push(1) accepted(4) show ?thesis by auto
  qed (use push(1) ord in auto)
next
  case (set_window w res)
  from set_window(3) inv show ?thesis
  proof (cases rule: ws_set_window_cases)
    case accepted
    have "order cs results consumed frames s'"
      by (rule write_order_moves [OF ord]) (use accepted in simp_all)
    with set_window(1) show ?thesis by auto
  qed (use set_window(1) ord in auto)
next
  case (poll_write cx input res input')
  from order_poll_write [OF poll_write(3) inv ord] poll_write(1) show ?thesis by simp
next
  case (pop_swap f res)
  from pop_swap(3) inv show ?thesis
  proof (cases rule: ws_pop_swap_cases)
    case (swapped slot files out new)
    let ?mid = "s\<lparr>ww_files := files\<rparr>"
    have "order cs (results @ [(w_file slot, out)]) consumed frames ?mid"
      by (rule order_pop [OF ord swapped(2,3) closed_assigned [OF inv swapped(2,3)]])
        (simp_all add: swapped(4))
    moreover have "ww_phase ?mid = PhaseWriting" using swapped(1) by simp
    ultimately have "order (cs @ [unat (wf_frame_capacity ops f)]) (results @ [(w_file slot, out)]) consumed frames s'"
      by (rule order_push [of _ _ _ _ _ new])
        (use unopened pop_swap(1) swapped(5) in \<open>simp_all add: swapped(7,8)\<close>)
    with pop_swap(1) swapped(5) show ?thesis by auto
  qed (use pop_swap(1) ord in auto)
next
  case (poll_close cx res)
  from order_poll_close [OF poll_close(3) inv ord] poll_close(1) show ?thesis by simp
next
  case (pop_file res)
  from pop_file(3) inv show ?thesis
  proof (cases rule: ws_pop_file_cases)
    case (popped slot files out)
    have "order cs (results @ [(w_file slot, out)]) consumed frames s'"
      by (rule order_pop [OF ord popped(2,3) closed_assigned [OF inv popped(2,3)]])
        (simp_all add: popped(1,5))
    with pop_file(1) popped(4) show ?thesis by auto
  qed (use pop_file(1) ord in auto)
next
  case (others e b')
  have "order cs results consumed frames s'"
    by (rule write_order_moves [OF ord]) (simp_all add: others(2))
  with others(1) show ?thesis by auto
qed

lemma run_order:
  fixes evs :: "('i, 'u, 'f, 'r, 'e, 'x) write_event list"
  assumes "ws_run ops fa pf n allocator evs x" and "\<forall>f \<in> set (accepted_destinations evs). rep f Unopened"
    and "ready allocator"
  shows "ww_phase (fst x) = PhaseFailed \<or>
    (\<exists>frames. order (capacities ops evs) (returned_results evs) (consumed_inputs taken evs) frames (fst x))"
  using assms
proof (induction rule: ws_run.induct)
  case (created b caps config s)
  then show ?case by (auto intro: write_order_new [OF created(2)])
next
  case (stepped evs x ev y)
  have inv: "ws_inv (fst x)" using ws_run_state [OF stepped(1)] by (simp add: write_state_def)
  have st: "ws_step ops fa pf (fst x, snd x) ev (fst y, snd y)" using stepped(2) by simp
  have ok: "\<forall>f \<in> set (accepted_destinations evs). rep f Unopened"
    "\<forall>f \<in> set (accepted_destination ev). rep f Unopened"
    using stepped(4) by auto
  from stepped(3) [OF ok(1) stepped(5)] show ?case
  proof
    assume "ww_phase (fst x) = PhaseFailed"
    with ws_step_failed(2) [OF st inv] show ?thesis by simp
  next
    assume "\<exists>frames. order (capacities ops evs) (returned_results evs) (consumed_inputs taken evs)
      frames (fst x)"
    then obtain frames where "order (capacities ops evs) (returned_results evs)
        (consumed_inputs taken evs) frames (fst x)" by blast
    from order_step [OF st inv this ok(2)] show ?thesis by simp
  qed
qed

end

text \<open>The contract, as properties state it.\<close>

lemma write_pipeline_iff:
  "write_pipeline ops rep init add committed fa pf items frame_items taken ready good piece whole \<longleftrightarrow>
     write_file_contract ops rep init add committed \<and> frame_contract pf items frame_items taken \<and>
     frame_shape fa pf ready good piece whole"
  unfolding write_pipeline_def write_pipeline_axioms_def write_backend_iff frame_builder_iff
    frame_shape_def by meson

end
