(* ===== verification/Write_Wakeup.thy ===== *)
theory Write_Wakeup
  imports Write_Close
begin

text \<open>
  Wakeups of the write scheduler. When a drive ends, either the caller's task has been woken, or
  every destination is settled: it has received nothing yet, it is closed, it has written all its
  frames and waits for more, or its pending operation registered the caller's waker.
\<close>

section \<open>Settled destinations\<close>

text \<open>\<open>reg cx f\<close>: the destination has registered the waker \<open>cx\<close>. The trait asks for it on every pending.\<close>

definition write_registers :: "('t, 'f, 'e, 'r) write_file \<Rightarrow> (waker \<Rightarrow> 'f \<Rightarrow> bool) \<Rightarrow> bool" where
  "write_registers ops reg \<longleftrightarrow>
     (\<forall>cx f f'. wf_poll_open ops cx f = (Pending, f') \<longrightarrow> reg cx f') \<and>
     (\<forall>cx f t f'. wf_poll_write ops cx f t = (Pending, f') \<longrightarrow> reg cx f') \<and>
     (\<forall>cx f f'. wf_poll_close ops cx f = (Pending, f') \<longrightarrow> reg cx f')"

lemma write_registersD:
  "write_registers ops reg \<Longrightarrow> wf_poll_open ops cx f = (Pending, f') \<Longrightarrow> reg cx f'"
  "write_registers ops reg \<Longrightarrow> wf_poll_write ops cx f t = (Pending, f') \<Longrightarrow> reg cx f'"
  "write_registers ops reg \<Longrightarrow> wf_poll_close ops cx f = (Pending, f') \<Longrightarrow> reg cx f'"
  unfolding write_registers_def by blast+

text \<open>A partial frame that is pending has registered the waker with itself or with its input.\<close>

definition input_registers ::
    "('p, 'i, 'o, 't, 'x) partial_frame \<Rightarrow> (waker \<Rightarrow> 'p \<Rightarrow> 'i \<Rightarrow> bool) \<Rightarrow> bool" where
  "input_registers pf regi \<longleftrightarrow>
     (\<forall>cx p i p' i'. pf_poll_fill pf cx p i = (Pending, p', i') \<longrightarrow> regi cx p' i')"

text \<open>The destination waits for its next frame, and may get one.\<close>

definition slot_starved :: "bool \<Rightarrow> ('t, 'f, 'r) write_slot \<Rightarrow> bool" where
  "slot_starved closing slot \<longleftrightarrow>
     w_state slot = Writing \<and> frames_next (w_frames slot) (w_written slot) = None \<and>
     w_assigned slot \<noteq> w_capacity slot \<and> \<not> closing"

definition slot_settled_by ::
    "(waker \<Rightarrow> 'f \<Rightarrow> bool) \<Rightarrow> waker \<Rightarrow> bool \<Rightarrow> ('t, 'f, 'r) write_slot \<Rightarrow> bool" where
  "slot_settled_by reg cx closing slot \<longleftrightarrow>
     w_state slot = Idle \<or> slot_done slot \<or> slot_starved closing slot \<or> reg cx (w_file slot)"

lemma slot_poll_unchanged:
  assumes p: "slot_poll ops cx closing limit slot = (Ok (False, released), slot')"
    and reg: "write_registers ops reg"
  shows "released = 0" "slot_settled_by reg cx closing slot'"
proof -
  have "released = 0 \<and> slot_settled_by reg cx closing slot'"
    using p
  proof (cases rule: slot_poll_cases)
    case (pending g)
    then have "reg cx g" using write_registersD [OF reg] by blast
    with pending show ?thesis by (simp add: slot_settled_by_def)
  next
    case (error g e)
    from error(1) show ?thesis by (cases rule: slot_retry_cases) auto
  qed (auto simp: slot_settled_by_def slot_starved_def)
  then show "released = 0" "slot_settled_by reg cx closing slot'" by simp_all
qed

section \<open>The loop\<close>

text \<open>The task has been woken since.\<close>

definition ws_woken ::
    "waker \<Rightarrow> ('t, 'f, 'r, 'a, 'p) writer \<Rightarrow> ('t, 'f, 'r, 'a, 'p) writer \<Rightarrow> bool" where
  "ws_woken cx s s' \<longleftrightarrow> (\<exists>ws vs. ww_wakes s' = ww_wakes s @ ws @ cx # vs)"

definition ws_logs :: "('t, 'f, 'r, 'a, 'p) writer \<Rightarrow> ('t, 'f, 'r, 'a, 'p) writer \<Rightarrow> bool" where
  "ws_logs s s' \<longleftrightarrow> (\<exists>ws. ww_wakes s' = ww_wakes s @ ws)"

lemma ws_logs_refl [simp]: "ws_logs s s"
  by (simp add: ws_logs_def)

lemma ws_logs_trans: "ws_logs s s' \<Longrightarrow> ws_logs s' s'' \<Longrightarrow> ws_logs s s''"
  by (auto simp: ws_logs_def)

lemma ws_woken_after: "ws_logs s s' \<Longrightarrow> ws_woken cx s' s'' \<Longrightarrow> ws_woken cx s s''"
  by (auto simp: ws_logs_def ws_woken_def) (metis append_assoc)

lemma ws_woken_before: "ws_woken cx s s' \<Longrightarrow> ws_logs s' s'' \<Longrightarrow> ws_woken cx s s''"
  by (auto simp: ws_logs_def ws_woken_def) (metis append_assoc append_Cons)

lemma ws_shrink_to_logs: "ws_logs s (ws_shrink_to n s)"
  by (auto simp: ws_logs_def ws_shrink_to_def split: prod.splits)

lemma ws_release_logs: "ws_logs s (ws_release c r d s)"
proof -
  have "ws_logs s (ws_shrink_to n (s\<lparr>ww_used := u\<rparr>))" for n u
    using ws_shrink_to_logs [of "s\<lparr>ww_used := u\<rparr>" n] by (simp add: ws_logs_def)
  then show ?thesis by (simp add: ws_release_def Let_def ws_logs_def)
qed

lemma ws_release_nothing: "ws_release False 0 d s = s"
  by (simp add: ws_release_def)

lemma ws_pass_logs:
  assumes "ws_pass ops cx n count progressed remaining s = (pr, s')" "pr \<noteq> WPassError e"
    and "\<And>e. pr \<noteq> WPassError e"
  shows "ws_logs s s' \<and> (pr = WPassExhausted \<longrightarrow> ws_woken cx s s')"
  using assms
proof (induction n arbitrary: progressed remaining s)
  case 0
  then show ?case by auto
next
  case (Suc n)
  let ?i = "ww_poll_cursor s mod count"
  from Suc.prems(1) show ?case
  proof (cases rule: ws_pass_step)
    case (exhausted released slot)
    let ?s = "ws_release True released (slot_done slot) (polled s count slot)"
    have "ws_logs s ?s" using ws_release_logs [of "polled s count slot"] by (simp add: ws_logs_def)
    then obtain ws where "ww_wakes ?s = ww_wakes s @ ws" by (auto simp: ws_logs_def)
    with exhausted have "ww_wakes s' = ww_wakes s @ ws @ cx # []" by (simp add: Let_def)
    then show ?thesis unfolding ws_logs_def ws_woken_def by blast
  next
    case (changed released slot)
    let ?s = "ws_release True released (slot_done slot) (polled s count slot)"
    have "ws_logs s ?s" using ws_release_logs [of "polled s count slot"] by (simp add: ws_logs_def)
    with Suc.IH [OF changed(4) Suc.prems(2,3)] show ?thesis
      by (auto intro: ws_logs_trans ws_woken_after)
  next
    case (same released slot)
    let ?s = "ws_release False released (slot_done slot) (polled s count slot)"
    have "ws_logs s ?s" using ws_release_logs [of "polled s count slot"] by (simp add: ws_logs_def)
    with Suc.IH [OF same(3) Suc.prems(2,3)] show ?thesis
      by (auto intro: ws_logs_trans ws_woken_after)
  qed (use Suc.prems(3) in auto)
qed

lemma ws_pass_progressed:
  assumes "ws_pass ops cx n count True remaining s = (WPassDone progressed remaining', s')"
  shows progressed
  using assms
proof (induction n arbitrary: remaining s)
  case (Suc n)
  from Suc.prems show ?case
    by (cases rule: ws_pass_step) (auto dest: Suc.IH)
qed simp

text \<open>A pass without progress settles every destination it visits, and changes nothing else.\<close>

lemma ws_pass_settled:
  assumes "ws_pass ops cx n count progressed remaining s =
      (WPassDone False remaining' :: ('i, 'e) write_error write_pass, s')"
    and "count = length (ww_files s)" "0 < count" "write_registers ops reg"
  shows "(\<forall>k < n. slot_settled_by reg cx (ww_phase s = PhaseClosing)
       (ww_files s' ! ((ww_poll_cursor s + k) mod count))) \<and>
    (\<forall>j < count. slot_settled_by reg cx (ww_phase s = PhaseClosing) (ww_files s ! j) \<longrightarrow>
       slot_settled_by reg cx (ww_phase s = PhaseClosing) (ww_files s' ! j)) \<and>
    ww_phase s' = ww_phase s \<and> length (ww_files s') = count \<and>
    map w_assigned (ww_files s') = map w_assigned (ww_files s)"
  using assms
proof (induction n arbitrary: progressed remaining s)
  case 0
  then show ?case by simp
next
  case (Suc n)
  let ?c = "ww_phase s = PhaseClosing" and ?i = "ww_poll_cursor s mod count"
  from Suc.prems(1) show ?case
  proof (cases rule: ws_pass_step)
    case (changed released slot)
    with ws_pass_progressed show ?thesis by blast
  next
    case (same released slot)
    note out = slot_poll_unchanged [OF same(2) Suc.prems(4)]
    let ?s = "polled s count slot"
    have next1: "ws_pass ops cx n count progressed remaining ?s =
        (WPassDone False remaining' :: ('i, 'e) write_error write_pass, s')"
      using same(3) by (simp add: out(1) ws_release_nothing)
    have same_assigned: "w_assigned slot = w_assigned (ww_files s ! ?i)"
      using same(2)
    proof (cases rule: slot_poll_cases)
      case (error g e)
      from error(1) show ?thesis by (cases rule: slot_retry_cases) auto
    qed auto
    have len: "count = length (ww_files ?s)" using Suc.prems(2) by simp
    note ih = Suc.IH [OF next1 len Suc.prems(3,4)]
    have shift: "(ww_poll_cursor ?s + k) mod count = (ww_poll_cursor s + Suc k) mod count" for k
      by (simp add: mod_simps)
    have head: "slot_settled_by reg cx ?c (ww_files s' ! ?i)"
      using ih out(2) same(1) Suc.prems(2) by auto
    have "slot_settled_by reg cx ?c (ww_files s' ! ((ww_poll_cursor s + k) mod count))"
      if "k < Suc n" for k
    proof (cases k)
      case (Suc j)
      have "\<forall>k < n. slot_settled_by reg cx ?c (ww_files s' ! ((ww_poll_cursor ?s + k) mod count))"
        using conjunct1 [OF ih] by (simp only: polled_sel)
      with Suc that have "slot_settled_by reg cx ?c (ww_files s' ! ((ww_poll_cursor ?s + j) mod count))"
        by blast
      then show ?thesis unfolding shift Suc .
    qed (use head in simp)
    moreover have "slot_settled_by reg cx ?c (ww_files s' ! j)"
      if "j < count" "slot_settled_by reg cx ?c (ww_files s ! j)" for j
      using ih that out(2) same(1) by (cases "j = ?i") auto
    moreover have "map w_assigned (ww_files ?s) = map w_assigned (ww_files s)"
      using same(1) same_assigned by (simp add: map_update list_update_same_conv)
    ultimately show ?thesis using ih by auto
  qed auto
qed

text \<open>A drive that ends well has woken the task or settled every destination.\<close>

lemma ws_loop_settled:
  fixes s :: "('t, 'f, 'r, 'a, 'p) writer"
  assumes "ws_loop ops cx count remaining s = (Ok () :: (unit, ('i, 'e) write_error) result, s')"
    and "ws_inv s" "count = length (ww_files s)" "0 < count" "write_registers ops reg"
  shows "ws_logs s s' \<and> (ws_woken cx s s' \<or>
    (\<forall>slot \<in> set (ww_files s'). slot_settled_by reg cx (ww_phase s = PhaseClosing) slot))"
  using assms
proof (induction remaining arbitrary: s rule: less_induct)
  case (less remaining)
  obtain pr s1 where p: "ws_pass ops cx count count False remaining s =
      (pr :: ('i, 'e) write_error write_pass, s1)"
    by fastforce
  note loop = less.prems(1) [unfolded ws_loop.simps [of ops cx count remaining s] p prod.case]
  show ?case
  proof (cases pr)
    case (WPassError e)
    with loop show ?thesis by simp
  next
    case WPassExhausted
    with loop ws_pass_logs [OF p] show ?thesis by auto
  next
    case (WPassDone progressed remaining')
    have logs: "ws_logs s s1" using ws_pass_logs [OF p] WPassDone by auto
    show ?thesis
    proof (cases progressed)
      case False
      with loop WPassDone have s': "s' = s1" by simp
      from p WPassDone False have "ws_pass ops cx count count False remaining s =
          (WPassDone False remaining' :: ('i, 'e) write_error write_pass, s1)" by simp
      note st = ws_pass_settled [OF this less.prems(3-5)]
      have "slot_settled_by reg cx (ww_phase s = PhaseClosing) (ww_files s1 ! i)" if i: "i < count" for i
      proof -
        obtain k where "k < count" "(ww_poll_cursor s + k) mod count = i"
          using rotation_covers [OF less.prems(4) i] by blast
        with st show ?thesis by blast
      qed
      with st logs s' show ?thesis by (auto simp: in_set_conv_nth)
    next
      case True
      have lt: "remaining' < remaining"
        using ws_pass_remaining [OF p [unfolded WPassDone]] True by simp
      have m: "ws_moves (write_file_contract ops (\<lambda>_ _. True) () (\<lambda>_ _. ()) (\<lambda>_. ()))
          (slot_holds (\<lambda>_ _. True) () (\<lambda>_ _. ()) (\<lambda>_. ())) s s1"
        using moves.pass_relation [OF p less.prems(2-4), of "\<lambda>_ _. True" "()" "\<lambda>_ _. ()" "\<lambda>_. ()"] WPassDone
        by simp
      have "ws_loop ops cx count remaining' s1 =
          (Ok () :: (unit, ('i, 'e) write_error) result, s')"
        using loop WPassDone True by simp
      from less.IH [OF lt this] m ws_moves_length [OF m] less.prems(3-5)
      have "ws_logs s1 s' \<and> (ws_woken cx s1 s' \<or>
        (\<forall>slot \<in> set (ww_files s'). slot_settled_by reg cx (ww_phase s = PhaseClosing) slot))"
        by (simp add: ws_moves_def)
      with logs show ?thesis by (auto intro: ws_logs_trans ws_woken_after)
    qed
  qed
qed

lemma ws_drive_settled:
  fixes s :: "('t, 'f, 'r, 'a, 'p) writer"
  assumes "ws_drive ops cx s = (Ok () :: (unit, ('i, 'e) write_error) result, s')"
    and "ws_inv s" "write_registers ops reg"
  shows "ws_logs s s' \<and> (ws_woken cx s s' \<or>
    (\<forall>slot \<in> set (ww_files s'). slot_settled_by reg cx (ww_phase s = PhaseClosing) slot))"
proof (cases "ww_files s = []")
  case True
  with assms(1) show ?thesis by (simp add: ws_drive_def)
next
  case False
  with assms ws_loop_settled [of ops cx "length (ww_files s)" max_poll_ops s s' reg] show ?thesis
    by (simp add: ws_drive_def Let_def)
qed

section \<open>Pending polls\<close>

text \<open>What a settled destination that has frames left, or is full, or has no more input, waits for.\<close>

lemma settled_registers:
  assumes "slot_settled_by reg cx closing slot" "slot_ok c limit tot slot"
    and "\<not> slot_done slot" "w_assigned slot \<noteq> 0"
    and "closing \<or> w_assigned slot = w_capacity slot \<or> limit = 0 \<and> 0 < frames_len (w_frames slot)"
  shows "reg cx (w_file slot)"
  using assms
  by (auto simp: slot_settled_by_def slot_starved_def slot_ok_defs Let_def frames_next_None unat_eq_zero
      split: if_splits)

lemma ws_ensure_capacity_logs: "ws_ensure_capacity cx m s = (Ok b, s') \<Longrightarrow> ws_logs s s'"
  using ws_shrink_to_logs [of s "ww_used s"]
  by (auto simp: ws_ensure_capacity_def Let_def ws_logs_def
      split: if_splits prod.splits poll.splits result.splits)

lemma ws_start_partial_logs:
  assumes "ws_start_partial fa pf cx s = (Ok () :: (unit, ('x, 'e) write_error) result, s')"
  shows "ws_logs s s'"
proof (cases "ww_partial s \<noteq> None \<or> length (ww_files s) \<le> ww_fill_index s \<or>
    ws_limit s - ww_used s < ws_needed (ww_files s ! ww_fill_index s) s")
  case True
  with assms have "s' = s" unfolding ws_start_partial_def Let_def by (auto split: if_splits)
  then show ?thesis by simp
next
  case False
  obtain r s1 where e: "ws_ensure_capacity cx
      (ww_used s + ws_needed (ww_files s ! ww_fill_index s) s) s =
      (r :: (bool, ('x, 'e) write_error) result, s1)"
    by fastforce
  with assms False obtain b where r: "r = Ok b"
    unfolding ws_start_partial_def Let_def by (cases r) auto
  have "ws_logs s s1" using ws_ensure_capacity_logs e r by blast
  moreover have "ww_wakes s' = ww_wakes s1"
    using assms False e r unfolding ws_start_partial_def Let_def
    by (auto split: prod.splits if_splits bool.splits)
  ultimately show ?thesis by (simp add: ws_logs_def)
qed

text \<open>With no capacity for a new frame, some destination still has work that releases capacity.\<close>

lemma ws_blocked_registers:
  assumes inv: "ws_inv s" and ph: "ww_phase s = PhaseWriting" and none: "ww_partial s = None"
    and cap: "p_capacity (ww_permit s) \<le> b_total (ww_budget s)" and files: "ww_files s \<noteq> []"
    and head: "\<not> slot_done (hd (ww_files s))"
    and settled: "\<forall>slot \<in> set (ww_files s). slot_settled_by reg cx False slot"
    and blocked: "ww_fill_index s = length (ww_files s) \<or>
      ws_limit s < ww_used s + ws_needed (ww_files s ! ww_fill_index s) s"
  shows "\<exists>slot \<in> set (ww_files s). reg cx (w_file slot)"
proof -
  let ?limit = "max_retries (ww_config s)" and ?tot = "b_total (ww_budget s)" and ?fi = "ww_fill_index s"
  have core: "ws_core s" using inv by (simp add: ws_inv_def)
  have lay: "files_layout ?fi (ww_files s)" using core ph by (simp add: ws_core_def)
  have ok: "slot_ok False ?limit ?tot slot" if "slot \<in> set (ww_files s)" for slot
    using core ph that by (simp add: ws_core_def)
  have used: "ww_used s = files_used ?limit (ww_files s)" "ww_used s \<le> ?tot"
    "0 < ?tot" "0 < target_frames (window (ww_config s))"
    using core none cap by (auto simp: ws_core_def partial_used_def valid_window_def)
  show ?thesis
  proof (cases "?fi = length (ww_files s)")
    case True
    let ?head = "hd (ww_files s)"
    have mem: "?head \<in> set (ww_files s)" using files by simp
    have "w_assigned ?head = w_capacity ?head"
      using lay files True by (auto simp: files_layout_def hd_conv_nth)
    moreover from this have "w_assigned ?head \<noteq> 0" using ok [OF mem] by (auto simp: slot_ok_def)
    ultimately have "reg cx (w_file ?head)"
      by (intro settled_registers [OF bspec [OF settled mem] ok [OF mem] head]) simp_all
    with mem show ?thesis by blast
  next
    case False
    then have fi: "?fi < length (ww_files s)" using lay by (simp add: files_layout_def)
    have over: "ws_limit s < ww_used s + ws_needed (ww_files s ! ?fi) s" using blocked False by simp
    have "ws_needed (ww_files s ! ?fi) s \<le> ws_limit s"
    proof (cases "?limit = 0")
      case True
      with used(3,4) show ?thesis by (simp add: ws_needed_def ws_limit_def total_capacity_def)
    next
      case False
      moreover have "unat (w_capacity (ww_files s ! ?fi)) \<le> ?tot"
        using ok [of "ww_files s ! ?fi"] fi False by (simp add: slot_ok_def word_neq_0_conv)
      ultimately show ?thesis by (simp add: ws_needed_def ws_limit_def total_capacity_def)
    qed
    with over have "ww_used s \<noteq> 0" by linarith
    then obtain slot where mem: "slot \<in> set (ww_files s)" and busy: "slot_used ?limit slot \<noteq> 0"
      using used(1) by (auto simp: files_used_def sum_list_eq_0_iff)
    have assigned: "w_assigned slot \<noteq> 0" using slot_ok_unassigned [OF ok [OF mem]] busy by blast
    have undone: "\<not> slot_done slot"
    proof (cases "?limit = 0")
      case True
      with busy have "0 < frames_len (w_frames slot)" by (simp add: slot_used_def)
      with ok [OF mem] show ?thesis
        by (auto simp: slot_ok_defs slot_done_def split: file_state.splits)
    qed (use busy in \<open>auto simp: slot_used_def split: if_splits\<close>)
    have "w_assigned slot = w_capacity slot \<or> ?limit = 0 \<and> 0 < frames_len (w_frames slot)"
    proof (cases "?limit = 0")
      case False
      obtain i where i: "i < length (ww_files s)" "slot = ww_files s ! i"
        using mem by (auto simp: in_set_conv_nth)
      have "i \<noteq> ?fi"
      proof
        assume "i = ?fi"
        with i False assigned have "ws_needed (ww_files s ! ?fi) s = 0" by (simp add: ws_needed_def)
        with over used(2) False show False by (simp add: ws_limit_def total_capacity_def)
      qed
      with i lay assigned show ?thesis by (auto simp: files_layout_def not_less_iff_gr_or_eq)
    qed (use busy in \<open>simp add: slot_used_def\<close>)
    then have "reg cx (w_file slot)"
      by (intro settled_registers [OF bspec [OF settled mem] ok [OF mem] undone assigned]) simp
    with mem show ?thesis by blast
  qed
qed

lemma completed_zero_head:
  "completed_files files = 0 \<Longrightarrow> files \<noteq> [] \<Longrightarrow> \<not> slot_done (hd files)"
  by (cases files) (auto simp: completed_files_def split: if_splits)

text \<open>
  What a pending \<open>poll_write\<close> waits for: the task is woken already, or a destination, the input or
  the budget has the waker. The scheduler's own waker is set for a later change of the queue.
\<close>

lemma ws_poll_write_pending:
  fixes s s' :: "('t, 'f, 'r, 'a, 'p) writer" and ops :: "('t, 'f, 'e, 'r) write_file"
    and pf :: "('p, 'i, 'o, 't, 'x) partial_frame"
  assumes p: "ws_poll_write ops fa pf cx input s = (Pending, input', s')" and inv: "ws_inv s"
    and reg: "write_registers ops reg" and regi: "input_registers pf regi"
    and cap: "p_capacity (ww_permit s') \<le> b_total (ww_budget s')"
  shows "ww_waker s' = Some cx \<and>
    (ws_woken cx s s' \<or> (\<exists>slot \<in> set (ww_files s'). reg cx (w_file slot)) \<or>
     (\<exists>q. ww_partial s' = Some q \<and> regi cx q input') \<or> ws_queued cx s')"
  using p inv
proof (cases rule: ws_poll_write_cases [where rep = "\<lambda>_ _. True" and init = "()" and add = "\<lambda>_ _. ()"
      and committed = "\<lambda>_. ()"])
  case (filled s1 s2)
  have inv0: "ws_inv (s\<lparr>ww_waker := None\<rparr>)" using inv by simp
  have frame: "ww_files s2 = ww_files s1" "ww_fill_index s2 = ww_fill_index s1"
    "ww_config s2 = ww_config s1" "b_total (ww_budget s2) = b_total (ww_budget s1)"
    using filled(4) permit_run_frame [of "(ww_permit s1, ww_budget s1)" "(ww_permit s2, ww_budget s2)"]
    by (simp_all add: ws_started_def ws_safe_def)
  have settled: "ws_woken cx s s2 \<or> (\<forall>slot \<in> set (ww_files s2). slot_settled_by reg cx False slot)"
    using ws_drive_settled [OF filled(2) inv0 reg] ws_start_partial_logs [OF filled(9)] filled(1)
      ws_woken_before [of cx s s1 s2]
    by (auto simp: frame ws_woken_def)
  from filled(5,7,8) show ?thesis
  proof (cases rule: ws_fill_cases)
    case none
    note fr = ws_reports_frame [OF none(2)]
    from none(2) have w: "ww_waker s' = Some cx" "completed_files (ww_files s2) = 0"
      "max_active_files (window (ww_config s2)) \<le> length (ww_files s2)"
      unfolding ws_reports_def by (cases rule: ws_report_cases; simp)+
    have files: "ww_files s2 \<noteq> []"
      using w(3) ws_inv_valid [OF filled(7)] by (auto simp: valid_window_def)
    have "ww_used s2 = ww_used s1" "ww_fill_index s2 = length (ww_files s2) \<or>
        ws_limit s2 < ww_used s2 + ws_needed (ww_files s2 ! ww_fill_index s2) s2 \<or> ws_queued cx s2"
      using filled(4) none(1) frame
      by (auto simp: ws_started_def ws_limit_def ws_needed_def total_capacity_def)
    moreover have "ws_queued cx s' = ws_queued cx s2" by (simp add: ws_queued_def fr)
    moreover have "\<exists>slot \<in> set (ww_files s2). reg cx (w_file slot)"
      if "\<forall>slot \<in> set (ww_files s2). slot_settled_by reg cx False slot"
        "ww_fill_index s2 = length (ww_files s2) \<or>
         ws_limit s2 < ww_used s2 + ws_needed (ww_files s2 ! ww_fill_index s2) s2"
      by (rule ws_blocked_registers [OF filled(7,8) none(1) _ files
            completed_zero_head [OF w(2) files] that]) (use cap in \<open>simp add: fr\<close>)
    moreover have "ws_woken cx s s' = ws_woken cx s s2" by (simp add: ws_woken_def fr)
    ultimately show ?thesis using settled w(1) by (auto simp: fr)
  next
    case (pending q q')
    note fr = ws_reports_frame [OF pending(3)]
    from pending(3) have "ww_waker s' = Some cx"
      unfolding ws_reports_def by (cases rule: ws_report_cases) simp_all
    moreover have "regi cx q' input'" using regi pending(2) unfolding input_registers_def by blast
    ultimately show ?thesis by (simp add: fr)
  qed simp_all
qed simp_all

lemma ws_poll_close_pending:
  fixes s s' :: "('t, 'f, 'r, 'a, 'p) writer" and ops :: "('t, 'f, 'e, 'r) write_file"
    and pf :: "('p, 'i, 'o, 't, 'x) partial_frame"
  assumes p: "ws_poll_close ops pf cx s = (Pending, s')" and inv: "ws_inv s"
    and reg: "write_registers ops reg"
  shows "ww_waker s' = Some cx \<and> ww_files s' \<noteq> [] \<and>
    (ws_woken cx s s' \<or> (\<forall>slot \<in> set (ww_files s'). \<not> slot_done slot \<longrightarrow> reg cx (w_file slot)))"
  using p inv
proof (cases rule: ws_poll_close_cases [where rep = "\<lambda>_ _. True" and init = "()" and add = "\<lambda>_ _. ()"
      and committed = "\<lambda>_. ()"])
  case (pending s1 s2)
  have inv1: "ws_inv s1" using pending(5) by (simp add: ws_safe_def)
  have inv2: "ws_inv s2" and ph2: "ww_phase s2 = PhaseClosing"
    using pending(3,4) by (simp_all add: ws_moves_def)
  have logs: "ws_logs s s1"
  proof (cases "ww_phase s = PhaseWriting")
    case False
    with pending(2) have "s1 = s\<lparr>ww_waker := None\<rparr>" by (simp add: ws_begin_close_def)
    then show ?thesis by (simp add: ws_logs_def)
  next
    case True
    obtain s3 where fl: "ws_flush_partial pf (s\<lparr>ww_waker := None, ww_phase := PhaseClosing\<rparr>) =
        (Ok () :: (unit, ('x, 'e) write_error) result, s3)"
      using ws_begin_close_outcome [OF pending(2)] inv True by auto
    have "s1 = ws_shrink_to (ww_used s3) (s3\<lparr>ww_files := drop_unused (ww_files s3)\<rparr>)"
      using pending(2) True fl unfolding ws_begin_close_def Let_def by simp
    moreover have "ww_wakes s3 = ww_wakes s"
      using fl unfolding ws_flush_partial_def Let_def
      by (auto split: option.splits if_splits)
    ultimately show ?thesis
      using ws_shrink_to_logs [of "s3\<lparr>ww_files := drop_unused (ww_files s3)\<rparr>" "ww_used s3"]
      by (simp add: ws_logs_def)
  qed
  have "reg cx (w_file slot)"
    if "\<forall>slot \<in> set (ww_files s2). slot_settled_by reg cx True slot" "slot \<in> set (ww_files s2)"
      "\<not> slot_done slot" for slot
  proof -
    have "slot_ok True (max_retries (ww_config s2)) (b_total (ww_budget s2)) slot"
      "w_assigned slot \<noteq> 0"
      using inv2 ph2 that(2) by (simp_all add: ws_inv_defs)
    then show ?thesis
      using settled_registers [OF bspec [OF that(1,2)] _ that(3)] by simp
  qed
  moreover have "ws_woken cx s s' = ws_woken cx s s2" using pending(9) by (simp add: ws_woken_def)
  ultimately show ?thesis
    using ws_drive_settled [OF pending(7) inv1 reg] logs pending(4,9,11) ws_woken_after [of s s1 cx s2]
    by auto
qed simp_all

end
