(* ===== verification/Write_Polls.thy ===== *)
theory Write_Polls
  imports Write_Close
begin

text \<open>
  How often a drive of the write scheduler polls its destinations: in turn, starting where the last
  drive stopped, and none more than \<open>256\<close> times, whether the drive ends well or with an error.
\<close>

section \<open>Turns\<close>

text \<open>\<open>n\<close> turns among \<open>count\<close> places, from \<open>start\<close> on.\<close>

definition round_robin :: "nat \<Rightarrow> nat \<Rightarrow> nat \<Rightarrow> nat list" where
  "round_robin start count n = map (\<lambda>k. (start + k) mod count) [0..<n]"

lemma length_round_robin [simp]: "length (round_robin start count n) = n"
  by (simp add: round_robin_def)

lemma round_robin_0 [simp]: "round_robin start count 0 = []"
  by (simp add: round_robin_def)

lemma round_robin_append:
  "start' mod count = (start + n) mod count \<Longrightarrow>
     round_robin start count n @ round_robin start' count n' = round_robin start count (n + n')"
proof (rule nth_equalityI)
  fix i
  assume s: "start' mod count = (start + n) mod count" and "i < length (round_robin start count n @ round_robin start' count n')"
  moreover have "(start' + k) mod count = (start + n + k) mod count" for k
    using s by (metis mod_add_left_eq)
  moreover have "\<not> i < n \<Longrightarrow> i - n < n'" using calculation by simp
  ultimately show "(round_robin start count n @ round_robin start' count n') ! i = round_robin start count (n + n') ! i"
    by (simp add: round_robin_def nth_append)
qed simp

lemma round_robin_mod: "round_robin (start mod count) count n = round_robin start count n"
  by (simp add: round_robin_def mod_add_left_eq)

lemma round_robin_Suc: "round_robin start count (Suc n) = start mod count # round_robin (start mod count + 1) count n"
  using round_robin_append [of "start mod count + 1" count start 1 n]
  by (simp add: round_robin_def mod_simps)

lemma count_list_distinct: "distinct xs \<Longrightarrow> count_list xs x = (if x \<in> set xs then 1 else 0)"
  by (induction xs) auto

lemma round_robin_once:
  assumes "i < count"
  shows "count_list (round_robin start count count) i = 1"
proof -
  have "set (round_robin start count count) = {..<count}"
  proof
    show "{..<count} \<subseteq> set (round_robin start count count)"
      using assms rotation_covers [of count _ start] by (force simp: round_robin_def)
  qed (use assms in \<open>auto simp: round_robin_def\<close>)
  moreover from this have "distinct (round_robin start count count)"
    by (intro card_distinct) simp
  ultimately show ?thesis using assms by (simp add: count_list_distinct)
qed

text \<open>Nobody is two turns ahead of anybody.\<close>

lemma round_robin_count:
  assumes "i < count" "r < count"
  shows "q \<le> count_list (round_robin start count (q * count + r)) i \<and>
    count_list (round_robin start count (q * count + r)) i \<le> (if r = 0 then q else Suc q)"
proof (induction q arbitrary: start)
  case 0
  have "round_robin start count count = round_robin start count r @ round_robin (start + r) count (count - r)"
    using assms(2) round_robin_append [of "start + r" count start r "count - r"] by simp
  then have "count_list (round_robin start count r) i \<le> 1"
    using round_robin_once [OF assms(1), of start] by simp
  then show ?case by (cases "r = 0") simp_all
next
  case (Suc q)
  have "round_robin start count (Suc q * count + r) =
      round_robin start count count @ round_robin (start + count) count (q * count + r)"
    using round_robin_append [of "start + count" count start count "q * count + r"] by (simp add: algebra_simps)
  with Suc.IH [of "start + count"] round_robin_once [OF assms(1), of start] show ?case by auto
qed

lemma round_robin_fair:
  assumes "i < count" "j < count"
  shows "count_list (round_robin start count n) i \<le> Suc (count_list (round_robin start count n) j)"
  using round_robin_count [of i count "n mod count" "n div count" start]
    round_robin_count [of j count "n mod count" "n div count" start] assms
  by (simp split: if_splits)

lemma round_robin_bound:
  assumes "n \<le> q * count" "0 < count"
  shows "count_list (round_robin start count n) i \<le> q"
proof (cases "i < count")
  case True
  have "n div count < q \<or> n div count = q \<and> n mod count = 0"
    using assms by (metis div_le_mono div_mult_self_is_m div_mult_mod_eq le_antisym nat_less_le
        add_le_same_cancel1 le_zero_eq)
  with round_robin_count [OF True, of "n mod count" "n div count" start] assms(2) show ?thesis
    by (auto split: if_splits)
next
  case False
  then have "i \<notin> set (round_robin start count n)"
    using assms(2) by (auto simp: round_robin_def dest: sym)
  then show ?thesis by (simp add: count_list_0_iff)
qed

section \<open>The polls of a drive\<close>

text \<open>
  The drive once more, now with the list of the positions that it polls, in order. The list is there
  after a failure too, when the queue is gone. The results are those of the drive itself, so that
  the list is a record of its polls.
\<close>

fun ws_pass_log ::
    "('t, 'f, 'e, 'r) write_file \<Rightarrow> waker \<Rightarrow> nat \<Rightarrow> nat \<Rightarrow> bool \<Rightarrow> nat
      \<Rightarrow> ('t, 'f, 'r, 'a, 'p) writer
      \<Rightarrow> nat list \<times> ('i, 'e) write_error write_pass \<times> ('t, 'f, 'r, 'a, 'p) writer" where
  "ws_pass_log ops cx 0 count progressed remaining s = ([], WPassDone progressed remaining, s)"
| "ws_pass_log ops cx (Suc n) count progressed remaining s =
     (let index = ww_poll_cursor s mod count
      in if length (ww_files s) \<le> index then ([], ws_pass ops cx (Suc n) count progressed remaining s)
         else
           let (res, slot) = slot_poll ops cx (ww_phase s = PhaseClosing)
                 (max_retries (ww_config s)) (ww_files s ! index);
               s1 = polled s count slot
           in case res of
                Err error \<Rightarrow> ([index], WPassError (WBackend error), ws_fail s1)
              | Ok (changed, released) \<Rightarrow>
                  let s1 = ws_release changed released (slot_done slot) s1
                  in if changed \<and> remaining - 1 = 0
                     then ([index], WPassExhausted, s1\<lparr>ww_wakes := ww_wakes s1 @ [cx]\<rparr>)
                     else
                       let (polls, done) = ws_pass_log ops cx n count (changed \<or> progressed)
                             (if changed then remaining - 1 else remaining) s1
                       in (index # polls, done))"

lemma ws_pass_log_pass:
  "snd (ws_pass_log ops cx n count progressed remaining s) =
     (ws_pass ops cx n count progressed remaining s
       :: ('g, 'e) write_error write_pass \<times> ('t, 'f, 'r, 'a, 'p) writer)"
proof (induction n arbitrary: progressed remaining s)
  case (Suc n)
  then show ?case
    by (simp add: Let_def polled_def split_beta split: result.split)
qed simp

lemma ws_pass_log_remaining:
  assumes "ws_pass_log ops cx n count progressed remaining s = (polls, WPassDone progressed' remaining', s')"
  shows "remaining' \<le> remaining \<and> (progressed' \<and> \<not> progressed \<longrightarrow> remaining' < remaining)"
  by (rule ws_pass_remaining, subst ws_pass_log_pass [symmetric], subst assms) simp

function ws_loop_log ::
    "('t, 'f, 'e, 'r) write_file \<Rightarrow> waker \<Rightarrow> nat \<Rightarrow> nat \<Rightarrow> ('t, 'f, 'r, 'a, 'p) writer
      \<Rightarrow> nat list \<times> (unit, ('i, 'e) write_error) result \<times> ('t, 'f, 'r, 'a, 'p) writer" where
  "ws_loop_log ops cx count remaining s =
     (case ws_pass_log ops cx count count False remaining s of
        (polls, WPassError error, s) \<Rightarrow> (polls, Err error, s)
      | (polls, WPassExhausted, s) \<Rightarrow> (polls, Ok (), s)
      | (polls, WPassDone progressed remaining, s) \<Rightarrow>
          if \<not> progressed then (polls, Ok (), s)
          else let (more, done) = ws_loop_log ops cx count remaining s in (polls @ more, done))"
  by pat_completeness auto
termination
  by (relation "measure (\<lambda>(ops, cx, count, remaining, s). remaining)")
    (auto dest!: ws_pass_log_remaining [OF sym])

declare ws_loop_log.simps [simp del]

definition ws_drive_log ::
    "('t, 'f, 'e, 'r) write_file \<Rightarrow> waker \<Rightarrow> ('t, 'f, 'r, 'a, 'p) writer
      \<Rightarrow> nat list \<times> (unit, ('i, 'e) write_error) result \<times> ('t, 'f, 'r, 'a, 'p) writer" where
  "ws_drive_log ops cx s =
     (let count = length (ww_files s)
      in if count = 0 then ([], Ok (), s) else ws_loop_log ops cx count max_poll_ops s)"

text \<open>\<open>m\<close> counts the polls of a destination: each increases it by at most one.\<close>

definition counts_write_polls :: "('t, 'f, 'e, 'r) write_file \<Rightarrow> ('f \<Rightarrow> nat) \<Rightarrow> bool" where
  "counts_write_polls ops m \<longleftrightarrow>
     (\<forall>cx f. m (snd (wf_poll_open ops cx f)) \<le> Suc (m f)) \<and>
     (\<forall>cx f t. m (snd (wf_poll_write ops cx f t)) \<le> Suc (m f)) \<and>
     (\<forall>cx f. m (snd (wf_poll_close ops cx f)) \<le> Suc (m f))"

lemma slot_poll_counts:
  assumes p: "slot_poll ops cx closing limit slot = (res, slot')" and c: "counts_write_polls ops m"
  shows "m (w_file slot') \<le> Suc (m (w_file slot))"
proof -
  have o1: "m f' \<le> Suc (m f)" if "wf_poll_open ops cx f = (r, f')" for f f' r
    using c that unfolding counts_write_polls_def by (metis snd_conv)
  have o2: "m f' \<le> Suc (m f)" if "wf_poll_write ops cx f t = (r, f')" for f f' r t
    using c that unfolding counts_write_polls_def by (metis snd_conv)
  have o3: "m f' \<le> Suc (m f)" if "wf_poll_close ops cx f = (r, f')" for f f' r
    using c that unfolding counts_write_polls_def by (metis snd_conv)
  from p show ?thesis
  proof (cases rule: slot_poll_cases)
    case (error g e)
    then have "m g \<le> Suc (m (w_file slot))" using o1 o2 o3 by blast
    with error(1) show ?thesis by (cases rule: slot_retry_cases) auto
  next
    case (pending g)
    then show ?thesis using o1 o2 o3 by auto
  qed (use o1 o2 o3 in auto)
qed

lemma ws_pass_positive:
  assumes "ws_pass ops cx n count progressed remaining s = (WPassDone progressed' remaining', s')"
    and "0 < remaining"
  shows "0 < remaining'"
  using assms
proof (induction n arbitrary: progressed remaining s)
  case (Suc n)
  from Suc.prems(1) show ?case
    by (cases rule: ws_pass_step) (use Suc.prems(2) in \<open>auto dest: Suc.IH\<close>)
qed simp

text \<open>A pass gives every destination one turn, unless it ends early.\<close>

lemma ws_pass_log_turns:
  fixes s s' :: "('t, 'f, 'r, 'a, 'p) writer" and pr :: "('i, 'e) write_error write_pass"
  assumes "ws_pass_log ops cx n count progressed remaining s = (polls, pr, s')"
    and "count = length (ww_files s)" "0 < count"
  shows "polls = round_robin (ww_poll_cursor s) count (length polls) \<and> length polls \<le> n \<and>
    (\<forall>p r. pr = WPassDone p r \<longrightarrow> length polls = n \<and> ww_poll_cursor s' mod count = (ww_poll_cursor s + n) mod count) \<and>
    ((\<forall>e. pr \<noteq> WPassError e) \<longrightarrow> length (ww_files s') = count \<and> (counts_write_polls ops m \<longrightarrow>
       (\<forall>i < count. m (w_file (ww_files s' ! i)) \<le> m (w_file (ww_files s ! i)) + count_list polls i)))"
  using assms
proof (induction n arbitrary: progressed remaining s polls)
  case 0
  then show ?case by auto
next
  case (Suc n)
  let ?i = "ww_poll_cursor s mod count"
  have i: "?i < length (ww_files s)" using Suc.prems(2,3) by simp
  obtain res slot where o: "slot_poll ops cx (ww_phase s = PhaseClosing) (max_retries (ww_config s))
      (ww_files s ! ?i) = (res, slot)" by fastforce
  have one: "round_robin (ww_poll_cursor s) count (Suc 0) = [?i]" by (simp add: round_robin_def)
  have counted: "m (w_file ((ww_files s)[?i := slot] ! j)) \<le> m (w_file (ww_files s ! j)) + count_list [?i] j"
    if "counts_write_polls ops m" for j
    using slot_poll_counts [OF o that] i by (cases "j = ?i") simp_all
  show ?case
  proof (cases res)
    case (Err e)
    with Suc.prems(1) o i have "polls = [?i]" "pr = WPassError (WBackend e)"
      by (auto simp: Let_def)
    then show ?thesis by (simp add: one)
  next
    case (Ok x)
    obtain changed released where x: "x = (changed, released)" by fastforce
    let ?s = "ws_release changed released (slot_done slot) (polled s count slot)"
    have sel: "ww_files ?s = (ww_files s)[?i := slot]" "ww_poll_cursor ?s = (?i + 1) mod count"
      by simp_all
    show ?thesis
    proof (cases "changed \<and> remaining - 1 = 0")
      case True
      with Suc.prems(1) o i Ok x have "polls = [?i]" "pr = WPassExhausted" "ww_files s' = ww_files ?s"
        by (auto simp: Let_def)
      with counted show ?thesis by (simp add: one sel(1) Suc.prems(2) [symmetric])
    next
      case False
      obtain polls' where log: "ws_pass_log ops cx n count (changed \<or> progressed)
          (if changed then remaining - 1 else remaining) ?s = (polls', pr, s')" and polls: "polls = ?i # polls'"
        using Suc.prems(1) o i Ok x False by (auto simp: Let_def split: prod.splits if_splits)
      have turn: "round_robin (ww_poll_cursor ?s) count k = round_robin (?i + 1) count k" for k
        by (simp only: sel(2) round_robin_mod)
      have len: "count = length (ww_files ?s)" using Suc.prems(2) by simp
      note ih = Suc.IH [OF log len Suc.prems(3)]
      have "polls = round_robin (ww_poll_cursor s) count (length polls)"
        using ih polls turn by (simp add: round_robin_Suc)
      moreover have "m (w_file (ww_files s' ! j)) \<le> m (w_file (ww_files s ! j)) + count_list polls j"
        if "counts_write_polls ops m" "\<forall>e. pr \<noteq> WPassError e" "j < count" for j
        using ih that counted [OF that(1), of j] polls by (auto simp: sel(1) split: if_splits)
      moreover have "(ww_poll_cursor ?s + n) mod count = (ww_poll_cursor s + Suc n) mod count"
        by (simp add: sel(2) mod_simps)
      ultimately show ?thesis using ih polls by (auto simp del: ws_release_sel)
    qed
  qed
qed

text \<open>Every pass but the last has progressed, so that there are at most \<open>remaining\<close> passes.\<close>

lemma ws_loop_log_turns:
  fixes s s' :: "('t, 'f, 'r, 'a, 'p) writer" and res :: "(unit, ('i, 'e) write_error) result"
  assumes "ws_loop_log ops cx count remaining s = (polls, res, s')"
    and "count = length (ww_files s)" "0 < count" "0 < remaining"
  shows "polls = round_robin (ww_poll_cursor s) count (length polls) \<and> length polls \<le> remaining * count \<and>
    ws_loop ops cx count remaining s = (res, s') \<and>
    (res = Ok () \<longrightarrow> length (ww_files s') = count \<and> (counts_write_polls ops m \<longrightarrow>
       (\<forall>i < count. m (w_file (ww_files s' ! i)) \<le> m (w_file (ww_files s ! i)) + count_list polls i)))"
  using assms
proof (induction remaining arbitrary: s polls rule: less_induct)
  case (less remaining)
  obtain ps pr s1 where p: "ws_pass_log ops cx count count False remaining s =
      (ps, pr :: ('i, 'e) write_error write_pass, s1)" by (metis prod_cases3)
  have pass: "ws_pass ops cx count count False remaining s = (pr, s1)"
    using ws_pass_log_pass [of ops cx count count False remaining s, where 'g = 'i] p by simp
  note log = less.prems(1) [unfolded ws_loop_log.simps [of ops cx count remaining s] p prod.case]
  note turns = ws_pass_log_turns [OF p less.prems(2,3), of m]
  have one: "count \<le> remaining * count" using less.prems(4) by (cases remaining) simp_all
  show ?case
  proof (cases "\<exists>remaining'. pr = WPassDone True remaining'")
    case False
    with log have "polls = ps" "s' = s1" and res: "res = (case pr of WPassError e \<Rightarrow> Err e | _ \<Rightarrow> Ok ())"
      by (cases pr; auto split: if_splits)+
    moreover have "ws_loop ops cx count remaining s = (res, s')"
      using False \<open>s' = s1\<close> res by (subst ws_loop.simps) (cases pr; auto simp: pass)
    moreover have "(\<forall>e. pr \<noteq> WPassError e) \<longleftrightarrow> res = Ok ()" using res by (cases pr) simp_all
    moreover have "length ps \<le> remaining * count" using turns one by linarith
    ultimately show ?thesis using turns by auto
  next
    case True
    then obtain remaining' where pr: "pr = WPassDone True remaining'" by blast
    obtain more where more: "ws_loop_log ops cx count remaining' s1 = (more, res, s')" and polls: "polls = ps @ more"
      using log pr by (auto split: prod.splits)
    have lt: "remaining' < remaining" using ws_pass_remaining [OF pass [unfolded pr]] by simp
    have pos: "0 < remaining'" using ws_pass_positive [OF pass [unfolded pr] less.prems(4)] .
    have files: "count = length (ww_files s1)" "length ps = count"
      "ww_poll_cursor s1 mod count = (ww_poll_cursor s + count) mod count"
      "ps = round_robin (ww_poll_cursor s) count count"
      using turns pr by auto
    note ih = less.IH [OF lt more files(1) less.prems(3) pos]
    have "polls = round_robin (ww_poll_cursor s) count (length polls)"
      using ih round_robin_append [OF files(3), of "length more"] files(2,4) by (simp add: polls)
    moreover have "length polls \<le> remaining * count"
    proof -
      have "length polls \<le> Suc remaining' * count" using ih files(2) by (simp add: polls)
      also have "\<dots> \<le> remaining * count" using lt by (intro mult_right_mono) simp_all
      finally show ?thesis .
    qed
    moreover have "ws_loop ops cx count remaining s = (res, s')"
      using ih by (subst ws_loop.simps) (simp add: pass pr)
    moreover have "m (w_file (ww_files s' ! j)) \<le> m (w_file (ww_files s ! j)) + count_list polls j"
      if "counts_write_polls ops m" "res = Ok ()" "j < count" for j
      using ih turns pr that by (fastforce simp: polls)
    ultimately show ?thesis using ih by blast
  qed
qed

lemma ws_drive_log_turns:
  fixes res :: "(unit, ('i, 'e) write_error) result"
  assumes "ws_drive ops cx s = (res, s')"
  shows "\<exists>polls. ws_drive_log ops cx s = (polls, res, s') \<and>
    polls = round_robin (ww_poll_cursor s) (length (ww_files s)) (length polls) \<and>
    length polls \<le> max_poll_ops * length (ww_files s) \<and>
    (res = Ok () \<longrightarrow> length (ww_files s') = length (ww_files s) \<and> (counts_write_polls ops m \<longrightarrow>
       (\<forall>i < length (ww_files s). m (w_file (ww_files s' ! i)) \<le> m (w_file (ww_files s ! i)) + count_list polls i)))"
proof (cases "ww_files s = []")
  case True
  with assms show ?thesis by (auto simp: ws_drive_def ws_drive_log_def intro!: exI [of _ "[]"])
next
  case False
  obtain polls r t where l: "ws_loop_log ops cx (length (ww_files s)) max_poll_ops s =
      (polls, r :: (unit, ('i, 'e) write_error) result, t)" by (metis prod_cases3)
  have "0 < length (ww_files s)" "0 < max_poll_ops" using False by (simp_all add: max_poll_ops_def)
  note turns = ws_loop_log_turns [OF l refl this, of m]
  from assms False turns have rt: "r = res" "t = s'" by (simp_all add: ws_drive_def Let_def)
  have "ws_drive_log ops cx s = (polls, res, s')"
    using l False by (simp add: ws_drive_log_def rt)
  then show ?thesis by (rule exI [of _ polls, OF conjI]) (use turns in \<open>simp add: rt\<close>)
qed

end
