(* ===== verification/Write_Retries.thy ===== *)
theory Write_Retries
  imports Write_Run
begin

text \<open>
  What the scheduler does to each destination: one that has received no frame is left exactly as it
  was accepted, and every failed operation of the others is counted in its retries.
\<close>

section \<open>Failures\<close>

text \<open>\<open>m\<close> counts the failed operations of a destination.\<close>

definition counts_failures :: "('t, 'f, 'e, 'r) write_file \<Rightarrow> ('f \<Rightarrow> nat) \<Rightarrow> bool" where
  "counts_failures ops m \<longleftrightarrow>
     (\<forall>cx f f' r. wf_poll_open ops cx f = (r, f') \<longrightarrow>
        m f' = m f + (case r of Ready (Err e) \<Rightarrow> 1 | _ \<Rightarrow> 0)) \<and>
     (\<forall>cx f t f' r. wf_poll_write ops cx f t = (r, f') \<longrightarrow>
        m f' = m f + (case r of Ready (Err e) \<Rightarrow> 1 | _ \<Rightarrow> 0)) \<and>
     (\<forall>cx f f' r. wf_poll_close ops cx f = (r, f') \<longrightarrow>
        m f' = m f + (case r of Ready (Err e) \<Rightarrow> 1 | _ \<Rightarrow> 0))"

lemma counts_failuresD:
  assumes "counts_failures ops m"
  shows "wf_poll_open ops cx f = (r, f') \<Longrightarrow> m f' = m f + (case r of Ready (Err e) \<Rightarrow> 1 | _ \<Rightarrow> 0)"
    "wf_poll_write ops cx f t = (r, f') \<Longrightarrow> m f' = m f + (case r of Ready (Err e) \<Rightarrow> 1 | _ \<Rightarrow> 0)"
    "wf_poll_close ops cx f = (r', f') \<Longrightarrow> m f' = m f + (case r' of Ready (Err e) \<Rightarrow> 1 | _ \<Rightarrow> 0)"
  using assms unfolding counts_failures_def by blast+

lemma slot_poll_failures:
  assumes p: "slot_poll ops cx closing limit slot = (res, slot')" and c: "counts_failures ops m"
    and ok: "w_retries slot \<le> limit"
  shows "m (w_file slot') + unat (w_retries slot) = m (w_file slot) + unat (w_retries slot') +
    (case res of Err e \<Rightarrow> 1 | Ok x \<Rightarrow> 0)"
    and "res = Err e \<Longrightarrow> w_retries slot = limit"
proof -
  note d = counts_failuresD [OF c]
  have "m (w_file slot') + unat (w_retries slot) = m (w_file slot) + unat (w_retries slot') +
    (case res of Err e \<Rightarrow> 1 | Ok x \<Rightarrow> 0) \<and> (\<forall>e. res = Err e \<longrightarrow> w_retries slot = limit)"
    using p
  proof (cases rule: slot_poll_cases)
    case (error g e)
    then have g: "m g = Suc (m (w_file slot))" by (auto dest: d)
    from error(1) show ?thesis
    proof (cases rule: slot_retry_cases)
      case retry
      with ok have "w_retries slot < limit" by simp
      from u32_less_Suc [OF this] retry g show ?thesis by simp
    qed (use g in simp)
  qed (auto dest: d)
  then show "m (w_file slot') + unat (w_retries slot) = m (w_file slot) + unat (w_retries slot') +
    (case res of Err e \<Rightarrow> 1 | Ok x \<Rightarrow> 0)" and "res = Err e \<Longrightarrow> w_retries slot = limit"
    by blast+
qed

section \<open>Drives\<close>

definition same_backend :: "('f \<Rightarrow> nat) \<Rightarrow> bool \<Rightarrow> ('t, 'f, 'r) write_slot \<Rightarrow> ('t, 'f, 'r) write_slot \<Rightarrow> bool" where
  "same_backend m C a b \<longleftrightarrow>
     w_assigned b = w_assigned a \<and> (w_assigned a = 0 \<longrightarrow> w_file b = w_file a) \<and>
     (C \<longrightarrow> m (w_file b) + unat (w_retries a) = m (w_file a) + unat (w_retries b))"

definition backend_moves ::
    "('f \<Rightarrow> nat) \<Rightarrow> bool \<Rightarrow> ('t, 'f, 'r, 'a, 'p) writer \<Rightarrow> ('t, 'f, 'r, 'a, 'p) writer \<Rightarrow> bool" where
  "backend_moves m C s s' \<longleftrightarrow>
     ws_inv s' \<and> ww_config s' = ww_config s \<and> ww_phase s' = ww_phase s \<and>
     list_all2 (same_backend m C) (ww_files s) (ww_files s')"

lemma same_backend_refl: "same_backend m C a a"
  by (simp add: same_backend_def)

lemma same_backend_trans: "same_backend m C a b \<Longrightarrow> same_backend m C b c \<Longrightarrow> same_backend m C a c"
  by (auto simp: same_backend_def)

lemma backend_moves_trans:
  assumes "backend_moves m C s s'" "backend_moves m C s' s''"
  shows "backend_moves m C s s''"
proof -
  have "list_all2 (same_backend m C) (ww_files s) (ww_files s'')"
  proof (rule list_all2_trans)
    show "list_all2 (same_backend m C) (ww_files s) (ww_files s')"
      "list_all2 (same_backend m C) (ww_files s') (ww_files s'')"
      using assms by (simp_all add: backend_moves_def)
  qed (rule same_backend_trans)
  with assms show ?thesis by (simp add: backend_moves_def)
qed

lemma polled_backend:
  fixes s :: "('t, 'f, 'r, 'a, 'p) writer"
  assumes inv: "ws_inv s" and i: "ww_poll_cursor s mod count < length (ww_files s)"
    and p: "slot_poll ops cx (ww_phase s = PhaseClosing) (max_retries (ww_config s))
      (ww_files s ! (ww_poll_cursor s mod count)) = (Ok (changed, released), slot)"
  shows "backend_moves m (counts_failures ops m) s
    (ws_release changed released (slot_done slot) (polled s count slot))"
proof -
  let ?i = "ww_poll_cursor s mod count"
  let ?old = "ww_files s ! ?i"
  have core: "ws_core s" using inv by (simp add: ws_inv_def)
  note ok = ws_core_slot [OF core i]
  have idle: "w_file slot = w_file ?old" if "w_assigned ?old = 0"
    using slot_ok_unassigned(1) [OF ok that] p by (auto simp: slot_poll_def)
  have "w_retries ?old \<le> max_retries (ww_config s)" using ok by (simp add: slot_ok_def)
  with slot_poll_failures(1) [OF p, of m] slot_poll_ok(2) [OF p ok] idle
  have "same_backend m (counts_failures ops m) ?old slot" by (auto simp: same_backend_def)
  then have "list_all2 (same_backend m (counts_failures ops m)) (ww_files s) ((ww_files s)[?i := slot])"
    using i by (auto simp: list_all2_conv_all_nth nth_list_update same_backend_refl)
  then show ?thesis
    using polled_moves [OF inv i p, of "\<lambda>_ _. True" "()" "\<lambda>_ _. ()" "\<lambda>_. ()"]
    by (simp add: backend_moves_def ws_moves_def)
qed

interpretation backends: drive_relation ops cx "backend_moves m (counts_failures ops m)"
  for ops :: "('t, 'f, 'e, 'r) write_file" and cx and m :: "'f \<Rightarrow> nat"
proof
  let ?R = "backend_moves m (counts_failures ops m)"
  show "?R s s" if "ws_inv s" for s :: "('t, 'f, 'r, 'a, 'p) writer"
    using that by (simp add: backend_moves_def list_all2_refl same_backend_refl)
  show "?R s s''" if "?R s s'" "?R s' s''" for s s' s'' :: "('t, 'f, 'r, 'a, 'p) writer"
    using that by (rule backend_moves_trans)
  show "ws_inv s' \<and> length (ww_files s') = length (ww_files s)" if "?R s s'"
    for s s' :: "('t, 'f, 'r, 'a, 'p) writer"
    using that by (auto simp: backend_moves_def dest: list_all2_lengthD)
  show "?R s (s'\<lparr>ww_wakes := ww_wakes s' @ [cx]\<rparr>)" if "?R s s'"
    for s s' :: "('t, 'f, 'r, 'a, 'p) writer"
    using that by (simp add: backend_moves_def)
qed (rule polled_backend)

section \<open>Runs\<close>

text \<open>A retained destination and the one that was accepted.\<close>

definition backend_of :: "('f \<Rightarrow> nat) \<Rightarrow> bool \<Rightarrow> 'f \<Rightarrow> ('t, 'f, 'r) write_slot \<Rightarrow> bool" where
  "backend_of m C f slot \<longleftrightarrow>
     (w_assigned slot = 0 \<longrightarrow> w_file slot = f) \<and>
     (C \<longrightarrow> m (w_file slot) = m f + unat (w_retries slot))"

text \<open>\<open>k\<close> destinations have been returned.\<close>

definition backend_state ::
    "('f \<Rightarrow> nat) \<Rightarrow> bool \<Rightarrow> 'f list \<Rightarrow> nat \<Rightarrow> ('t, 'f, 'r, 'a, 'p) writer \<Rightarrow> bool" where
  "backend_state m C accepted k s \<longleftrightarrow>
     k + length (ww_files s) \<le> length accepted \<and>
     (ww_phase s = PhaseWriting \<longrightarrow> k + length (ww_files s) = length accepted) \<and>
     list_all2 (backend_of m C) (take (length (ww_files s)) (drop k accepted)) (ww_files s)"

lemma backend_state_same:
  "backend_state m C accepted k s \<Longrightarrow> ww_files s' = ww_files s \<Longrightarrow> ww_phase s' = ww_phase s \<Longrightarrow>
     backend_state m C accepted k s'"
  by (simp add: backend_state_def)

lemma backend_state_failed:
  "backend_state m C accepted k s \<Longrightarrow> ws_inv s' \<Longrightarrow> ww_phase s' = PhaseFailed \<Longrightarrow>
     backend_state m C accepted k s'"
  by (simp add: backend_state_def ws_inv_def ws_phase_ok_def)

lemma backend_state_moves:
  fixes s s' :: "('t, 'f, 'r, 'a, 'p) writer"
  assumes st: "backend_state m C accepted k s" and mv: "backend_moves m C s s'"
  shows "backend_state m C accepted k s'"
proof -
  have all: "list_all2 (same_backend m C) (ww_files s) (ww_files s')"
    and ph: "ww_phase s' = ww_phase s"
    using mv by (simp_all add: backend_moves_def)
  have step: "backend_of m C f b" if "backend_of m C f a" "same_backend m C a b"
    for f and a b :: "('t, 'f, 'r) write_slot"
    using that by (auto simp: backend_of_def same_backend_def)
  have before: "list_all2 (backend_of m C) (take (length (ww_files s)) (drop k accepted)) (ww_files s)"
    using st by (simp add: backend_state_def)
  have "list_all2 (backend_of m C) (take (length (ww_files s)) (drop k accepted)) (ww_files s')"
    by (rule list_all2_trans [OF _ before all]) (rule step)
  with st ph list_all2_lengthD [OF all] show ?thesis by (simp add: backend_state_def)
qed

lemma backend_state_drive:
  fixes s :: "('t, 'f, 'r, 'a, 'p) writer"
  assumes "backend_state m (counts_failures ops m) accepted k s" "ws_inv s"
    and "ws_drive ops cx s = (Ok () :: (unit, ('i, 'e) write_error) result, s')"
  shows "backend_state m (counts_failures ops m) accepted k s'"
  using backends.drive_relation [OF assms(3,2), of m] backend_state_moves [OF assms(1)] by simp

text \<open>A new frame does not touch the backend of its destination.\<close>

lemma backend_state_flush:
  fixes res :: "(unit, ('x, 'e) write_error) result"
  assumes fl: "ws_flush_partial pf s = (res, s')" and core: "ws_core s" and ph: "ww_phase s \<noteq> PhaseFailed"
    and st: "backend_state m C accepted k s"
  shows "backend_state m C accepted k s'"
  using fl core ph
proof (cases rule: ws_flush_cases)
  case none
  with st show ?thesis by simp
next
  case (empty p)
  with st show ?thesis by (simp add: backend_state_def)
next
  case (frame p)
  let ?i = "ww_fill_index s"
  let ?slot = "ww_files s ! ?i"
  have i: "?i < length (ww_files s)" using core frame(1) by (simp add: ws_core_def)
  have lay: "files_layout ?i (ww_files s)" using core ph by (simp add: ws_core_def)
  have all: "list_all2 (backend_of m C) (take (length (ww_files s)) (drop k accepted)) (ww_files s)"
    using st by (simp add: backend_state_def)
  have "unat (w_assigned ?slot + 1) = Suc (unat (w_assigned ?slot))"
    using lay i by (intro u32_less_Suc [of _ "w_capacity ?slot"]) (simp add: files_layout_def)
  then have "w_assigned ?slot + 1 \<noteq> 0" by auto
  then have "backend_of m C f (fill_slot (pf_finish pf p) ?slot)" if "backend_of m C f ?slot" for f
    using that by (simp add: backend_of_def)
  then have "list_all2 (backend_of m C) (take (length (ww_files s)) (drop k accepted))
      ((ww_files s)[?i := fill_slot (pf_finish pf p) ?slot])"
    using all i by (auto simp: list_all2_conv_all_nth nth_list_update)
  with st frame(4) show ?thesis by (simp add: backend_state_def)
qed

lemma backend_state_push:
  assumes "backend_state m C accepted k s" "ww_phase s = PhaseWriting"
    and "backend_of m C f slot" "ww_files s' = ww_files s @ [slot]"
  shows "backend_state m C (accepted @ [f]) k s'"
  using assms by (auto simp: backend_state_def list_all2_appendI)

lemma backend_state_pop:
  assumes st: "backend_state m C accepted k s" and files: "ww_files s = slot # files"
    and s': "ww_files s' = files" "ww_phase s' = ww_phase s"
  shows "backend_state m C accepted (Suc k) s'"
proof -
  have len: "k < length accepted" using st files by (simp add: backend_state_def)
  then have "drop k accepted = accepted ! k # drop (Suc k) accepted" by (simp add: Cons_nth_drop_Suc)
  with st files s' show ?thesis by (auto simp: backend_state_def)
qed

lemma backend_state_drop:
  assumes st: "backend_state m C accepted k s" and files: "ww_files s = kept @ unused"
    and s': "ww_files s' = kept" "ww_phase s' \<noteq> PhaseWriting"
  shows "backend_state m C accepted k s'"
proof -
  have "list_all2 (backend_of m C) (take (length kept + length unused) (drop k accepted)) (kept @ unused)"
    using st files by (simp add: backend_state_def)
  moreover have "length kept \<le> length accepted - k"
    using st files by (auto simp: backend_state_def)
  then have "length (take (length kept) (drop k accepted)) = length kept" by simp
  ultimately have "list_all2 (backend_of m C) (take (length kept) (drop k accepted)) kept"
    by (simp add: take_add list_all2_append)
  with st files s' show ?thesis by (simp add: backend_state_def)
qed

lemma backend_state_begin_close:
  fixes res :: "(unit, ('x, 'e) write_error) result"
  assumes b: "ws_begin_close pf s = (res, s')" and inv: "ws_inv s" and ph: "ww_phase s \<noteq> PhaseFailed"
    and st: "backend_state m C accepted k s"
  shows "backend_state m C accepted k s'"
proof (cases "ww_phase s = PhaseWriting")
  case False
  with b st show ?thesis by (simp add: ws_begin_close_def)
next
  case True
  let ?s = "s\<lparr>ww_phase := PhaseClosing\<rparr>"
  obtain s1 where fl: "ws_flush_partial pf ?s = (Ok () :: (unit, ('x, 'e) write_error) result, s1)"
    and s': "ww_files s' = drop_unused (ww_files s1)" "ww_phase s' = PhaseClosing"
    using ws_begin_close_outcome [OF b inv True] by blast
  have core: "ws_core ?s"
    using inv True by (auto simp: ws_inv_def ws_core_def partial_used_def ws_needed_def slot_ok_closing)
  have "backend_state m C accepted k ?s" using st by (simp add: backend_state_def)
  with backend_state_flush [OF fl core] have "backend_state m C accepted k s1" by simp
  moreover obtain unused where "ww_files s1 = drop_unused (ww_files s1) @ unused"
    using drop_unused_append by blast
  ultimately show ?thesis by (rule backend_state_drop) (simp_all add: s')
qed

lemma backend_state_poll_write:
  fixes s s' :: "('t, 'f, 'r, 'a, 'p) writer" and pf :: "('p, 'i, 'o, 't, 'x) partial_frame"
  assumes p: "ws_poll_write ops fa pf cx input s = (res, input', s')" and inv: "ws_inv s"
    and st: "backend_state m (counts_failures ops m) accepted k s"
  shows "backend_state m (counts_failures ops m) accepted k s'"
  using p inv
proof (cases rule: ws_poll_write_cases [where rep = "\<lambda>_ _. True" and init = "()" and add = "\<lambda>_ _. ()"
      and committed = "\<lambda>_. ()"])
  case closed
  with st show ?thesis by (simp add: backend_state_def)
next
  case (failed e)
  with st show ?thesis by (auto simp: ws_safe_def intro: backend_state_failed)
next
  case (filled s1 s2)
  have "backend_state m (counts_failures ops m) accepted k (s\<lparr>ww_waker := None\<rparr>)"
    using st by (simp add: backend_state_def)
  from backend_state_drive [OF this _ filled(2)] inv
  have "backend_state m (counts_failures ops m) accepted k s1" by simp
  with filled(4) have st2: "backend_state m (counts_failures ops m) accepted k s2"
    by (auto simp: ws_started_def intro: backend_state_same)
  from filled(5,7,8) show ?thesis
  proof (cases rule: ws_fill_cases)
    case none
    with st2 ws_reports_frame [OF none(2)] show ?thesis by (auto intro: backend_state_same)
  next
    case (pending p p')
    with st2 ws_reports_frame [OF pending(3)] show ?thesis by (auto intro: backend_state_same)
  next
    case (failed e)
    with st2 show ?thesis by (auto simp: ws_safe_def intro: backend_state_failed)
  next
    case (stored p out p')
    with st2 show ?thesis by (simp add: backend_state_def)
  next
    case (flushed p out p')
    have "ws_core (s2\<lparr>ww_partial := Some p'\<rparr>)"
      using ws_partial_inv [OF filled(7) flushed(1)] by (simp add: ws_inv_def)
    moreover have "backend_state m (counts_failures ops m) accepted k (s2\<lparr>ww_partial := Some p'\<rparr>)"
      using st2 by (simp add: backend_state_def)
    ultimately show ?thesis using backend_state_flush [OF flushed(5)] filled(8) by simp
  qed
qed

lemma backend_state_poll_close:
  fixes s s' :: "('t, 'f, 'r, 'a, 'p) writer" and pf :: "('p, 'i, 'o, 't, 'x) partial_frame"
  assumes p: "ws_poll_close ops pf cx s = (res, s')" and inv: "ws_inv s"
    and st: "backend_state m (counts_failures ops m) accepted k s"
  shows "backend_state m (counts_failures ops m) accepted k s'"
proof -
  have st0: "backend_state m (counts_failures ops m) accepted k (s\<lparr>ww_waker := None\<rparr>)"
    using st by (simp add: backend_state_def)
  have begun: "backend_state m (counts_failures ops m) accepted k s1"
    if "ws_begin_close pf (s\<lparr>ww_waker := None\<rparr>) = (Ok () :: (unit, ('x, 'e) write_error) result, s1)"
      "ww_phase s \<noteq> PhaseFailed" for s1
    by (rule backend_state_begin_close [OF that(1) _ _ st0]) (use that(2) inv in simp_all)
  show ?thesis
    using p inv
  proof (cases rule: ws_poll_close_cases [where rep = "\<lambda>_ _. True" and init = "()" and add = "\<lambda>_ _. ()"
        and committed = "\<lambda>_. ()"])
    case closed
    with st show ?thesis by (simp add: backend_state_def)
  next
    case (failed e)
    with st show ?thesis by (auto simp: ws_safe_def intro: backend_state_failed)
  next
    case (completed s1)
    with backend_state_drive [OF begun [OF completed(2,1)] _ completed(7)] show ?thesis
      by (simp add: ws_safe_def)
  next
    case (pending s1 s2)
    with backend_state_drive [OF begun [OF pending(2,1)] _ pending(7)] show ?thesis
      by (simp add: ws_safe_def backend_state_def)
  qed
qed

lemma backend_state_step:
  fixes s s' :: "('t, 'f, 'r, 'a, 'p) writer" and ev :: "('i, 'o, 'f, 'r, 'e, 'x) write_event"
  assumes stp: "ws_step ops fa pf (s, caps) ev (s', caps')" and inv: "ws_inv s"
    and st: "backend_state m (counts_failures ops m) accepted k s"
  shows "backend_state m (counts_failures ops m) (accepted @ accepted_destination ev)
    (k + length (returned_result ev)) s'"
  using stp
proof (cases rule: ws_step.cases)
  case (push f res)
  from push(3) inv show ?thesis
  proof (cases rule: ws_push_file_cases)
    case accepted
    have "backend_of m (counts_failures ops m) f (slot_new ops f (max_retries (ww_config s) > 0))"
      by (simp add: backend_of_def)
    from backend_state_push [OF st accepted(1) this, of s'] push(1) accepted(4,5) show ?thesis by simp
  qed (use push(1) st in simp_all)
next
  case (set_window w res)
  from set_window(3) inv show ?thesis
    by (cases rule: ws_set_window_cases)
      (use set_window(1) st in \<open>auto intro: backend_state_same\<close>)
next
  case (poll_write cx input res input')
  from backend_state_poll_write [OF poll_write(3) inv st] poll_write(1) show ?thesis
    by (cases res) (auto split: result.splits)
next
  case (pop_swap f res)
  from pop_swap(3) inv show ?thesis
  proof (cases rule: ws_pop_swap_cases)
    case (swapped slot files out new)
    let ?mid = "s\<lparr>ww_files := files\<rparr>"
    have "backend_state m (counts_failures ops m) accepted (Suc k) ?mid"
      by (rule backend_state_pop [OF st swapped(2)]) simp_all
    moreover have "backend_of m (counts_failures ops m) f new" by (simp add: swapped(7) backend_of_def)
    ultimately show ?thesis
      using backend_state_push [of m "counts_failures ops m" accepted "Suc k" ?mid f new s']
        swapped(1,5,7,8) pop_swap(1) by simp
  qed (use pop_swap(1) st in simp_all)
next
  case (poll_close cx res)
  from backend_state_poll_close [OF poll_close(3) inv st] poll_close(1) show ?thesis by simp
next
  case (pop_file res)
  from pop_file(3) inv show ?thesis
  proof (cases rule: ws_pop_file_cases)
    case (popped slot files out)
    with backend_state_pop [OF st popped(2), of s'] pop_file(1) show ?thesis by simp
  qed (use pop_file(1) st in simp_all)
next
  case (others e b')
  with st show ?thesis by (simp add: backend_state_def)
qed

lemma run_backends:
  fixes evs :: "('i, 'o, 'f, 'r, 'e, 'x) write_event list"
  assumes "ws_run ops fa pf n allocator evs x"
  shows "backend_state m (counts_failures ops m) (accepted_destinations evs)
    (length (returned_results evs)) (fst x)"
  using assms
proof (induction rule: ws_run.induct)
  case (created b caps config s)
  then show ?case by (simp add: backend_state_def ws_new_cases)
next
  case (stepped evs x ev y)
  have inv: "ws_inv (fst x)" using ws_run_state [OF stepped(1)] by (simp add: write_state_def)
  have "ws_step ops fa pf (fst x, snd x) ev (fst y, snd y)" using stepped(2) by simp
  from backend_state_step [OF this inv stepped(3)] show ?case by simp
qed

end
