(* ===== verification/Write_Account.thy ===== *)
theory Write_Account
  imports Write_Run
begin

text \<open>
  Two accounts of a run of a writer: the errors it reported, and the capacity that the frames it
  retains take.
\<close>

section \<open>Reported errors\<close>

text \<open>\<open>InputClosed\<close> is the answer to a call that comes too late, not a failure.\<close>

fun write_fault_of :: "('i, 'o, 'f, 'r, 'e, 'x) write_event \<Rightarrow> ('x, 'e) write_error list" where
  "write_fault_of (WWrite cx input (Ready (Err e)) input') =
     (if e = WContract InputClosed then [] else [e])"
| "write_fault_of (WClose cx (Ready (Err e))) = (if e = WContract InputClosed then [] else [e])"
| "write_fault_of _ = []"

definition write_faults :: "('i, 'o, 'f, 'r, 'e, 'x) write_event list \<Rightarrow> ('x, 'e) write_error list" where
  "write_faults evs = concat (map write_fault_of evs)"

lemma write_faults_snoc [simp]:
  "write_faults [] = []" "write_faults (evs @ [ev]) = write_faults evs @ write_fault_of ev"
  by (simp_all add: write_faults_def)

lemma failed_answer_no_fault: "failed_answer ev \<Longrightarrow> write_fault_of ev = []"
  by (cases ev; auto)

lemma write_fault_not_closed: "write_fault e \<Longrightarrow> e \<noteq> WContract InputClosed"
  by (auto simp: write_fault_def)

text \<open>A step of a working writer fails it exactly when the step reports a fault.\<close>

lemma ws_step_fault:
  fixes s s' :: "('t, 'f, 'r, 'a, 'p) writer" and ev :: "('i, 'o, 'f, 'r, 'e, 'x) write_event"
  assumes st: "ws_step ops fa pf (s, caps) ev (s', caps')" and inv: "ws_inv s"
    and ph: "ww_phase s \<noteq> PhaseFailed"
  shows "ww_phase s' \<noteq> PhaseFailed \<and> write_fault_of ev = [] \<or>
    ww_phase s' = PhaseFailed \<and> (\<exists>e. write_fault_of ev = [e] \<and> write_fault e)"
  using st
proof (cases rule: ws_step.cases)
  case (push f res)
  from push(3) inv show ?thesis
    by (cases rule: ws_push_file_cases) (use push(1) ph in simp_all)
next
  case (set_window w res)
  from set_window(3) inv show ?thesis
    by (cases rule: ws_set_window_cases) (use set_window(1) ph in simp_all)
next
  case (poll_write cx input res input')
  from poll_write(3) inv show ?thesis
  proof (cases rule: ws_poll_write_cases [where rep = "\<lambda>_ _. True" and init = "()" and add = "\<lambda>_ _. ()"
        and committed = "\<lambda>_. ()"])
    case closed
    with poll_write(1) ph show ?thesis by simp
  next
    case (failed e)
    with poll_write(1) write_fault_not_closed [OF failed(3)] show ?thesis by simp
  next
    case (filled s1 s2)
    from filled(5,7,8) show ?thesis
    proof (cases rule: ws_fill_cases)
      case none
      from none(2) have "write_fault_of ev = []"
        unfolding ws_reports_def poll_write(1) by (cases rule: ws_report_cases) simp_all
      with filled(8) ws_reports_frame(5) [OF none(2)] show ?thesis by simp
    next
      case (pending p p')
      from pending(3) have "write_fault_of ev = []"
        unfolding ws_reports_def poll_write(1) by (cases rule: ws_report_cases) simp_all
      with filled(8) ws_reports_frame(5) [OF pending(3)] show ?thesis by simp
    next
      case (failed e)
      with poll_write(1) write_fault_not_closed [of e] show ?thesis by simp
    next
      case (stored p out p')
      with poll_write(1) filled(8) show ?thesis by simp
    next
      case (flushed p out p')
      have core: "ws_core (s2\<lparr>ww_partial := Some p'\<rparr>)"
        using ws_partial_inv [OF filled(7) flushed(1)] by (simp add: ws_inv_def)
      have "ww_phase (s2\<lparr>ww_partial := Some p'\<rparr>) \<noteq> PhaseFailed" using filled(8) by simp
      with flushed(5) core have "ww_phase s' \<noteq> PhaseFailed"
        by (cases rule: ws_flush_cases) (use filled(8) in auto)
      with poll_write(1) flushed(6) show ?thesis by simp
    qed
  qed
next
  case (pop_swap f res)
  from pop_swap(3) inv show ?thesis
    by (cases rule: ws_pop_swap_cases) (use pop_swap(1) ph in simp_all)
next
  case (poll_close cx res)
  from poll_close(3) inv show ?thesis
    by (cases rule: ws_poll_close_cases [where rep = "\<lambda>_ _. True" and init = "()" and add = "\<lambda>_ _. ()"
        and committed = "\<lambda>_. ()"])
      (use poll_close(1) ph in \<open>auto simp: ws_moves_def write_fault_def\<close>)
next
  case (pop_file res)
  from pop_file(3) inv show ?thesis
    by (cases rule: ws_pop_file_cases) (use pop_file(1) ph in simp_all)
next
  case (others e b')
  with ph show ?thesis by simp
qed

lemma run_faults:
  fixes evs :: "('i, 'o, 'f, 'r, 'e, 'x) write_event list"
  assumes "ws_run ops fa pf n allocator evs x"
  shows "ww_phase (fst x) \<noteq> PhaseFailed \<and> write_faults evs = [] \<or>
    ww_phase (fst x) = PhaseFailed \<and> (\<exists>e. write_faults evs = [e] \<and> write_fault e)"
  using assms
proof (induction rule: ws_run.induct)
  case (created b caps config s)
  then show ?case by (simp add: ws_new_cases)
next
  case (stepped evs x ev y)
  have inv: "ws_inv (fst x)" using ws_run_state [OF stepped(1)] by (simp add: write_state_def)
  have st: "ws_step ops fa pf (fst x, snd x) ev (fst y, snd y)" using stepped(2) by simp
  show ?case
  proof (cases "ww_phase (fst x) = PhaseFailed")
    case True
    with stepped(3) ws_step_failed [OF st inv True] failed_answer_no_fault show ?thesis by auto
  next
    case False
    with stepped(3) ws_step_fault [OF st inv False] show ?thesis by auto
  qed
qed

section \<open>Capacity\<close>

text \<open>The frames retained never take more than what is reserved; without retries they take it exactly.\<close>

lemma slots_retained:
  assumes "\<forall>slot \<in> set files. slot_ok closing limit tot slot"
  shows "(\<Sum>slot \<leftarrow> files. frames_len (w_frames slot)) \<le> files_used limit files"
  unfolding files_used_def using assms
  by (intro sum_list_mono) (blast intro: slot_used_retained)

lemma ws_inv_retained:
  assumes "ws_inv s"
  shows "ws_retained_frames s \<le> ws_reserved_frames s"
    and "max_retries (ww_config s) = 0 \<Longrightarrow> ws_retained_frames s = ws_reserved_frames s"
proof -
  let ?limit = "max_retries (ww_config s)" and ?files = "ww_files s" and ?i = "ww_fill_index s"
  let ?held = "\<Sum>slot \<leftarrow> ?files. frames_len (w_frames slot)"
  have core: "ws_core s" using assms by (simp add: ws_inv_def)
  then have ok: "\<forall>slot \<in> set ?files. slot_ok (ww_phase s = PhaseClosing) ?limit (b_total (ww_budget s)) slot"
    and used: "ww_used s = files_used ?limit ?files + partial_used s"
    and fi: "ww_partial s \<noteq> None \<Longrightarrow> ?i < length ?files"
    by (simp_all add: ws_core_def)
  have zero: "files_used ?limit ?files = ?held" if "?limit = 0"
    unfolding files_used_def using that by (intro arg_cong [of _ _ sum_list]) (simp add: slot_used_def)
  then show "?limit = 0 \<Longrightarrow> ws_retained_frames s = ws_reserved_frames s"
    using used by (simp add: ws_retained_frames_def ws_reserved_frames_def partial_used_def ws_needed_def)
  show "ws_retained_frames s \<le> ws_reserved_frames s"
  proof (cases "ww_partial s = None \<or> ?limit = 0 \<or> w_assigned (?files ! ?i) = 0")
    case True
    have "ww_partial s = None \<or> 1 \<le> partial_used s"
    proof (cases "ww_partial s")
      case (Some p)
      have "slot_ok (ww_phase s = PhaseClosing) ?limit (b_total (ww_budget s)) (?files ! ?i)"
        using ws_core_slot [OF core fi] Some by simp
      then have "0 < unat (w_capacity (?files ! ?i))" by (simp add: slot_ok_def word_less_nat_alt)
      with True Some show ?thesis by (auto simp: partial_used_def ws_needed_def)
    qed simp
    with slots_retained [OF ok] used show ?thesis
      by (auto simp: ws_retained_frames_def ws_reserved_frames_def)
  next
    case False
    then have part: "ww_partial s \<noteq> None" and lim: "?limit \<noteq> 0"
      and asg: "w_assigned (?files ! ?i) \<noteq> 0" by simp_all
    let ?slot = "?files ! ?i"
    have sok: "slot_ok (ww_phase s = PhaseClosing) ?limit (b_total (ww_budget s)) ?slot"
      by (rule ws_core_slot [OF core fi [OF part]])
    have ph: "ww_phase s = PhaseWriting"
      using assms part by (auto simp: ws_inv_def ws_phase_ok_def split: phase.splits)
    then have lay: "files_layout ?i ?files" using core by (simp add: ws_core_def)
    then have room: "w_assigned ?slot < w_capacity ?slot"
      using fi [OF part] by (simp add: files_layout_def)
    have undone: "\<not> slot_done ?slot"
      using sok room ph by (auto simp: slot_ok_def slot_full_ok_def slot_done_def split: file_state.splits)
    have len: "frames_len (w_frames ?slot) \<le> unat (w_assigned ?slot)"
      using sok by (auto simp: slot_ok_defs Let_def split: file_state.splits if_splits)
    with room undone lim asg have one: "Suc (frames_len (w_frames ?slot)) \<le> slot_used ?limit ?slot"
      by (simp add: slot_used_def word_less_nat_alt)
    have "\<forall>slot \<in> set (take ?i ?files @ drop (Suc ?i) ?files).
        slot_ok (ww_phase s = PhaseClosing) ?limit (b_total (ww_budget s)) slot"
      using ok by (auto dest: in_set_takeD in_set_dropD)
    from slots_retained [OF this] one
    have "Suc (\<Sum>slot \<leftarrow> take ?i ?files @ ?slot # drop (Suc ?i) ?files. frames_len (w_frames slot)) \<le>
        files_used ?limit (take ?i ?files @ ?slot # drop (Suc ?i) ?files)"
      by (simp add: files_used_def)
    then have "Suc ?held \<le> files_used ?limit ?files"
      by (simp only: id_take_nth_drop [OF fi [OF part], symmetric])
    with used part show ?thesis by (simp add: ws_retained_frames_def ws_reserved_frames_def)
  qed
qed

end
