(* ===== verification/Memory_Destination.thy ===== *)
theory Memory_Destination
  imports Memory_Source Write_Order
begin

text \<open>
  \<open>examples/memory/src/main.rs\<close>, the writing half: the allocator, its one-value partial frame, and
  \<open>Destination\<close>, which sums the frames it accepts. A write is pending once before each frame and
  fails when the sum would overflow. \<open>dst_woken\<close> logs the wakers it has woken.
\<close>

section \<open>Partial frames\<close>

datatype memory_allocator = Allocator

record memory_partial =
  mp_value :: u32
  mp_complete :: bool

definition memory_allocate :: "memory_allocator \<Rightarrow> memory_partial \<times> memory_allocator" where
  "memory_allocate a = (\<lparr>mp_value = 0, mp_complete = False\<rparr>, a)"

definition memory_poll_fill ::
    "waker \<Rightarrow> memory_partial \<Rightarrow> u32 \<Rightarrow> (unit, 'x) result poll \<times> memory_partial \<times> u32" where
  "memory_poll_fill cx p input = (Ready (Ok ()), p\<lparr>mp_value := input, mp_complete := True\<rparr>, input)"

definition memory_is_complete :: "memory_partial \<Rightarrow> bool" where
  "memory_is_complete p \<longleftrightarrow> mp_complete p"

definition memory_is_empty :: "memory_partial \<Rightarrow> bool" where
  "memory_is_empty p \<longleftrightarrow> \<not> mp_complete p"

definition memory_finish :: "memory_partial \<Rightarrow> u32" where
  "memory_finish p = mp_value p"

definition memory_partial_ops :: "(memory_partial, u32, unit, u32, 'x) partial_frame" where
  "memory_partial_ops = \<lparr>pf_poll_fill = memory_poll_fill, pf_is_complete = memory_is_complete,
     pf_is_empty = memory_is_empty, pf_finish = memory_finish\<rparr>"

definition memory_allocator_ops :: "(memory_allocator, memory_partial) frame_allocator" where
  "memory_allocator_ops = \<lparr>fa_allocate = memory_allocate\<rparr>"

lemmas memory_frame_defs = memory_partial_ops_def memory_allocator_ops_def memory_allocate_def
  memory_poll_fill_def memory_is_complete_def memory_is_empty_def memory_finish_def

section \<open>Destinations\<close>

record destination =
  dst_capacity :: u32
  dst_sum :: u32
  dst_waiting :: bool
  dst_woken :: "waker list"

definition destination_new :: "u32 \<Rightarrow> destination" where
  "destination_new frames =
     \<lparr>dst_capacity = frames, dst_sum = 0, dst_waiting = True, dst_woken = []\<rparr>"

definition destination_frame_capacity :: "destination \<Rightarrow> u32" where
  "destination_frame_capacity f = dst_capacity f"

definition destination_poll_open :: "waker \<Rightarrow> destination \<Rightarrow> (unit, string) result poll \<times> destination" where
  "destination_poll_open cx f = (Ready (Ok ()), f\<lparr>dst_sum := 0\<rparr>)"

text \<open>\<open>u32::checked_add\<close>.\<close>

definition u32_checked_add :: "u32 \<Rightarrow> u32 \<Rightarrow> u32 option" where
  "u32_checked_add a b = (if uint a + uint b < 2 ^ 32 then Some (a + b) else None)"

definition destination_poll_write ::
    "waker \<Rightarrow> destination \<Rightarrow> u32 \<Rightarrow> (unit, string) result poll \<times> destination" where
  "destination_poll_write cx f frame =
     (if dst_waiting f
      then (Pending, f\<lparr>dst_waiting := False, dst_woken := dst_woken f @ [cx]\<rparr>)
      else
        let f = f\<lparr>dst_waiting := True\<rparr>
        in case u32_checked_add (dst_sum f) frame of
             None \<Rightarrow> (Ready (Err ''sum overflow''), f)
           | Some added \<Rightarrow> (Ready (Ok ()), f\<lparr>dst_sum := added\<rparr>))"

definition destination_poll_close :: "waker \<Rightarrow> destination \<Rightarrow> (u32, string) result poll \<times> destination" where
  "destination_poll_close cx f = (Ready (Ok (dst_sum f)), f)"

definition destination_ops :: "(u32, destination, string, u32) write_file" where
  "destination_ops = \<lparr>wf_frame_capacity = destination_frame_capacity,
     wf_poll_open = destination_poll_open, wf_poll_write = destination_poll_write,
     wf_poll_close = destination_poll_close\<rparr>"

lemmas destination_defs = destination_ops_def destination_frame_capacity_def
  destination_poll_open_def destination_poll_write_def destination_poll_close_def

section \<open>The contracts\<close>

text \<open>What a partial frame has taken, and the sum that a destination holds, without overflow.\<close>

definition memory_items :: "memory_partial \<Rightarrow> u32 list" where
  "memory_items p = (if mp_complete p then [mp_value p] else [])"

fun destination_rep :: "destination \<Rightarrow> (nat, u32) attempt \<Rightarrow> bool" where
  "destination_rep f Unopened = True"
| "destination_rep f (Holds acc) = (unat (dst_sum f) = acc)"
| "destination_rep f (Partway acc t) = (unat (dst_sum f) = acc)"

definition add_frame :: "nat \<Rightarrow> u32 \<Rightarrow> nat" where
  "add_frame acc frame = acc + unat frame"

lemma u32_checked_add_Some:
  "u32_checked_add a b = Some c \<Longrightarrow> unat c = unat a + unat b"
proof -
  assume "u32_checked_add a b = Some c"
  then have c: "c = a + b" and "uint a + uint b < 2 ^ 32"
    by (auto simp: u32_checked_add_def split: if_splits)
  then have "int (unat a + unat b) < int (2 ^ 32)" by simp
  then have "unat a + unat b < 2 ^ 32" by (simp only: of_nat_less_iff)
  with c show ?thesis by (simp add: unat_plus_if')
qed

lemma destination_takes:
  "destination_rep f a \<Longrightarrow> takes a acc t \<Longrightarrow> unat (dst_sum f) = acc"
  by (cases a) simp_all

interpretation summing: write_backend destination_ops destination_rep 0 add_frame "unat \<circ> snd"
  by unfold_locales
    (auto simp: destination_defs write_phase_defs add_frame_def Let_def u32_checked_add_Some
      split: if_splits option.splits dest: destination_takes)

text \<open>
  The partial frame is only ever filled once; a second fill would overwrite it, so the contract of
  frames, which is about incomplete ones, holds of it.
\<close>

definition memory_frame :: "u32 \<Rightarrow> u32 list" where
  "memory_frame frame = [frame]"

definition memory_taken :: "unit \<Rightarrow> u32 \<Rightarrow> u32 list" where
  "memory_taken out input = [input]"

interpretation memory: write_pipeline destination_ops destination_rep 0 add_frame "unat \<circ> snd"
    memory_allocator_ops "memory_partial_ops :: (memory_partial, u32, unit, u32, 'x) partial_frame"
    memory_items memory_frame memory_taken
    "\<lambda>_. True" "\<lambda>_. True" "\<lambda>_. True" "\<lambda>_. True"
  by unfold_locales (auto simp: memory_frame_defs memory_items_def memory_frame_def memory_taken_def)

text \<open>The destination behind \<open>Pin<Box<_>>\<close>.\<close>

interpretation boxed_destination: pinned_write destination_ops destination_rep 0 add_frame "unat \<circ> snd"
    pin_target pin_store
  by unfold_locales (simp add: pin_law_def pin_store_def)

lemma destination_contract:
  "write_file_contract destination_ops destination_rep 0 add_frame (unat \<circ> snd)"
  using summing.write_backend_axioms by (simp add: write_backend_iff)

lemma memory_frame_contract:
  "frame_contract memory_partial_ops memory_items memory_frame memory_taken"
  by (rule memory.contract)

end
