(* ===== verification/Write_Properties.thy ===== *)
theory Write_Properties
  imports Write_Order Write_Wakeup Write_Polls Write_Retries Write_Account Memory_Destination
begin

text \<open>
  The properties of the write scheduler, each with a witness on a run of the destinations of the
  memory example.
\<close>

section \<open>Example runs\<close>

type_synonym upload_writer = "(u32, destination, u32, memory_allocator, memory_partial) writer"
type_synonym upload_event = "(u32, unit, destination, u32, string, unit) write_event"

definition upload_partial :: "(memory_partial, u32, unit, u32, unit) partial_frame" where
  "upload_partial = memory_partial_ops"

definition upload_window :: "nat \<Rightarrow> window" where
  "upload_window n = \<lparr>target_frames = n, open_ahead_frames = 8, max_active_files = 2\<rparr>"

definition upload_config :: "u32 \<Rightarrow> scheduler_config" where
  "upload_config limit = config_new (upload_window 4) limit"

definition upload_start :: "u32 \<Rightarrow> upload_writer" where
  "upload_start limit = ws_start Allocator 8 (upload_config limit)"

definition upload_exec ::
    "u32 \<Rightarrow> (u32, destination) write_command list \<Rightarrow> upload_event list \<times> upload_writer" where
  "upload_exec limit cs =
     ws_exec destination_ops memory_allocator_ops upload_partial (upload_start limit) cs"

lemma upload_reachable:
  "ws_run destination_ops memory_allocator_ops upload_partial 8 Allocator (fst (upload_exec limit cs))
     (snd (upload_exec limit cs), \<lambda>_. 0)"
proof (rule ws_exec_start [of 8 "upload_config limit"])
  show "valid_window (window (upload_config limit))"
    by (simp add: upload_config_def config_new_def upload_window_def valid_window_def)
qed (simp_all add: upload_exec_def upload_start_def)

lemma upload_contract: "frame_contract upload_partial memory_items memory_frame memory_taken"
  by (simp add: upload_partial_def memory_frame_contract)

text \<open>The upload of \<open>main\<close>: six frames into destinations of two and four frames, with retries.\<close>

definition upload_commands :: "(u32, destination) write_command list" where
  "upload_commands =
     [DoAdmit (destination_new 2), DoAdmit (destination_new 4), DoFill 1 0, DoFill 1 1, DoFill 1 2,
      DoFill 1 3, DoSwap (destination_new 4), DoFill 1 4, DoFill 1 5, DoFinish 1,
      DoFinish 1, DoTake, DoFinish 1]"

definition upload_run :: "upload_event list \<times> upload_writer" where
  "upload_run = upload_exec 2 upload_commands"

lemmas upload_run_reachable =
  upload_reachable [where limit = 2 and cs = upload_commands, folded upload_run_def]

text \<open>An upload whose first destination fails: its sum overflows.\<close>

definition overflow_commands :: "(u32, destination) write_command list" where
  "overflow_commands =
     [DoAdmit (destination_new 2), DoAdmit (destination_new 4), DoFill 1 4294967295, DoFill 1 1,
      DoFill 1 2, DoFill 1 3]"

definition overflow_run :: "upload_event list \<times> upload_writer" where
  "overflow_run = upload_exec 0 overflow_commands"

lemmas overflow_run_reachable =
  upload_reachable [where limit = 0 and cs = overflow_commands, folded overflow_run_def]

text \<open>An upload that may buffer a single frame, which its first destination has not accepted yet.\<close>

definition pending_commands :: "(u32, destination) write_command list" where
  "pending_commands =
     [DoAdmit (destination_new 2), DoAdmit (destination_new 2),
      DoResize (upload_window 1), DoFill 1 1]"

definition pending_run :: "upload_event list \<times> upload_writer" where
  "pending_run = upload_exec 0 pending_commands"

lemmas pending_run_reachable =
  upload_reachable [where limit = 0 and cs = pending_commands, folded pending_run_def]

lemma upload_events:
  "fst upload_run =
     [WPush (destination_new 2) (Ok ()), WPush (destination_new 4) (Ok ())] @
     map (\<lambda>i. WWrite 1 i (Ready (Ok \<lparr>ws_output = Some (), ws_completed_files = 0,
        ws_missing_files = 0\<rparr>)) i) [0, 1, 2] @
     [WWrite 1 3 (Ready (Ok \<lparr>ws_output = Some (), ws_completed_files = 1, ws_missing_files = 0\<rparr>)) 3,
      WSwap (destination_new 4) (Ok ((destination_new 2)\<lparr>dst_sum := 1, dst_woken := [1, 1]\<rparr>, 1))] @
     map (\<lambda>i. WWrite 1 i (Ready (Ok \<lparr>ws_output = Some (), ws_completed_files = 0,
        ws_missing_files = 0\<rparr>)) i) [4, 5] @
     [WClose 1 Pending, WClose 1 (Ready (Ok 1)),
      WPop (Ok (Some ((destination_new 4)\<lparr>dst_sum := 14, dst_woken := [1, 1, 1, 1]\<rparr>, 14)))] @
     [WClose 1 (Ready (Ok 0))]"
  by code_simp

lemma upload_reading:
  "accepted_destinations (fst upload_run) = [destination_new 2, destination_new 4, destination_new 4]"
  "capacities destination_ops (fst upload_run) = [2, 4, 4]"
  "map snd (returned_results (fst upload_run)) = [1, 14]"
  "length (returned_results (fst upload_run)) = 2"
  "consumed_inputs memory_taken (fst upload_run) = [0, 1, 2, 3, 4, 5]"
  by (simp_all add: upload_events write_reading_defs memory_taken_def destination_defs
      destination_new_def)

lemma upload_phase: "ww_phase (snd upload_run) = PhaseClosing"
  by code_simp

section \<open>The data\<close>

lemma run_write_order:
  assumes "ws_run ops fa pf n allocator evs (s, caps)" and "write_file_contract ops rep init add committed"
    and "frame_contract pf items frame_items taken"
    and "\<forall>f \<in> set (accepted_destinations evs). rep f Unopened" and "ww_phase s \<noteq> PhaseFailed"
    and "frame_shape fa pf ready good piece whole" and "ready allocator"
  shows "\<exists>frames. write_order rep init add committed pf items frame_items ready good piece whole
    (capacities ops evs) (returned_results evs) (consumed_inputs taken evs) frames s"
proof -
  have "write_pipeline ops rep init add committed fa pf items frame_items taken ready good piece whole"
    using assms(2,3,6) by (simp add: write_pipeline_iff)
  from write_pipeline.run_order [OF this assms(1,4,7)] assms(5) show ?thesis by auto
qed

text \<open>
  C4: the input is committed in order. The destinations keep their contract and are handed over
  unopened. Along any run of a writer that has not failed, with any
  interleaving of admissions, window changes, swaps, polls and steps of the other users of the
  budget, the input consumed so far is the content of a list of frames followed by that of the
  partial frame; the frames are cut into one segment per accepted destination, in admission order
  and each as long as its capacity allows; every result handed back is that of its segment, and
  every retained destination holds its segment, part in its backend and the rest buffered, also in
  the middle of a retry.
\<close>
theorem write_in_order:
  assumes "ws_run ops fa pf n allocator evs (s, caps)" and "write_file_contract ops rep init add committed"
    and "frame_contract pf items frame_items taken"
    and "\<forall>f \<in> set (accepted_destinations evs). rep f Unopened" and "ww_phase s \<noteq> PhaseFailed"
  shows "\<exists>frames segs returned. segs = segments (capacities ops evs) frames \<and>
    returned = length (returned_results evs) \<and>
    consumed_inputs taken evs = concat (map frame_items frames) @
      (case ww_partial s of None \<Rightarrow> [] | Some p \<Rightarrow> items p) \<and>
    concat (take (returned + length (ww_files s)) segs) = frames \<and>
    list_all2 (\<lambda>r seg. committed r = foldl add init seg) (returned_results evs) (take returned segs) \<and>
    list_all2 (slot_holds rep init add committed)
      (take (length (ww_files s)) (drop returned segs)) (ww_files s)"
  using run_write_order [OF assms frame_shape_any TrueI] unfolding write_order_def Let_def by auto

theorem write_in_order_witness:
  "\<exists>frames. concat (map memory_frame frames) = [0, 1, 2, 3, 4, 5] \<and>
     list_all2 (\<lambda>r seg. unat r = foldl add_frame 0 seg) [1 :: u32, 14]
       (take 2 (segments [2, 4, 4] frames))"
proof -
  have "ww_partial (snd upload_run) = None" by code_simp
  moreover have "ww_phase (snd upload_run) \<noteq> PhaseFailed" by (simp add: upload_phase)
  note write_in_order [OF upload_run_reachable destination_contract upload_contract _ this]
  ultimately show ?thesis
    by (auto simp: upload_reading(1,2,4,5) upload_reading(3) [symmetric] list_all2_map1 comp_def)
qed

lemma run_closed:
  assumes "ws_run ops fa pf n allocator (evs @ [WClose cx (Ready (Ok 0))]) (s, caps)"
    and "write_file_contract ops rep init add committed"
    and "frame_contract pf items frame_items taken"
    and "\<forall>f \<in> set (accepted_destinations evs). rep f Unopened"
    and "frame_shape fa pf ready good piece whole" and "ready allocator"
  shows "ww_files s = [] \<and> ww_partial s = None \<and> ws_reserved_frames s = 0 \<and>
    write_faults evs = [] \<and>
    (\<exists>frames segs. consumed_inputs taken evs = concat (map frame_items frames) \<and>
       segs = take (length (returned_results evs)) (segments (capacities ops evs) frames) \<and>
       concat segs = frames \<and> [] \<notin> set segs \<and> list_all piece frames \<and> list_all whole (butlast frames) \<and>
       list_all2 (\<lambda>r seg. committed r = foldl add init seg) (returned_results evs) segs)"
proof -
  let ?ev = "WClose cx (Ready (Ok 0))"
  have st: "write_state n (s, caps)" by (rule ws_run_state [OF assms(1)])
  then have inv: "ws_inv s" by (simp add: write_state_def)
  obtain y where y: "ws_run ops fa pf n allocator evs y" "ws_step ops fa pf y ?ev (s, caps)"
    using assms(1) by (auto elim: ws_run.cases)
  obtain t where t: "ws_poll_close ops pf cx t = (Ready (Ok 0), s)" "y = (t, caps)"
    using y(2) by (auto elim: ws_step.cases)
  have "ws_inv t" using ws_run_state [OF y(1)] t(2) by (simp add: write_state_def)
  with t(1) have files: "ww_files s = [] \<and> ww_phase s = PhaseClosing"
    by (cases rule: ws_poll_close_cases [where rep = rep and init = init and add = add
        and committed = committed]) (auto simp: ws_moves_def)
  then have s: "ww_partial s = None" "ws_reserved_frames s = 0" "ww_phase s \<noteq> PhaseFailed"
    using inv by (simp_all add: ws_inv_defs ws_reserved_frames_def files_used_def partial_used_def)
  have "write_faults (evs @ [?ev]) = []" using run_faults [OF assms(1)] s(3) by simp
  moreover obtain frames where "write_order rep init add committed pf items frame_items
      ready good piece whole (capacities ops evs) (returned_results evs) (consumed_inputs taken evs) frames s"
    using run_write_order [OF assms(1-3) _ s(3) assms(5,6)] assms(4) by auto
  ultimately show ?thesis using files s by (auto simp: write_order_def Let_def split: if_splits)
qed

text \<open>
  C6: a completed close lost nothing, if the destinations keep their contract and are handed over
  unopened. When \<open>poll_close\<close> reports zero files, the writer retains no
  file, no frame and no capacity, and it reported no failure; the results handed back are, in
  admission order, those of the segments of a list of frames that holds all the input ever
  consumed. The segments are cut by the capacities of the accepted destinations, so every
  destination but the last to receive a frame was filled, and none that received no frame is
  handed back.
\<close>
theorem write_close_complete:
  assumes "ws_run ops fa pf n allocator (evs @ [WClose cx (Ready (Ok 0))]) (s, caps)"
    and "write_file_contract ops rep init add committed"
    and "frame_contract pf items frame_items taken"
    and "\<forall>f \<in> set (accepted_destinations evs). rep f Unopened"
  shows "ww_files s = [] \<and> ww_partial s = None \<and> ws_reserved_frames s = 0 \<and>
    write_faults evs = [] \<and>
    (\<exists>frames segs. consumed_inputs taken evs = concat (map frame_items frames) \<and>
       segs = take (length (returned_results evs)) (segments (capacities ops evs) frames) \<and>
       concat segs = frames \<and> [] \<notin> set segs \<and>
       list_all2 (\<lambda>r seg. committed r = foldl add init seg) (returned_results evs) segs)"
  using run_closed [OF assms frame_shape_any TrueI] by blast

theorem write_close_complete_witness:
  "ww_files (snd upload_run) = [] \<and>
   (\<exists>frames. [0, 1, 2, 3, 4, 5] = concat (map memory_frame frames) \<and>
      list_all2 (\<lambda>r seg. unat r = foldl add_frame 0 seg) [1 :: u32, 14]
        (take 2 (segments [2, 4, 4] frames)))"
proof -
  let ?evs = "butlast (fst upload_run)"
  have run: "fst upload_run = ?evs @ [WClose 1 (Ready (Ok 0))]" by (simp add: upload_events)
  have reading: "map snd (returned_results ?evs) = [1, 14]" "length (returned_results ?evs) = 2" "capacities destination_ops ?evs = [2, 4, 4]"
    "consumed_inputs memory_taken ?evs = [0, 1, 2, 3, 4, 5]"
    using arg_cong [OF run, of returned_results] upload_reading(3,4) arg_cong [OF run, of "capacities destination_ops"]
      arg_cong [OF run, of "consumed_inputs memory_taken"]
    by (simp_all add: upload_reading)
  have "ws_run destination_ops memory_allocator_ops upload_partial 8 Allocator
      (?evs @ [WClose 1 (Ready (Ok 0))]) (snd upload_run, \<lambda>_. 0)"
    using upload_run_reachable run by simp
  from write_close_complete [OF this destination_contract upload_contract] show ?thesis
    by (auto simp: reading(2-4) reading(1) [symmetric] list_all2_map1 comp_def)
qed

section \<open>Failures\<close>

text \<open>
  C17: a failure is reported once and ends everything. A run reports at most one fault, and it
  reports one exactly when the writer has failed; a failed writer holds no destination, no frame
  and no capacity. Pushing, writing, swapping, closing and popping are then refused with
  \<open>InputClosed\<close>; \<open>set_window\<close> alone still answers by the window it is given; and whatever happens next,
  the writer stays failed.
\<close>
theorem write_error_once:
  assumes "ws_run ops fa pf n allocator evs (s, caps)"
  shows "length (write_faults evs) \<le> 1 \<and> (write_faults evs \<noteq> [] \<longleftrightarrow> ww_phase s = PhaseFailed) \<and>
    (ww_phase s = PhaseFailed \<longrightarrow> ww_files s = [] \<and> ww_partial s = None \<and>
       ws_reserved_frames s = 0 \<and> ws_granted_frames s = 0 \<and>
       (\<forall>ev s' caps'. ws_step ops fa pf (s, caps) ev (s', caps') \<longrightarrow>
          failed_answer ev \<and> ww_phase s' = PhaseFailed))"
proof -
  have inv: "ws_inv s" using ws_run_state [OF assms] by (simp add: write_state_def)
  from run_faults [OF assms] have "length (write_faults evs) \<le> 1"
    "write_faults evs \<noteq> [] \<longleftrightarrow> ww_phase s = PhaseFailed" by auto
  moreover have "ww_files s = []" "ww_partial s = None" "ws_reserved_frames s = 0"
    "ws_granted_frames s = 0" if "ww_phase s = PhaseFailed"
    using inv that
    by (simp_all add: ws_inv_defs ws_reserved_frames_def ws_granted_frames_def capacity_def
        files_used_def partial_used_def)
  ultimately show ?thesis using ws_step_failed [OF _ inv] by blast
qed

lemma overflow_events:
  "write_faults (fst overflow_run) = [WBackend ''sum overflow'']"
  by code_simp

theorem write_error_once_witness:
  "ww_phase (snd overflow_run) = PhaseFailed \<and>
   fst (ws_poll_write destination_ops memory_allocator_ops upload_partial 1 4 (snd overflow_run))
     = Ready (Err (WContract InputClosed))"
proof -
  let ?w = "ws_poll_write destination_ops memory_allocator_ops upload_partial 1 4 (snd overflow_run)"
  note once = write_error_once [OF overflow_run_reachable, unfolded overflow_events]
  have "ws_step destination_ops memory_allocator_ops upload_partial (snd overflow_run, \<lambda>_. 0)
      (WWrite 1 4 (fst ?w) (fst (snd ?w))) (snd (snd ?w), \<lambda>_. 0)"
    by (rule poll_write) simp
  with once have "failed_answer (WWrite 1 4 (fst ?w) (fst (snd ?w)) :: upload_event)"
    "ww_phase (snd overflow_run) = PhaseFailed"
    by blast+
  then show ?thesis by simp
qed

text \<open>
  C27: a writer only ever fails because of its parts: the input, a destination, or an allocator or
  partial frame that breaks its contract. The scheduler's own checks of the fill index and of
  budget requests never fire.
\<close>
theorem write_errors_from_parts:
  assumes "ws_run ops fa pf n allocator evs (s, caps)" and "e \<in> set (write_faults evs)"
  shows "(\<exists>i. e = WInput i) \<or> (\<exists>b. e = WBackend b) \<or> e = WContract InvalidPartialFrame"
  using run_faults [OF assms(1)] assms(2) by (auto simp: write_fault_def)

theorem write_errors_from_parts_witness:
  "\<exists>e. write_faults (fst overflow_run) = [e] \<and>
     ((\<exists>i. e = WInput i) \<or> (\<exists>b. e = WBackend b) \<or> e = WContract InvalidPartialFrame)"
  using write_errors_from_parts [OF overflow_run_reachable, of "WBackend ''sum overflow''"]
  by (simp add: overflow_events)

section \<open>Capacity\<close>

text \<open>
  C19: a writer stays within its reservation, the reservation within its grant, and the grant
  within the shared budget, in every state of a run and whatever the destinations and the other
  users of the budget do; the budget still accounts for every frame once. Without retries the
  reservation is exactly the frames retained.
\<close>
theorem write_within_budget:
  assumes "ws_run ops fa pf n allocator evs (s, caps)"
  shows "ws_retained_frames s \<le> ws_reserved_frames s \<and> ws_reserved_frames s \<le> ws_granted_frames s \<and>
    ws_granted_frames s \<le> n \<and>
    (max_retries (ww_config s) = 0 \<longrightarrow> ws_retained_frames s = ws_reserved_frames s) \<and>
    total_capacity (ww_budget s) = n \<and> valid_window (ws_window s) \<and>
    budget_inv (ww_budget s) (caps(p_request (ww_permit s) := ws_granted_frames s))"
proof -
  have st: "ws_inv s" "client_ok n (ww_permit s) (ww_budget s) caps"
    using ws_run_state [OF assms] by (simp_all add: write_state_def)
  from client_capacity [OF st(2)] ws_inv_retained [OF st(1)] ws_inv_valid [OF st(1)] show ?thesis
    by (simp add: ws_reserved_frames_def ws_granted_frames_def capacity_def total_capacity_def
        ws_window_def permit_inv_def)
qed

theorem write_within_budget_witness:
  "ws_retained_frames (snd pending_run) = ws_reserved_frames (snd pending_run) \<and>
   ws_reserved_frames (snd pending_run) \<le> 8"
proof -
  have "max_retries (ww_config (snd pending_run)) = 0" by code_simp
  with write_within_budget [OF pending_run_reachable] show ?thesis by simp
qed

section \<open>Progress\<close>

text \<open>
  C14: no lost wakeups while writing. If \<open>poll_write\<close> is pending and every pending destination and
  every pending fill registers the caller's waker, then the task will be woken: it has been woken
  already, or a retained destination or the input has registered its waker, or the writer's request
  waits in the budget's queue with it. The scheduler keeps the waker for changes of the queue and
  the window.
\<close>
theorem write_pending_wakes:
  assumes run: "ws_run ops fa pf n allocator evs (s, caps)" and "write_registers ops reg"
    and "input_registers pf regi" and p: "ws_poll_write ops fa pf cx input s = (Pending, input', s')"
  shows "ww_waker s' = Some cx \<and>
    (ws_woken cx s s' \<or> (\<exists>slot \<in> set (ww_files s'). reg cx (w_file slot)) \<or>
     (\<exists>q. ww_partial s' = Some q \<and> regi cx q input') \<or>
     req_waiting (b_requests (ww_budget s') (p_request (ww_permit s'))) \<and>
       req_waker (b_requests (ww_budget s') (p_request (ww_permit s'))) = Some cx)"
proof -
  have "ws_inv s" using ws_run_state [OF run] by (simp add: write_state_def)
  moreover have "write_state n (s', caps)"
    using ws_run_state [OF stepped [OF run poll_write [OF p]]] .
  then have "p_capacity (ww_permit s') \<le> b_total (ww_budget s')"
    using client_capacity by (auto simp: write_state_def)
  ultimately show ?thesis
    using ws_poll_write_pending [OF p _ assms(2,3)] by (simp add: ws_queued_def)
qed

lemma destination_registers: "write_registers destination_ops (\<lambda>cx f. cx \<in> set (dst_woken f))"
  by (auto simp: write_registers_def destination_defs Let_def split: if_splits option.splits)

lemma upload_registers: "input_registers upload_partial (\<lambda>cx q input. False)"
  by (simp add: input_registers_def upload_partial_def memory_frame_defs)

lemma pending_polls:
  "fst (ws_poll_write destination_ops memory_allocator_ops upload_partial 1 2 (snd pending_run)) = Pending \<and>
   fst (ws_poll_close destination_ops upload_partial 1 (snd pending_run)) = Pending \<and>
   ww_wakes (snd (snd (ws_poll_write destination_ops memory_allocator_ops upload_partial 1 2
     (snd pending_run)))) = ww_wakes (snd pending_run)"
  by code_simp

theorem write_pending_wakes_witness:
  "\<exists>input' s'. ws_poll_write destination_ops memory_allocator_ops upload_partial 1 2 (snd pending_run) =
       (Pending, input', s') \<and> ww_waker s' = Some 1 \<and>
     (list_ex (\<lambda>slot. 1 \<in> set (dst_woken (w_file slot))) (ww_files s') \<or>
      req_waiting (b_requests (ww_budget s') (p_request (ww_permit s'))))"
proof -
  obtain input' s' where p: "ws_poll_write destination_ops memory_allocator_ops upload_partial 1 2
      (snd pending_run) = (Pending, input', s')"
    using pending_polls by (metis prod.collapse)
  then have "\<not> ws_woken 1 (snd pending_run) s'" using pending_polls by (auto simp: ws_woken_def)
  with write_pending_wakes [OF pending_run_reachable destination_registers upload_registers p] p
  show ?thesis by (auto simp: list_ex_iff)
qed

text \<open>
  C23: no lost wakeups while closing. If \<open>poll_close\<close> is pending, destinations are left, and the
  task has been woken already or every destination that is not done has registered its waker.
\<close>
theorem write_close_pending_wakes:
  assumes run: "ws_run ops fa pf n allocator evs (s, caps)" and "write_registers ops reg"
    and "ws_poll_close ops pf cx s = (Pending, s')"
  shows "ww_waker s' = Some cx \<and> ww_files s' \<noteq> [] \<and> \<not> slot_done (hd (ww_files s')) \<and>
    (ws_woken cx s s' \<or> (\<forall>slot \<in> set (ww_files s'). \<not> slot_done slot \<longrightarrow> reg cx (w_file slot)))"
proof -
  have inv: "ws_inv s" using ws_run_state [OF run] by (simp add: write_state_def)
  from assms(3) inv have "completed_files (ww_files s') = 0" "ww_files s' \<noteq> []"
    by (cases rule: ws_poll_close_cases [where rep = "\<lambda>_ _. True" and init = "()" and add = "\<lambda>_ _. ()"
        and committed = "\<lambda>_. ()"]; simp)+
  with completed_zero_head ws_poll_close_pending [OF assms(3) inv assms(2)] show ?thesis by blast
qed

theorem write_close_pending_wakes_witness:
  "\<exists>s'. ws_poll_close destination_ops upload_partial 1 (snd pending_run) = (Pending, s') \<and>
     ww_files s' \<noteq> [] \<and> (ws_woken 1 (snd pending_run) s' \<or>
       1 \<in> set (dst_woken (w_file (hd (ww_files s')))))"
proof -
  obtain s' where p: "ws_poll_close destination_ops upload_partial 1 (snd pending_run) = (Pending, s')"
    using pending_polls by (metis prod.collapse)
  from write_close_pending_wakes [OF pending_run_reachable destination_registers p] p
  show ?thesis by auto
qed






section \<open>Retries\<close>

lemma run_backend_slot:
  fixes evs :: "('i, 'o, 'f, 'r, 'e, 'x) write_event list"
  assumes "ws_run ops fa pf n allocator evs (s, caps)" and "i < length (ww_files s)"
  shows "length (returned_results evs) + i < length (accepted_destinations evs)"
    and "backend_of m (counts_failures ops m)
      (accepted_destinations evs ! (length (returned_results evs) + i)) (ww_files s ! i)"
proof -
  let ?k = "length (returned_results evs)" and ?acc = "accepted_destinations evs"
  have b: "backend_state m (counts_failures ops m) ?acc ?k s" using run_backends [OF assms(1)] by simp
  then show k: "?k + i < length ?acc" using assms(2) by (simp add: backend_state_def)
  have "list_all2 (backend_of m (counts_failures ops m)) (take (length (ww_files s)) (drop ?k ?acc))
      (ww_files s)"
    using b by (simp add: backend_state_def)
  from list_all2_nthD2 [OF this assms(2)]
  have "backend_of m (counts_failures ops m) (take (length (ww_files s)) (drop ?k ?acc) ! i)
      (ww_files s ! i)" .
  with assms(2) k show "backend_of m (counts_failures ops m) (?acc ! (?k + i)) (ww_files s ! i)" by simp
qed

text \<open>
  C25: failed operations are counted exactly. When \<open>m\<close> counts the failed opens, writes and closes of
  a destination, each retained one has failed as often as its retry counter says, at most
  \<open>max_retries\<close> times; and the scheduler gives up, on any of its operations, only at the failure
  number \<open>max_retries + 1\<close>.
\<close>
theorem write_retries_counted:
  fixes evs :: "('i, 'o, 'f, 'r, 'e, 'x) write_event list"
  assumes "ws_run ops fa pf n allocator evs (s, caps)" and "counts_failures ops m"
    and "i < length (ww_files s)"
  defines "f \<equiv> accepted_destinations evs ! (length (returned_results evs) + i)"
  shows "w_retries (ww_files s ! i) \<le> max_retries (ww_config s) \<and>
    m (w_file (ww_files s ! i)) = m f + unat (w_retries (ww_files s ! i)) \<and>
    (\<forall>e slot. slot_poll ops cx closing (max_retries (ww_config s)) (ww_files s ! i) = (Err e, slot) \<longrightarrow>
       m (w_file slot) = m f + unat (max_retries (ww_config s)) + 1)"
proof -
  have "ws_core s" using ws_run_state [OF assms(1)] by (simp add: write_state_def ws_inv_def)
  from ws_core_slot [OF this assms(3)]
  have le: "w_retries (ww_files s ! i) \<le> max_retries (ww_config s)" by (simp add: slot_ok_def)
  have count: "m (w_file (ww_files s ! i)) = m f + unat (w_retries (ww_files s ! i))"
    using run_backend_slot(2) [OF assms(1,3), of m] assms(2) by (simp add: backend_of_def f_def)
  have "m (w_file slot) = m f + unat (max_retries (ww_config s)) + 1"
    if p: "slot_poll ops cx closing (max_retries (ww_config s)) (ww_files s ! i) = (Err e, slot)" for e slot
  proof -
    from p have "w_retries slot = w_retries (ww_files s ! i)"
      by (cases rule: slot_poll_cases) (auto simp: slot_retry_def split: if_splits)
    moreover have "w_retries (ww_files s ! i) = max_retries (ww_config s)"
      by (rule slot_poll_failures(2) [OF p assms(2) le refl])
    ultimately show ?thesis using slot_poll_failures(1) [OF p assms(2) le] count by simp
  qed
  with le count show ?thesis by blast
qed

text \<open>Destinations that count and fail their openings, on a writer that retries twice.\<close>

definition failing_destination :: "(u32, nat, unit, unit) write_file" where
  "failing_destination = \<lparr>wf_frame_capacity = (\<lambda>_. 1),
     wf_poll_open = (\<lambda>cx f. (Ready (Err ()), Suc f)),
     wf_poll_write = (\<lambda>cx f t. (Pending, f)), wf_poll_close = (\<lambda>cx f. (Pending, f))\<rparr>"

definition failing_upload ::
    "(u32, unit, nat, unit, unit, unit) write_event list
      \<times> (u32, nat, unit, memory_allocator, memory_partial) writer" where
  "failing_upload = ws_exec failing_destination memory_allocator_ops upload_partial
     (ws_start Allocator 8 (upload_config 2)) [DoAdmit 5, DoFill 1 7]"

lemma failing_upload_reachable:
  "ws_run failing_destination memory_allocator_ops upload_partial 8 Allocator (fst failing_upload)
     (snd failing_upload, \<lambda>_. 0)"
  unfolding failing_upload_def
proof (rule ws_exec_start [of 8 "upload_config 2"])
  show "valid_window (window (upload_config 2))"
    by (simp add: upload_config_def config_new_def upload_window_def valid_window_def)
qed (simp, rule prod.collapse [symmetric])

lemma failing_upload_facts:
  "accepted_destinations (fst failing_upload) = [5] \<and> returned_results (fst failing_upload) = [] \<and>
   length (ww_files (snd failing_upload)) = 1 \<and> max_retries (ww_config (snd failing_upload)) = 2"
  by code_simp

theorem write_retries_counted_witness:
  "w_file (ww_files (snd failing_upload) ! 0) =
     5 + unat (w_retries (ww_files (snd failing_upload) ! 0)) \<and>
   w_retries (ww_files (snd failing_upload) ! 0) \<le> 2"
proof -
  have "counts_failures failing_destination (\<lambda>f. f)"
    by (simp add: counts_failures_def failing_destination_def)
  from write_retries_counted [OF failing_upload_reachable this, of 0] failing_upload_facts
  show ?thesis by simp
qed

text \<open>
  C33: a destination that has received no frame is left exactly as it was accepted: it has not been
  opened or polled, it retains nothing, and closing drops it without opening it.
\<close>
theorem write_unused_untouched:
  fixes evs :: "('i, 'o, 'f, 'r, 'e, 'x) write_event list"
  assumes "ws_run ops fa pf n allocator evs (s, caps)" and "i < length (ww_files s)"
    and "w_assigned (ww_files s ! i) = 0"
  shows "w_file (ww_files s ! i) = accepted_destinations evs ! (length (returned_results evs) + i) \<and>
    w_state (ww_files s ! i) = Idle \<and> frames_len (w_frames (ww_files s ! i)) = 0 \<and>
    ww_phase s = PhaseWriting"
proof -
  have inv: "ws_inv s" using ws_run_state [OF assms(1)] by (simp add: write_state_def)
  then have core: "ws_core s" by (simp add: ws_inv_def)
  note ok = ws_core_slot [OF core assms(2)]
  have idle: "w_state (ww_files s ! i) = Idle" by (rule slot_ok_unassigned(1) [OF ok assms(3)])
  moreover have "frames_len (w_frames (ww_files s ! i)) = 0"
    using ok idle by (simp add: slot_ok_defs)
  moreover have "ww_phase s = PhaseWriting"
    using inv assms(2,3) by (cases "ww_phase s") (auto simp: ws_inv_def ws_phase_ok_def)
  ultimately show ?thesis
    using run_backend_slot(2) [OF assms(1,2), of "\<lambda>_. 0"] assms(3) by (simp add: backend_of_def)
qed

lemma pending_unused:
  "length (ww_files (snd pending_run)) = 2 \<and> w_assigned (ww_files (snd pending_run) ! 1) = 0 \<and>
   accepted_destinations (fst pending_run) = [destination_new 2, destination_new 2] \<and>
   returned_results (fst pending_run) = []"
  by code_simp

theorem write_unused_untouched_witness:
  "w_file (ww_files (snd pending_run) ! 1) = destination_new 2"
  using write_unused_untouched [OF pending_run_reachable, of 1] pending_unused by simp

section \<open>The queue\<close>

lemma ws_wake_woken:
  assumes "ws_logs s t" "ww_waker t = Some waker"
  shows "ws_woken waker s (ws_wake t)"
proof -
  obtain ws where "ww_wakes t = ww_wakes s @ ws" using assms(1) by (auto simp: ws_logs_def)
  then have "ww_wakes (ws_wake t) = ww_wakes s @ ws @ waker # []"
    using assms(2) by (simp add: ws_wake_def)
  then show ?thesis unfolding ws_woken_def by blast
qed

text \<open>
  \<open>push_file\<close> on every branch. It accepts a destination exactly when the writer is still open,
  the active files are below their limit, and the destination has a capacity, one that the whole
  budget can hold when attempts are kept for retries. An accepted destination goes to the end of
  the queue unopened and wakes the waiting task; otherwise nothing changes and the documented error
  is returned.
\<close>
theorem write_push_contract:
  fixes res :: "(unit, ('x, 'e) write_error) result"
  assumes "ws_run ops fa pf n allocator evs (s, caps)" and p: "ws_push_file ops f s = (res, s')"
  shows "(if ww_phase s \<noteq> PhaseWriting then res = Err (WContract InputClosed) \<and> s' = s
    else if max_active_files (ws_window s) \<le> length (ww_files s)
      then res = Err (WContract AdmissionNotReady) \<and> s' = s
    else if wf_frame_capacity ops f = 0 then res = Err (WContract ZeroFrameCapacity) \<and> s' = s
    else if 0 < max_retries (ww_config s) \<and> n < unat (wf_frame_capacity ops f)
      then res = Err (WContract FrameCapacityExceedsBudget) \<and> s' = s
    else res = Ok () \<and> ww_files s' = ww_files s @ [slot_new ops f (max_retries (ww_config s) > 0)] \<and>
      ws_reserved_frames s' = ws_reserved_frames s \<and> ww_permit s' = ww_permit s \<and>
      ww_waker s' = None \<and> (\<forall>waker. ww_waker s = Some waker \<longrightarrow> ws_woken waker s s'))"
proof -
  have inv: "ws_inv s" and tot: "b_total (ww_budget s) = n"
    using ws_run_state [OF assms(1)] client_capacity(2) by (auto simp: write_state_def)
  note def = p [unfolded ws_push_file_def ws_accept_file_def ws_validate_file_def Let_def]
  from p inv show ?thesis
  proof (cases rule: ws_push_file_cases)
    case accepted
    then show ?thesis
      using def tot
      by (auto simp: ws_window_def ws_reserved_frames_def ws_wake_def ws_woken_def total_capacity_def
          split: option.splits if_splits)
  qed (use def tot in \<open>auto simp: ws_window_def total_capacity_def write_error_from_def ws_validate_file_def
      Let_def split: if_splits\<close>)
qed

theorem write_push_contract_witness:
  "fst (ws_push_file destination_ops (destination_new 0) (snd pending_run)
      :: (unit, (unit, string) write_error) result \<times> upload_writer)
     = Err (WContract AdmissionNotReady) \<and>
   fst (ws_push_file destination_ops (destination_new 0) (snd upload_run)
      :: (unit, (unit, string) write_error) result \<times> upload_writer)
     = Err (WContract InputClosed)"
proof -
  obtain r1 s1 where p1: "ws_push_file destination_ops (destination_new 0) (snd pending_run) =
      (r1 :: (unit, (unit, string) write_error) result, s1)"
    by fastforce
  obtain r2 s2 where p2: "ws_push_file destination_ops (destination_new 0) (snd upload_run) =
      (r2 :: (unit, (unit, string) write_error) result, s2)"
    by fastforce
  have "max_active_files (ws_window (snd pending_run)) = 2 \<and> ww_phase (snd pending_run) = PhaseWriting"
    by code_simp
  with write_push_contract [OF pending_run_reachable p1] pending_unused p1 p2 upload_phase
    write_push_contract [OF upload_run_reachable p2]
  show ?thesis by simp
qed

text \<open>A completed head of an open writer: it lies before the position that is filled, and holds no frame.\<close>

lemma completed_head:
  assumes inv: "ws_inv s" and "ww_phase s = PhaseWriting" "ww_files s = slot # files"
    and "w_state slot = Closed out" "w_assigned slot = w_capacity slot"
  shows "0 < ww_fill_index s" "frames_len (w_frames slot) = 0"
    "replays (w_frames slot) = (0 < max_retries (ww_config s))"
proof -
  have "files_layout (ww_fill_index s) (slot # files)" using assms by (simp add: ws_inv_defs)
  with assms(5) show "0 < ww_fill_index s"
    by (cases "ww_fill_index s") (auto simp: files_layout_def)
  have "Write_Invariant.slot_ok False (max_retries (ww_config s)) (b_total (ww_budget s)) slot"
    using assms(1-3) by (simp add: ws_inv_defs)
  with assms(4) show "frames_len (w_frames slot) = 0"
    "replays (w_frames slot) = (0 < max_retries (ww_config s))"
    by (simp_all add: slot_ok_defs)
qed

text \<open>
  C38: \<open>pop_swap\<close> on every branch. While the writer is open, it exchanges a completed head for a
  valid destination: the head's destination and result are handed back; the new one goes to the end
  of the queue unopened, with its own capacity and with nothing assigned, written or retried and no
  frame of the old one; the position that is filled next moves with the queue, so that it still refers
  to the same destination, and so does the next destination to be polled, unless that was the head,
  when it is the new head; the partial frame, the window and all
  capacity stay; and the waiting task is woken. Otherwise nothing changes and the documented error
  is returned.
\<close>
theorem pop_swap_contract:
  fixes res :: "('f \<times> 'r, ('x, 'e) write_error) result"
    and ops :: "('t, 'f, 'e, 'r) write_file"
  assumes "ws_run ops fa pf n allocator evs (s, caps)" and p: "ws_pop_swap ops f s = (res, s')"
  shows "(if ww_phase s \<noteq> PhaseWriting then res = Err (WContract InputClosed) \<and> s' = s
    else case ws_validate_file ops f s :: (unit, ('x, 'e) write_error) result of
      Err e \<Rightarrow> res = Err e \<and> s' = s
    | Ok u \<Rightarrow>
        if ww_files s = [] \<or> \<not> slot_done (hd (ww_files s))
        then res = Err (WContract AdmissionNotReady) \<and> s' = s
        else (\<exists>out new. w_state (hd (ww_files s)) = Closed out \<and>
          res = Ok (w_file (hd (ww_files s)), out) \<and> ww_files s' = tl (ww_files s) @ [new] \<and>
          w_file new = f \<and> w_state new = Idle \<and> w_capacity new = wf_frame_capacity ops f \<and>
          w_assigned new = 0 \<and> w_written new = 0 \<and> w_retries new = 0 \<and>
          frames_len (w_frames new) = 0 \<and> replays (w_frames new) = (0 < max_retries (ww_config s)) \<and>
          Suc (ww_fill_index s') = ww_fill_index s \<and> ww_poll_cursor s' = ww_poll_cursor s - 1 \<and>
          ww_partial s' = ww_partial s \<and> ww_phase s' = PhaseWriting \<and> ww_config s' = ww_config s \<and>
          ws_reserved_frames s' = ws_reserved_frames s \<and>
          ww_permit s' = ww_permit s \<and> ww_budget s' = ww_budget s \<and> ww_waker s' = None \<and>
          (\<forall>waker. ww_waker s = Some waker \<longrightarrow> ws_woken waker s s')))"
proof -
  have inv: "ws_inv s" using ws_run_state [OF assms(1)] by (simp add: write_state_def)
  note def = p [unfolded ws_pop_swap_def]
  from p inv show ?thesis
  proof (cases rule: ws_pop_swap_cases)
    case (early)
    obtain v where v: "ws_validate_file ops f s = (v :: (unit, ('x, 'e) write_error) result)" by simp
    then show ?thesis using early def
      by (cases "ww_files s") (auto split: result.splits)
  next
    case (swapped slot files out new)
    have "slot_done slot" using swapped(3) by (simp add: slot_done_def)
    moreover have "ws_validate_file ops f s = (Ok () :: (unit, ('x, 'e) write_error) result)"
      using def swapped(1,5) by (auto split: result.splits)
    moreover note completed_head [OF inv swapped(1-4)]
    ultimately show ?thesis using swapped
      by (auto simp: ws_reserved_frames_def ws_wake_def ws_woken_def split: option.splits)
  qed simp_all
qed

lemma swap_ready:
  "ww_phase (snd (upload_exec 2 (take 6 upload_commands))) = PhaseWriting \<and>
   map slot_done (ww_files (snd (upload_exec 2 (take 6 upload_commands)))) = [True, False] \<and>
   max_retries (ww_config (snd (upload_exec 2 (take 6 upload_commands)))) = 2 \<and>
   b_total (ww_budget (snd (upload_exec 2 (take 6 upload_commands)))) = 8"
  by code_simp

theorem pop_swap_contract_witness:
  "\<exists>out s'. (ws_pop_swap destination_ops (destination_new 4) (snd (upload_exec 2 (take 6 upload_commands)))
      :: (destination \<times> u32, (unit, string) write_error) result \<times> upload_writer) =
    (Ok (w_file (hd (ww_files (snd (upload_exec 2 (take 6 upload_commands))))), out), s') \<and>
    length (ww_files s') = 2"
proof -
  let ?s = "snd (upload_exec 2 (take 6 upload_commands))"
  obtain r s' where p: "ws_pop_swap destination_ops (destination_new 4) ?s =
      (r :: (destination \<times> u32, (unit, string) write_error) result, s')"
    by fastforce
  have "length (ww_files ?s) = 2" using swap_ready by (metis length_map list.size(3,4) One_nat_def
        Suc_1 add.right_neutral add_Suc_right)
  moreover have "slot_done (hd (ww_files ?s))" using swap_ready by (cases "ww_files ?s") auto
  moreover have "ws_validate_file destination_ops (destination_new 4) ?s =
      (Ok () :: (unit, (unit, string) write_error) result)"
    using swap_ready
    by (simp add: ws_validate_file_def destination_defs destination_new_def total_capacity_def)
  ultimately show ?thesis
    using pop_swap_contract [OF upload_reachable p] p swap_ready by auto
qed

text \<open>
  \<open>pop_file\<close> on every branch. After the input was closed it hands back the completed head with
  its result and wakes the waiting task; it returns nothing when the head is not completed, and an
  error before the input is closed or after a failure, in both cases without effect.
\<close>
theorem pop_file_contract:
  fixes res :: "(('f \<times> 'r) option, ('x, 'e) write_error) result"
    and ops :: "('t, 'f, 'e, 'r) write_file"
  assumes "ws_run ops fa pf n allocator evs (s, caps)" and p: "ws_pop_file s = (res, s')"
  shows "(if ww_phase s \<noteq> PhaseClosing then res = Err (WContract InputClosed) \<and> s' = s
    else if ww_files s = [] \<or> \<not> slot_done (hd (ww_files s)) then res = Ok None \<and> s' = s
    else (\<exists>out. w_state (hd (ww_files s)) = Closed out \<and>
      res = Ok (Some (w_file (hd (ww_files s)), out)) \<and> ww_files s' = tl (ww_files s) \<and>
      ws_reserved_frames s' = ws_reserved_frames s \<and> ww_permit s' = ww_permit s \<and>
      (\<forall>waker. ww_waker s = Some waker \<longrightarrow> ws_woken waker s s')))"
proof -
  have inv: "ws_inv s" using ws_run_state [OF assms(1)] by (simp add: write_state_def)
  from p inv show ?thesis
  proof (cases rule: ws_pop_file_cases)
    case none
    then show ?thesis by (cases "ww_files s") auto
  next
    case (popped slot files out)
    then show ?thesis
      by (auto simp: ws_reserved_frames_def ws_wake_def ws_woken_def slot_done_def split: option.splits)
  qed simp
qed

lemma take_ready:
  "ww_phase (snd (upload_exec 2 (take 11 upload_commands))) = PhaseClosing \<and>
   map slot_done (ww_files (snd (upload_exec 2 (take 11 upload_commands)))) = [True]"
  by code_simp

theorem pop_file_contract_witness:
  "\<exists>out s'. (ws_pop_file (snd (upload_exec 2 (take 11 upload_commands)))
      :: ((destination \<times> u32) option, (unit, string) write_error) result \<times> upload_writer) =
    (Ok (Some (w_file (hd (ww_files (snd (upload_exec 2 (take 11 upload_commands))))), out)), s') \<and>
    ww_files s' = []"
proof -
  let ?s = "snd (upload_exec 2 (take 11 upload_commands))"
  obtain r s' where p: "ws_pop_file ?s =
      (r :: ((destination \<times> u32) option, (unit, string) write_error) result, s')"
    by fastforce
  have "\<exists>slot. ww_files ?s = [slot] \<and> slot_done slot"
    using take_ready by (cases "ww_files ?s") auto
  with pop_file_contract [OF upload_reachable p] p take_ready show ?thesis by auto
qed

text \<open>
  C40: \<open>set_window\<close> refuses an invalid window without effect. A valid one is installed, keeps the
  queue, the partial frame and every reservation, returns the capacity above the new target that
  nothing has reserved, and wakes the waiting task, whose limits have changed.
\<close>
theorem write_set_window_contract:
  assumes "ws_run ops fa pf n allocator evs (s, caps)" and p: "ws_set_window w s = (res, s')"
  shows "(\<not> valid_window w \<and> res = Err InvalidWindow \<and> s' = s) \<or>
    (valid_window w \<and> res = Ok () \<and> ws_window s' = w \<and> ww_files s' = ww_files s \<and>
     ww_partial s' = ww_partial s \<and> ws_reserved_frames s' = ws_reserved_frames s \<and>
     ws_granted_frames s' = min (ws_granted_frames s) (max (target_frames w) (ws_reserved_frames s)) \<and>
     (\<forall>waker. ww_waker s = Some waker \<longrightarrow> ws_woken waker s s'))"
proof -
  have inv: "ws_inv s" using ws_run_state [OF assms(1)] by (simp add: write_state_def)
  from p inv show ?thesis
  proof (cases rule: ws_set_window_cases)
    case (invalid e)
    then show ?thesis by (simp add: window_validate_cases)
  next
    case accepted
    have "ws_woken waker s s'" if "ww_waker s = Some waker" for waker
    proof -
      let ?s = "ws_shrink_to (min (p_capacity (ww_permit s)) (max (target_frames w) (ww_used s)))
        (s\<lparr>ww_config := (ww_config s)\<lparr>window := w\<rparr>\<rparr>)"
      have "s' = ws_wake ?s"
        using p accepted(1) by (simp add: ws_set_window_def window_validate_cases Let_def)
      moreover have "ws_logs s ?s"
        using ws_shrink_to_logs [of "s\<lparr>ww_config := (ww_config s)\<lparr>window := w\<rparr>\<rparr>"]
        by (simp add: ws_logs_def)
      ultimately show ?thesis using ws_wake_woken [of s ?s waker] that by simp
    qed
    with accepted show ?thesis
      by (simp add: ws_window_def ws_reserved_frames_def ws_granted_frames_def capacity_def)
  qed
qed

theorem write_set_window_contract_witness:
  "ws_set_window (upload_window 0) (snd pending_run) = (Err InvalidWindow, snd pending_run) \<and>
   ws_granted_frames (snd (ws_set_window (upload_window 2) (snd pending_run))) =
     min (ws_granted_frames (snd pending_run)) (max 2 (ws_reserved_frames (snd pending_run)))"
  using write_set_window_contract [OF pending_run_reachable prod.collapse [symmetric], of "upload_window 0"]
    write_set_window_contract [OF pending_run_reachable prod.collapse [symmetric], of "upload_window 2"]
  by (auto simp: valid_window_def upload_window_def prod_eq_iff)

section \<open>Frames and pinned destinations\<close>

text \<open>
  Byte frames take what fits. A fill is never pending and never fails; it copies the first
  bytes of the input, as many as the frame has room for, and reports how many; so the frame never
  exceeds its size, it is complete exactly when it reaches it, and it makes progress unless it is
  complete or the input is empty.
\<close>
theorem bytes_fill_contract:
  assumes "length (bp_bytes p) \<le> bp_frame_size p"
    and "bytes_poll_fill cx p input = (res, p', input')"
  shows "\<exists>count. res = Ready (Ok count) \<and> input' = input \<and> bp_frame_size p' = bp_frame_size p \<and>
    bp_bytes p' = bp_bytes p @ take count input \<and>
    count = min (bp_frame_size p - length (bp_bytes p)) (length input) \<and>
    length (bp_bytes p') \<le> bp_frame_size p' \<and>
    (bytes_is_complete p' \<or> count = length input) \<and>
    (count = 0 \<longleftrightarrow> bytes_is_complete p \<or> input = [])"
  using assms by (auto simp: bytes_poll_fill_def Let_def bytes_is_complete_def min_def)

theorem bytes_fill_contract_witness:
  "\<exists>p'. bytes_poll_fill 1 \<lparr>bp_bytes = [1], bp_frame_size = 3\<rparr> [2, 3, 4] =
      (Ready (Ok 2) :: (nat, unit) result poll, p', [2, 3, 4]) \<and> bp_bytes p' = [1, 2, 3]"
  using bytes_fill_contract [of "\<lparr>bp_bytes = [1], bp_frame_size = 3\<rparr>" 1 "[2, 3, 4]"
      "fst (bytes_poll_fill 1 \<lparr>bp_bytes = [1], bp_frame_size = 3\<rparr> [2, 3, 4]) :: (nat, unit) result poll"
      "fst (snd (bytes_poll_fill 1 \<lparr>bp_bytes = [1], bp_frame_size = 3\<rparr> [2, 3, 4] ::
         (nat, unit) result poll \<times> _))" "[2, 3, 4]"]
  by (auto simp: bytes_poll_fill_def numeral_eq_Suc)

text \<open>
  A pinned pointer keeps the contract of the destination it points to, so everything above
  holds for destinations that are supplied as \<open>Pin<Box<F>>\<close> or \<open>Pin<&mut F>\<close>.
\<close>
theorem pinned_write_contract:
  assumes "write_file_contract ops rep init add committed" and "pin_law get put"
  shows "write_file_contract (pin_write_file get put ops) (\<lambda>p. rep (get p)) init add
    (\<lambda>(p, r). committed (get p, r))"
proof -
  have "pinned_write ops rep init add committed get put"
    using assms by (simp add: pinned_write_def pinned_write_axioms_def write_backend_iff)
  then show ?thesis by (rule pinned_write.pinned_contract)
qed

theorem pinned_write_contract_witness:
  "write_file_contract (pin_write_file pin_target pin_store destination_ops)
     (\<lambda>p. destination_rep (pin_target p)) 0 add_frame (\<lambda>(p, r). (unat \<circ> snd) (pin_target p, r))"
  by (rule pinned_write_contract [OF destination_contract]) (simp add: pin_law_def pin_store_def)

end
