(* ===== verification/Copy_Properties.thy ===== *)
theory Copy_Properties
  imports Read_Properties Write_Properties
begin

text \<open>
  The two schedulers together: a task that reads files to the end of file and writes what it reads.
\<close>

section \<open>Copying\<close>

text \<open>Destinations that collect the items of their frames.\<close>

definition collects ::
    "('t, 'f, 'e, 'r) write_file \<Rightarrow> ('f \<Rightarrow> ('y list, 't) attempt \<Rightarrow> bool) \<Rightarrow> ('t \<Rightarrow> 'y list)
      \<Rightarrow> ('f \<times> 'r \<Rightarrow> 'y list) \<Rightarrow> bool" where
  "collects ops rep frame_items committed \<longleftrightarrow>
     write_file_contract ops rep [] (\<lambda>acc frame. acc @ frame_items frame) committed"

lemma foldl_collect: "foldl (\<lambda>acc frame. acc @ frame_items frame) acc frames =
    acc @ concat (map frame_items frames)"
  by (induction frames arbitrary: acc) simp_all

lemma concat_collected:
  assumes "list_all2 (\<lambda>r seg. committed r = concat (map frame_items seg)) results segs"
  shows "concat (map committed results) = concat (map frame_items (concat segs))"
  using assms by (induction rule: list_all2_induct) simp_all

text \<open>A tape: a list of values in memory, which is its own result.\<close>

definition tape_ops :: "(u32, u32 list, unit, u32 list) write_file" where
  "tape_ops = \<lparr>wf_frame_capacity = (\<lambda>f. 2), wf_poll_open = (\<lambda>cx f. (Ready (Ok ()), [])),
     wf_poll_write = (\<lambda>cx f frame. (Ready (Ok ()), f @ [frame])),
     wf_poll_close = (\<lambda>cx f. (Ready (Ok f), f))\<rparr>"

fun tape_rep :: "u32 list \<Rightarrow> (u32 list, u32) attempt \<Rightarrow> bool" where
  "tape_rep f Unopened = True"
| "tape_rep f (Holds acc) = (f = acc)"
| "tape_rep f (Partway acc t) = (f = acc)"

lemma tape_takes: "tape_rep f a \<Longrightarrow> takes a acc t \<Longrightarrow> f = acc"
  by (cases a) simp_all

interpretation tape: write_backend tape_ops tape_rep "[]" "\<lambda>acc frame. acc @ memory_frame frame" snd
  by unfold_locales
    (auto simp: tape_ops_def memory_frame_def write_phase_defs dest: tape_takes)

lemma tape_collects: "collects tape_ops tape_rep memory_frame snd"
  using tape.write_backend_axioms by (simp add: collects_def write_backend_iff)

definition tape_commands :: "(u32, u32 list) write_command list" where
  "tape_commands =
     [DoAdmit [], DoAdmit [9], DoFill 1 0, DoFill 1 1, DoFill 1 7, DoFinish 1, DoTake, DoTake,
      DoFinish 1]"

definition tape_run ::
    "(u32, unit, u32 list, u32 list, unit, unit) write_event list
      \<times> (u32, u32 list, u32 list, memory_allocator, memory_partial) writer" where
  "tape_run = ws_exec tape_ops memory_allocator_ops upload_partial
     (ws_start Allocator 8 (upload_config 2)) tape_commands"

lemma tape_run_reachable:
  "ws_run tape_ops memory_allocator_ops upload_partial 8 Allocator (fst tape_run) (snd tape_run, \<lambda>_. 0)"
  unfolding tape_run_def
proof (rule ws_exec_start [of 8 "upload_config 2"])
  show "valid_window (window (upload_config 2))"
    by (simp add: upload_config_def config_new_def upload_window_def valid_window_def)
qed (simp, rule prod.collapse [symmetric])

lemma tape_events:
  "fst tape_run =
     [WPush [] (Ok ()), WPush [9] (Ok ())] @
     map (\<lambda>i. WWrite 1 i (Ready (Ok \<lparr>ws_output = Some (), ws_completed_files = 0,
        ws_missing_files = 0\<rparr>)) i) [0, 1] @
     [WWrite 1 7 (Ready (Ok \<lparr>ws_output = Some (), ws_completed_files = 1, ws_missing_files = 0\<rparr>)) 7,
      WClose 1 (Ready (Ok 2)), WPop (Ok (Some ([0, 1], [0, 1]))), WPop (Ok (Some ([7], [7])))] @
     [WClose 1 (Ready (Ok 0))]"
  by code_simp

text \<open>
  C1: copying loses nothing, repeats nothing and keeps the order. The files and the destinations
  keep the contracts of their traits and are handed over unopened. A task reads files until end of
  file and hands what it reads to a writer, in any interleaving of the two with each other and with
  the other users of their budgets, and finishes when \<open>poll_close\<close> reports zero files: then the
  results handed back hold, one after the other, exactly the declared content of the files that
  were read, in admission order.
\<close>
theorem copy_round_trip:
  assumes "rs_run rops mk n factory (revs @ [PollRead cx old (Ready (Ok None)) new]) x"
    and "reported_errors revs = []" and "read_file_contract rops fits content"
    and "ws_run wops fa pf m allocator (wevs @ [WClose cx' (Ready (Ok 0))]) y"
    and "collects wops rep frame_items committed" and "frame_contract pf items frame_items taken"
    and "\<forall>file \<in> set (pushed_files revs). fits file Fresh"
    and "\<forall>f \<in> set (accepted_destinations wevs). rep f Unopened"
    and "consumed_inputs taken wevs = output_frames revs"
  shows "concat (map committed (returned_results wevs)) = declared_frames rops content revs"
proof -
  have out: "output_frames revs = declared_frames rops content revs"
    using run_eof [OF assms(1,2), of fits content] assms(3,7) by blast
  obtain s caps where y: "y = (s, caps)" by fastforce
  obtain frames segs where "consumed_inputs taken wevs = concat (map frame_items frames)"
    "concat segs = frames"
    "list_all2 (\<lambda>r seg. committed r = foldl (\<lambda>acc frame. acc @ frame_items frame) [] seg)
       (returned_results wevs) segs"
    using run_closed [OF assms(4) [unfolded y] assms(5) [unfolded collects_def] assms(6,8)
        frame_shape_any TrueI]
    by blast
  with concat_collected [of committed frame_items "returned_results wevs" segs] out assms(9)
  show ?thesis by (simp add: foldl_collect)
qed

theorem copy_round_trip_witness:
  "concat (map snd (returned_results (butlast (fst tape_run)))) =
     declared_frames example_ops source_content (butlast (fst example_run)) \<and>
   declared_frames example_ops source_content (butlast (fst example_run)) = [0, 1, 7]"
proof -
  let ?r = "butlast (fst example_run)" and ?w = "butlast (fst tape_run)"
  have r: "fst example_run = ?r @ [PollRead 1 104 (Ready (Ok None)) 104]"
    by (simp add: example_events)
  have w: "fst tape_run = ?w @ [WClose 1 (Ready (Ok 0))]"
    by (simp add: tape_events)
  have "rs_run example_ops example_factory 4 0 (?r @ [PollRead 1 104 (Ready (Ok None)) 104])
      (snd example_run, \<lambda>_. 0)"
    using example_run_reachable r by simp
  moreover have "reported_errors ?r = []" by (simp add: example_events reported_errors_def)
  moreover have "ws_run tape_ops memory_allocator_ops upload_partial 8 Allocator (?w @ [WClose 1 (Ready (Ok 0))])
      (snd tape_run, \<lambda>_. 0)"
    using tape_run_reachable w by simp
  moreover have reading: "output_frames ?r = [0, 1, 7]" "consumed_inputs memory_taken ?w = [0, 1, 7]"
    "map snd (returned_results ?w) = [[0, 1], [7]]"
    by (simp_all add: example_events tape_events output_frames_def write_reading_defs memory_taken_def)
  ultimately show ?thesis
    using copy_round_trip [of example_ops example_factory 4 0 ?r 1 104 104 "(snd example_run, \<lambda>_. 0)"
        source_fits source_content tape_ops memory_allocator_ops upload_partial 8 Allocator ?w 1 "(snd tape_run, \<lambda>_. 0)"
        tape_rep memory_frame snd memory_items memory_taken]
      example_contract tape_collects upload_contract
    by (simp add: source_fits_def)
qed

end
