(* ===== verification/File_Segment.thy ===== *)
theory File_Segment
  imports Write_Frames
begin

text \<open>
  \<open>examples/tcp_to_file/src/main.rs\<close>, the backend: \<open>Segment\<close>, a file on disk that is written or read
  in blocks. It implements both backend traits on the files and timers of tokio.

  Tokio is not in the repository. What \<open>Segment\<close> calls is the record \<open>tokio\<close> of functions on the
  states of an open file (\<open>'h\<close>), of a file being opened (\<open>'o\<close>) and of a timer (\<open>'d\<close>), and what the
  documentation of tokio says of a file is stated as \<open>written_files\<close> and \<open>read_files\<close>.
\<close>

section \<open>Files and timers\<close>

text \<open>\<open>io::Error\<close>: an error of the system, an error kind, or a text given to \<open>io::Error::other\<close>.\<close>

datatype 'e io_error = Os 'e | Other string | WriteZero | UnexpectedEnd | InvalidData string

record ('h, 'o, 'd, 'e) tokio =
  tk_sleep :: "nat \<Rightarrow> 'd"
  tk_poll_sleep :: "waker \<Rightarrow> 'd \<Rightarrow> unit poll \<times> 'd"
  tk_create :: "string \<Rightarrow> 'o"
  tk_open :: "string \<Rightarrow> 'o"
  tk_poll_opened :: "waker \<Rightarrow> 'o \<Rightarrow> ('h, 'e io_error) result poll \<times> 'o"
  tk_poll_write :: "waker \<Rightarrow> 'h \<Rightarrow> u8 list \<Rightarrow> (nat, 'e io_error) result poll \<times> 'h"
  tk_poll_flush :: "waker \<Rightarrow> 'h \<Rightarrow> (unit, 'e io_error) result poll \<times> 'h"
  tk_poll_read :: "waker \<Rightarrow> 'h \<Rightarrow> nat \<Rightarrow> (u8 list, 'e io_error) result poll \<times> 'h"
  tk_sleep_wakes :: "waker \<Rightarrow> 'd \<Rightarrow> bool"
  tk_opened_wakes :: "waker \<Rightarrow> 'o \<Rightarrow> bool"
  tk_file_wakes :: "waker \<Rightarrow> 'h \<Rightarrow> bool"

text \<open>
  The last three are not called: they say which wakers the runtime holds for a timer, an opening or a
  file, and will wake. A \<open>poll_read\<close> is given the length of its \<open>ReadBuf\<close> and returns the bytes it filled in. Durations
  are in milliseconds. The size of a block, \<open>BLOCK\<close> in the code, is an argument, so that examples
  can use small blocks.
\<close>

text \<open>The future that \<open>poll_open_file\<close> makes: a delay, then the file is created or opened.\<close>

datatype ('o, 'd) opening_file = Delayed 'd bool string | Underway 'o

record ('h, 'o, 'd) segment =
  sg_path :: string
  sg_frames :: u32
  sg_opening :: "('o, 'd) opening_file option"
  sg_file :: "'h option"
  sg_offset :: nat
  sg_finalize_delay :: "'d option"

definition segment_new :: "string \<Rightarrow> u32 \<Rightarrow> ('h, 'o, 'd) segment" where
  "segment_new path frames = \<lparr>sg_path = path, sg_frames = frames, sg_opening = None,
     sg_file = None, sg_offset = 0, sg_finalize_delay = None\<rparr>"

text \<open>\<open>usize::checked_add\<close> on sizes.\<close>

definition size_checked_add :: "nat \<Rightarrow> nat \<Rightarrow> nat option" where
  "size_checked_add a b = (if a + b \<le> usize_max then Some (a + b) else None)"

lemma size_checked_add_code [code]:
  "size_checked_add a b = (if int a + int b \<le> 18446744073709551615 then Some (a + b) else None)"
  by (simp add: size_checked_add_def usize_max_def)

section \<open>Opening\<close>

fun opening_poll ::
    "('h, 'o, 'd, 'e) tokio \<Rightarrow> waker \<Rightarrow> ('o, 'd) opening_file
      \<Rightarrow> ('h, 'e io_error) result poll \<times> ('o, 'd) opening_file" where
  "opening_poll tk cx (Underway o') =
     (let (res, o'') = tk_poll_opened tk cx o' in (res, Underway o''))"
| "opening_poll tk cx (Delayed d writing path) =
     (case tk_poll_sleep tk cx d of
        (Pending, d) \<Rightarrow> (Pending, Delayed d writing path)
      | (Ready _, d) \<Rightarrow>
          (let (res, o'') = tk_poll_opened tk cx (if writing then tk_create tk path else tk_open tk path)
           in (res, Underway o'')))"

definition segment_start ::
    "('h, 'o, 'd, 'e) tokio \<Rightarrow> bool \<Rightarrow> ('h, 'o, 'd) segment \<Rightarrow> ('h, 'o, 'd) segment" where
  "segment_start tk writing s =
     (if sg_opening s = None
      then s\<lparr>sg_file := None, sg_offset := 0, sg_finalize_delay := None,
             sg_opening := Some (Delayed (tk_sleep tk (if writing then 1000 else 500)) writing (sg_path s))\<rparr>
      else s)"

definition segment_poll_open_file ::
    "('h, 'o, 'd, 'e) tokio \<Rightarrow> bool \<Rightarrow> waker \<Rightarrow> ('h, 'o, 'd) segment
      \<Rightarrow> (unit, 'e io_error) result poll \<times> ('h, 'o, 'd) segment" where
  "segment_poll_open_file tk writing cx s =
     (let s = segment_start tk writing s
      in case sg_opening s of
           None \<Rightarrow> (Ready (Err (Other ''missing open operation'')), s)
         | Some opening \<Rightarrow>
             (case opening_poll tk cx opening of
                (Pending, opening) \<Rightarrow> (Pending, s\<lparr>sg_opening := Some opening\<rparr>)
              | (Ready (Ok file), _) \<Rightarrow>
                  (Ready (Ok ()), s\<lparr>sg_opening := None, sg_file := Some file\<rparr>)
              | (Ready (Err error), _) \<Rightarrow> (Ready (Err error), s\<lparr>sg_opening := None\<rparr>)))"

section \<open>Writing\<close>

text \<open>The loop of \<open>poll_write\<close>, on the open file and the offset.\<close>

function segment_write_loop ::
    "('h, 'o, 'd, 'e) tokio \<Rightarrow> waker \<Rightarrow> u8 list \<Rightarrow> 'h \<Rightarrow> nat
      \<Rightarrow> (unit, 'e io_error) result poll \<times> 'h \<times> nat" where
  "segment_write_loop tk cx frame file offset =
     (if offset < length frame then
        if length frame < offset
        then (Ready (Err (Other ''invalid write offset'')), file, offset)
        else case tk_poll_write tk cx file (drop offset frame) of
           (Pending, file) \<Rightarrow> (Pending, file, offset)
         | (Ready (Err error), file) \<Rightarrow> (Ready (Err error), file, offset)
         | (Ready (Ok written), file) \<Rightarrow>
             if written = 0 then (Ready (Err WriteZero), file, offset)
             else case size_checked_add offset written of
               None \<Rightarrow> (Ready (Err (Other ''write offset overflow'')), file, offset)
             | Some offset \<Rightarrow> segment_write_loop tk cx frame file offset
      else (Ready (Ok ()), file, 0))"
  by pat_completeness auto
termination
  by (relation "measure (\<lambda>(tk, cx, frame, file, offset). length frame - offset)")
    (auto simp: size_checked_add_def split: if_splits)

declare segment_write_loop.simps [simp del]

definition segment_poll_write ::
    "('h, 'o, 'd, 'e) tokio \<Rightarrow> waker \<Rightarrow> ('h, 'o, 'd) segment \<Rightarrow> u8 list
      \<Rightarrow> (unit, 'e io_error) result poll \<times> ('h, 'o, 'd) segment" where
  "segment_poll_write tk cx s frame =
     (case sg_file s of
        None \<Rightarrow> (Ready (Err (Other ''file is not open'')), s)
      | Some file \<Rightarrow>
          (let (res, file, offset) = segment_write_loop tk cx frame file (sg_offset s)
           in (res, s\<lparr>sg_file := Some file, sg_offset := offset\<rparr>)))"

definition segment_poll_close ::
    "('h, 'o, 'd, 'e) tokio \<Rightarrow> waker \<Rightarrow> ('h, 'o, 'd) segment
      \<Rightarrow> (string, 'e io_error) result poll \<times> ('h, 'o, 'd) segment" where
  "segment_poll_close tk cx s =
     (case sg_file s of
        None \<Rightarrow> (Ready (Err (Other ''file is not open'')), s)
      | Some file \<Rightarrow>
          (let (res, file) = tk_poll_flush tk cx file;
               s = s\<lparr>sg_file := Some file\<rparr>
           in case res of
                Pending \<Rightarrow> (Pending, s)
              | Ready (Err error) \<Rightarrow> (Ready (Err error), s)
              | Ready (Ok _) \<Rightarrow>
                  (let delay = (case sg_finalize_delay s of Some delay \<Rightarrow> delay | None \<Rightarrow> tk_sleep tk 2000);
                       (slept, delay) = tk_poll_sleep tk cx delay;
                       s = s\<lparr>sg_finalize_delay := Some delay\<rparr>
                   in case slept of
                        Pending \<Rightarrow> (Pending, s)
                      | Ready _ \<Rightarrow> (Ready (Ok (sg_path s)), s))))"

definition segment_write_ops ::
    "('h, 'o, 'd, 'e) tokio \<Rightarrow> (u8 list, ('h, 'o, 'd) segment, 'e io_error, string) write_file" where
  "segment_write_ops tk = \<lparr>wf_frame_capacity = sg_frames,
     wf_poll_open = segment_poll_open_file tk True, wf_poll_write = segment_poll_write tk,
     wf_poll_close = segment_poll_close tk\<rparr>"

section \<open>Reading\<close>

text \<open>\<open>Vec::resize(BLOCK, 0)\<close>, and the bytes of a read stored in the frame at an offset.\<close>

definition frame_resize :: "nat \<Rightarrow> u8 list \<Rightarrow> u8 list" where
  "frame_resize block frame = take block frame @ replicate (block - length frame) 0"

definition frame_store :: "nat \<Rightarrow> u8 list \<Rightarrow> u8 list \<Rightarrow> u8 list" where
  "frame_store offset bytes frame = take offset frame @ bytes @ drop (offset + length bytes) frame"

function segment_read_loop ::
    "('h, 'o, 'd, 'e) tokio \<Rightarrow> nat \<Rightarrow> waker \<Rightarrow> u8 list \<Rightarrow> 'h \<Rightarrow> nat
      \<Rightarrow> (unit option, 'e io_error) result poll \<times> 'h \<times> nat \<times> u8 list" where
  "segment_read_loop tk block cx frame file offset =
     (if offset < block then
        if length frame < offset
        then (Ready (Err (Other ''invalid read offset'')), file, offset, frame)
        else case tk_poll_read tk cx file (length frame - offset) of
            (Pending, file) \<Rightarrow> (Pending, file, offset, frame)
          | (Ready (Err error), file) \<Rightarrow> (Ready (Err error), file, offset, frame)
          | (Ready (Ok bytes), file) \<Rightarrow>
              if bytes = []
              then (Ready (if offset = 0 then Ok None else Err UnexpectedEnd), file, offset, frame)
              else case size_checked_add offset (length bytes) of
                None \<Rightarrow> (Ready (Err (Other ''read offset overflow'')), file, offset,
                  frame_store offset bytes frame)
              | Some offset' \<Rightarrow>
                  segment_read_loop tk block cx (frame_store offset bytes frame) file offset'
      else (Ready (Ok (Some ())), file, 0, frame))"
  by pat_completeness auto
termination
  by (relation "measure (\<lambda>(tk, block, cx, frame, file, offset). block - offset)")
    (auto simp: size_checked_add_def split: if_splits intro!: diff_less_mono2)

declare segment_read_loop.simps [simp del]

definition segment_poll_read ::
    "('h, 'o, 'd, 'e) tokio \<Rightarrow> nat \<Rightarrow> waker \<Rightarrow> ('h, 'o, 'd) segment \<Rightarrow> u8 list
      \<Rightarrow> (unit option, 'e io_error) result poll \<times> ('h, 'o, 'd) segment \<times> u8 list" where
  "segment_poll_read tk block cx s frame =
     (case sg_file s of
        None \<Rightarrow> (Ready (Err (Other ''file is not open'')), s, frame)
      | Some file \<Rightarrow>
          (let frame = (if sg_offset s = 0 \<and> length frame \<noteq> block then frame_resize block frame else frame);
               (res, file, offset, frame) = segment_read_loop tk block cx frame file (sg_offset s)
           in (res, s\<lparr>sg_file := Some file, sg_offset := offset\<rparr>, frame)))"

definition segment_read_ops ::
    "('h, 'o, 'd, 'e) tokio \<Rightarrow> nat \<Rightarrow> (u8 list, ('h, 'o, 'd) segment, 'e io_error) read_file" where
  "segment_read_ops tk block = \<lparr>rf_frame_count = sg_frames,
     rf_poll_open = segment_poll_open_file tk False, rf_poll_read = segment_poll_read tk block\<rparr>"

text \<open>The wakers that the runtime holds for a segment.\<close>

definition segment_wakes ::
    "('h, 'o, 'd, 'e) tokio \<Rightarrow> waker \<Rightarrow> ('h, 'o, 'd) segment \<Rightarrow> bool" where
  "segment_wakes tk cx s \<longleftrightarrow>
     (case sg_opening s of
        Some (Delayed d writing path) \<Rightarrow> tk_sleep_wakes tk cx d
      | Some (Underway f) \<Rightarrow> tk_opened_wakes tk cx f
      | None \<Rightarrow> False) \<or>
     (case sg_file s of Some h \<Rightarrow> tk_file_wakes tk cx h | None \<Rightarrow> False) \<or>
     (case sg_finalize_delay s of Some d \<Rightarrow> tk_sleep_wakes tk cx d | None \<Rightarrow> False)"

lemmas segment_ops_defs = segment_write_ops_def segment_read_ops_def segment_poll_open_file_def
  segment_start_def segment_poll_write_def segment_poll_close_def segment_poll_read_def

end
