(* ===== verification/Segment_Paths.thy ===== *)
theory Segment_Paths
  imports Carbon_Prelude "HOL-Library.List_Lexorder" "HOL-Library.Char_ord"
begin

text \<open>
  \<open>examples/tcp_to_file/src/main.rs\<close>, names and numbers: the names of the segments of a stream, the
  order of paths that puts the segments in the order of the stream, and the text of \<open>stream.meta\<close>.
  Strings are those of ASCII texts, and paths those of Unix.
\<close>

section \<open>Decimal numbers\<close>

type_synonym u64 = "64 word"

definition digit :: "nat \<Rightarrow> char" where
  "digit d = char_of (48 + d)"

definition digit_value :: "char \<Rightarrow> nat option" where
  "digit_value c = (let n = of_char c in if 48 \<le> n \<and> n \<le> 57 then Some (n - 48) else None)"

text \<open>\<open>format!("{n}")\<close>, and with a minimum width and leading zeros, \<open>format!("{n:020}")\<close>.\<close>

fun decimal :: "nat \<Rightarrow> string" where
  "decimal n = (if n < 10 then [digit n] else decimal (n div 10) @ [digit (n mod 10)])"

declare decimal.simps [simp del]

definition zero_padded :: "nat \<Rightarrow> string \<Rightarrow> string" where
  "zero_padded width text = replicate (width - length text) CHR ''0'' @ text"

text \<open>\<open>str::trim\<close> and \<open>u64::from_str\<close>, with the texts of its errors.\<close>

definition is_space :: "char \<Rightarrow> bool" where
  "is_space c \<longleftrightarrow> (let n = of_char c :: nat in 9 \<le> n \<and> n \<le> 13 \<or> n = 32)"

definition trim :: "string \<Rightarrow> string" where
  "trim text = rev (dropWhile is_space (rev (dropWhile is_space text)))"

fun parse_digits :: "nat \<Rightarrow> string \<Rightarrow> (nat, string) result" where
  "parse_digits acc [] = Ok acc"
| "parse_digits acc (c # cs) =
     (case digit_value c of
        None \<Rightarrow> Err ''invalid digit found in string''
      | Some d \<Rightarrow>
          if acc * 10 + d \<ge> 2 ^ 64 then Err ''number too large to fit in target type''
          else parse_digits (acc * 10 + d) cs)"

lemma parse_digits_code [code]:
  "parse_digits acc [] = Ok acc"
  "parse_digits acc (c # cs) =
     (case digit_value c of
        None \<Rightarrow> Err ''invalid digit found in string''
      | Some d \<Rightarrow>
          if int acc * 10 + int d \<ge> 18446744073709551616
          then Err ''number too large to fit in target type''
          else parse_digits (acc * 10 + d) cs)"
  by (simp_all split: option.split)

definition parse_u64 :: "string \<Rightarrow> (u64, string) result" where
  "parse_u64 text =
     (if text = [] then Err ''cannot parse integer from empty string''
      else if text = ''+'' then Err ''invalid digit found in string''
      else case parse_digits 0 (if hd text = CHR ''+'' then tl text else text) of
        Err error \<Rightarrow> Err error
      | Ok n \<Rightarrow> Ok (of_nat n))"

lemma digit_value_digit [simp]: "d < 10 \<Longrightarrow> digit_value (digit d) = Some d"
  by (simp add: digit_value_def digit_def Let_def)

lemma digit_space [simp]: "d < 10 \<Longrightarrow> \<not> is_space (digit d)"
  by (simp add: is_space_def digit_def Let_def)

lemma digit_plus [simp]: "d < 10 \<Longrightarrow> digit d \<noteq> CHR ''+''"
proof
  assume "d < 10" "digit d = CHR ''+''"
  then have "of_char (digit d) = (of_char CHR ''+'' :: nat)" by simp
  with \<open>d < 10\<close> show False by (simp add: digit_def)
qed

lemma digit_less: "a < b \<Longrightarrow> b < 10 \<Longrightarrow> digit a < digit b"
  by (simp add: digit_def less_char_def)

lemma decimal_nonempty [simp]: "decimal n \<noteq> []"
  by (subst decimal.simps) simp

lemma decimal_digits: "c \<in> set (decimal n) \<Longrightarrow> \<exists>d < 10. c = digit d"
proof (induction n rule: decimal.induct)
  case (1 n)
  show ?case
  proof (cases "n < 10")
    case True
    with 1(2) show ?thesis by (auto simp: decimal.simps [of n])
  next
    case False
    with 1(2) have "c \<in> set (decimal (n div 10)) \<or> c = digit (n mod 10)"
      by (subst (asm) decimal.simps) auto
    with 1(1) False show ?thesis by (auto intro: exI [of _ "n mod 10"])
  qed
qed

lemma parse_digits_append:
  "parse_digits acc (xs @ ys) =
     (case parse_digits acc xs of Err e \<Rightarrow> Err e | Ok n \<Rightarrow> parse_digits n ys)"
  by (induction acc xs rule: parse_digits.induct) (simp_all split: option.splits)

lemma parse_digits_decimal: "n < 2 ^ 64 \<Longrightarrow> parse_digits 0 (decimal n) = Ok n"
proof (induction n rule: decimal.induct)
  case (1 n)
  show ?case
  proof (cases "n < 10")
    case True
    then show ?thesis by (subst decimal.simps) simp
  next
    case False
    with 1 have "parse_digits 0 (decimal (n div 10)) = Ok (n div 10)" by simp
    with False 1(2) show ?thesis by (subst decimal.simps) (simp add: parse_digits_append)
  qed
qed

lemma trim_decimal: "trim (decimal n @ ''\<newline>'') = decimal n"
proof -
  have no: "dropWhile is_space (xs @ ys) = xs @ ys" if "xs \<noteq> []" "set xs \<subseteq> set (decimal n)" for xs ys
    using that decimal_digits [of _ n] by (cases xs) fastforce+
  have "dropWhile is_space (rev (decimal n)) = rev (decimal n)"
    using no [of "rev (decimal n)" "[]"] by simp
  with no [of "decimal n" "''\<newline>''"] show ?thesis by (simp add: trim_def is_space_def)
qed

text \<open>The size of a stream survives \<open>stream.meta\<close>.\<close>

lemma parse_u64_decimal: "parse_u64 (trim (decimal (unat n) @ ''\<newline>'')) = Ok (n :: u64)"
proof -
  have n: "unat n < 2 ^ 64" using unsigned_less [of n] by simp
  have "hd (decimal (unat n)) \<in> set (decimal (unat n))" by simp
  from decimal_digits [OF this] obtain d where "d < 10" "hd (decimal (unat n)) = digit d" by blast
  then have "hd (decimal (unat n)) \<noteq> CHR ''+''" by simp
  moreover from this have "decimal (unat n) \<noteq> ''+''" by (metis list.sel(1))
  ultimately show ?thesis
    using parse_digits_decimal [OF n] by (simp add: parse_u64_def trim_decimal)
qed

section \<open>Paths\<close>

text \<open>\<open>Path::join\<close> with a name that is not absolute, and the components that \<open>Path::cmp\<close> compares.\<close>

definition path_join :: "string \<Rightarrow> string \<Rightarrow> string" where
  "path_join directory name =
     (if directory = [] \<or> last directory = CHR ''/'' then directory @ name
      else directory @ CHR ''/'' # name)"

fun split_on :: "char \<Rightarrow> string \<Rightarrow> string list" where
  "split_on c [] = [[]]"
| "split_on c (x # xs) =
     (case split_on c xs of
        [] \<Rightarrow> []
      | part # parts \<Rightarrow> if x = c then [] # part # parts else (x # part) # parts)"

datatype path_component = RootDir | CurDir | ParentDir | Normal string

fun component_key :: "path_component \<Rightarrow> nat \<times> string" where
  "component_key RootDir = (0, [])"
| "component_key CurDir = (1, [])"
| "component_key ParentDir = (2, [])"
| "component_key (Normal name) = (3, name)"

lemma component_key_inject [simp]: "component_key a = component_key b \<longleftrightarrow> a = b"
  by (cases a; cases b) simp_all

text \<open>\<open>Component::cmp\<close>: by the kind of the component, then by its name.\<close>

definition component_le :: "path_component \<Rightarrow> path_component \<Rightarrow> bool" where
  "component_le a b \<longleftrightarrow>
     (let (m, x) = component_key a; (n, y) = component_key b in m < n \<or> m = n \<and> x \<le> y)"

definition component_less :: "path_component \<Rightarrow> path_component \<Rightarrow> bool" where
  "component_less a b \<longleftrightarrow> component_le a b \<and> \<not> component_le b a"

instantiation path_component :: linorder
begin

definition less_eq_path_component :: "path_component \<Rightarrow> path_component \<Rightarrow> bool" where
  "less_eq_path_component = component_le"

definition less_path_component :: "path_component \<Rightarrow> path_component \<Rightarrow> bool" where
  "less_path_component = component_less"

instance
  by standard
    (auto simp: less_eq_path_component_def less_path_component_def component_le_def component_less_def
      Let_def split: prod.splits, metis component_key_inject)

end

lemmas component_order_defs =
  less_eq_path_component_def less_path_component_def component_le_def component_less_def

definition component :: "string \<Rightarrow> path_component" where
  "component name = (if name = ''..'' then ParentDir else Normal name)"

definition components :: "string \<Rightarrow> path_component list" where
  "components path =
     (let parts = split_on CHR ''/'' path
      in (if path \<noteq> [] \<and> hd path = CHR ''/'' then [RootDir]
          else if hd parts = ''.'' then [CurDir] else []) @
         map component (filter (\<lambda>name. name \<noteq> [] \<and> name \<noteq> ''.'') parts))"

text \<open>\<open>Path::extension\<close>: what follows the last dot of the file name, unless the dot comes first.\<close>

definition name_extension :: "string \<Rightarrow> string option" where
  "name_extension name =
     (let ext = rev (takeWhile (\<lambda>c. c \<noteq> CHR ''.'') (rev name))
      in if CHR ''.'' \<notin> set name \<or> length name = length ext + 1 then None else Some ext)"

definition path_extension :: "string \<Rightarrow> string option" where
  "path_extension path =
     (case rev (components path) of
        Normal name # _ \<Rightarrow> name_extension name
      | _ \<Rightarrow> None)"

section \<open>Segments of a stream\<close>

definition segment_name :: "u64 \<Rightarrow> string" where
  "segment_name next = zero_padded 20 (decimal (unat next)) @ ''.bin''"

definition segment_path :: "string \<Rightarrow> u64 \<Rightarrow> string" where
  "segment_path directory next = path_join directory (segment_name next)"

text \<open>A name of a file, as a directory lists it.\<close>

definition file_name :: "string \<Rightarrow> bool" where
  "file_name name \<longleftrightarrow> name \<noteq> [] \<and> name \<noteq> ''.'' \<and> name \<noteq> ''..'' \<and> CHR ''/'' \<notin> set name"

lemma split_on_nonempty [simp]: "split_on c xs \<noteq> []"
  by (induction xs) (auto split: list.split)

lemma split_on_Cons [simp]:
  "split_on c (x # xs) =
     (if x = c then [] # split_on c xs else (x # hd (split_on c xs)) # tl (split_on c xs))"
  by (cases "split_on c xs") simp_all

declare split_on.simps(2) [simp del]

lemma split_on_append: "split_on c (xs @ c # ys) = split_on c xs @ split_on c ys"
  by (induction xs) simp_all

lemma split_on_none: "c \<notin> set xs \<Longrightarrow> split_on c xs = [xs]"
  by (induction xs) auto

lemma components_join:
  assumes "file_name name"
  shows "components (path_join directory name) = components directory @ [Normal name]"
proof -
  have n: "split_on CHR ''/'' name = [name]" "name \<noteq> []" "name \<noteq> ''.''" "component name = Normal name"
    "hd name \<noteq> CHR ''/''"
    using assms by (cases name; auto simp: file_name_def split_on_none component_def)+
  consider "directory = []" | dir where "directory = dir @ ''/''"
    | "directory \<noteq> []" "last directory \<noteq> CHR ''/''"
    by (metis append_butlast_last_id)
  then show ?thesis
  proof cases
    case 1
    with n show ?thesis by (simp add: path_join_def components_def)
  next
    case (2 dir)
    with n show ?thesis
      by (cases dir) (auto simp: path_join_def components_def split_on_append Let_def hd_append)
  next
    case 3
    with n show ?thesis by (auto simp: path_join_def components_def split_on_append Let_def hd_append)
  qed
qed

lemma extension_join:
  "file_name name \<Longrightarrow> path_extension (path_join directory name) = name_extension name"
  by (simp add: path_extension_def components_join)

subsection \<open>The order of the names\<close>

text \<open>A number with leading zeros, digit by digit.\<close>

fun fixed_digits :: "nat \<Rightarrow> nat \<Rightarrow> string" where
  "fixed_digits 0 n = []"
| "fixed_digits (Suc w) n = fixed_digits w (n div 10) @ [digit (n mod 10)]"

lemma length_fixed_digits [simp]: "length (fixed_digits w n) = w"
  by (induction w n rule: fixed_digits.induct) simp_all

lemma fixed_digits_0: "fixed_digits w 0 = replicate w (digit 0)"
  by (induction w) (simp_all add: replicate_append_same)

lemma zero_padded_decimal:
  "n < 10 ^ w \<Longrightarrow> 0 < w \<Longrightarrow> zero_padded w (decimal n) = fixed_digits w n \<and> length (decimal n) \<le> w"
proof (induction w arbitrary: n)
  case (Suc w)
  have "char_of (of_char CHR ''0'' :: nat) = CHR ''0''" by (rule char_of_char)
  then have zero: "CHR ''0'' = digit 0" by (simp add: digit_def)
  show ?case
  proof (cases "n < 10")
    case True
    then show ?thesis
      by (simp add: decimal.simps [of n] zero_padded_def fixed_digits_0 zero)
  next
    case False
    then have "0 < w" using Suc.prems(1) by (cases w) simp_all
    moreover have "n div 10 < 10 ^ w" using Suc.prems(1) by (simp add: less_mult_imp_div_less mult.commute)
    ultimately have "zero_padded w (decimal (n div 10)) = fixed_digits w (n div 10) \<and>
        length (decimal (n div 10)) \<le> w"
      by (intro Suc.IH)
    with False show ?thesis by (simp add: decimal.simps [of n] zero_padded_def)
  qed
qed simp

lemma append_less:
  "xs < ys \<Longrightarrow> length xs = length ys \<Longrightarrow> xs @ us < ys @ (vs :: string)"
  by (induction xs ys rule: list_induct2') auto

lemma append_less_same: "xs @ ys < xs @ zs \<longleftrightarrow> ys < (zs :: 'a :: linorder list)"
  by (induction xs) auto

lemma fixed_digits_less:
  "n < m \<Longrightarrow> m < 10 ^ w \<Longrightarrow> fixed_digits w n < fixed_digits w m"
proof (induction w arbitrary: n m)
  case (Suc w)
  have m: "m div 10 < 10 ^ w" using Suc.prems(2) by (simp add: less_mult_imp_div_less mult.commute)
  show ?case
  proof (cases "n div 10 < m div 10")
    case True
    from Suc.IH [OF this m] show ?thesis by (simp add: append_less)
  next
    case False
    then have "n div 10 = m div 10" using Suc.prems(1) div_le_mono [of n m 10] by simp
    moreover from this have "n mod 10 < m mod 10"
      using Suc.prems(1) by (metis div_mult_mod_eq nat_add_left_cancel_less)
    ultimately show ?thesis by (simp add: append_less_same digit_less)
  qed
qed simp

lemma segment_name_fixed: "segment_name i = fixed_digits 20 (unat i) @ ''.bin''"
proof -
  have "unat i < 2 ^ 64" using unsigned_less [of i] by simp
  then have "unat i < 10 ^ 20" by simp
  then show ?thesis by (simp add: segment_name_def zero_padded_decimal)
qed

lemma segment_name_less: "i < j \<Longrightarrow> segment_name i < segment_name j"
proof -
  assume "i < j"
  then have "unat i < unat j" by (simp add: word_less_nat_alt)
  moreover have "unat j < 2 ^ 64" using unsigned_less [of j] by simp
  then have "unat j < 10 ^ 20" by simp
  ultimately have "fixed_digits 20 (unat i) < fixed_digits 20 (unat j)" by (rule fixed_digits_less)
  then show ?thesis by (simp add: segment_name_fixed append_less)
qed

lemma segment_name_digits: "c \<in> set (fixed_digits w n) \<Longrightarrow> \<exists>d < 10. c = digit d"
  by (induction w n rule: fixed_digits.induct) (auto intro: exI [of _ "_ mod 10"])

lemma segment_file_name: "file_name (segment_name i)" "name_extension (segment_name i) = Some ''bin''"
proof -
  have "d < 10 \<Longrightarrow> digit d \<noteq> CHR ''/'' \<and> digit d \<noteq> CHR ''.''" for d
    by (auto simp: digit_def dest!: arg_cong [of _ _ "of_char :: char \<Rightarrow> nat"])
  then have "CHR ''/'' \<notin> set (fixed_digits 20 (unat i))" "CHR ''.'' \<notin> set (fixed_digits 20 (unat i))"
    using segment_name_digits by metis+
  moreover have "length (segment_name i) = 24" by (simp add: segment_name_fixed)
  ultimately show "file_name (segment_name i)" "name_extension (segment_name i) = Some ''bin''"
    by (auto simp: file_name_def name_extension_def segment_name_fixed Let_def)
qed

text \<open>The paths of the segments are in the order of their numbers.\<close>

lemma segment_path_less: "i < j \<Longrightarrow> components (segment_path directory i) < components (segment_path directory j)"
  by (simp add: segment_path_def components_join segment_file_name append_less_same
      component_order_defs segment_name_less less_imp_le not_le)

end
