(* ===== verification/Tcp_Transfer.thy ===== *)
theory Tcp_Transfer
  imports File_Segment Segment_Paths Write_Operations Read_Scheduler "HOL-Library.Monad_Syntax"
begin

text \<open>
  \<open>examples/tcp_to_file/src/main.rs\<close>, the two transfers: \<open>upload\<close> stores what a socket sends in segment
  files and \<open>download\<close> sends the files back. The socket and the directory are those of tokio; what
  the code calls of them is the records \<open>socket\<close> and \<open>directory\<close> of functions.

  An \<open>async\<close> function returns an option: \<open>None\<close> is a call that panics or does not return. The state of
  a transfer is a record that every step returns.

  Awaiting polls a future, and polls it again when it was pending and its task is woken. Nothing else
  polls it: a future that is pending without a wake-up to come never returns. Only the waker of the
  last poll counts, as \<open>Future::poll\<close> documents; so every poll gets a waker of its own, and what
  has woken the task is the waker of that very poll, in a log of wake-ups or held by the runtime for
  an operation that the task waits for.
\<close>

section \<open>Awaiting and errors\<close>

record 's task =
  ta_waker :: "'s \<Rightarrow> waker"
  ta_polled :: "'s \<Rightarrow> 's"
  ta_woken :: "waker \<Rightarrow> 's \<Rightarrow> bool"

text \<open>
  \<open>ta_waker\<close> is the waker of the next poll, \<open>ta_polled\<close> replaces it once the poll is over, and
  \<open>ta_woken cx\<close> says that the waker \<open>cx\<close> has been woken or will be.
\<close>

partial_function (option) await ::
    "'s task \<Rightarrow> (waker \<Rightarrow> 's \<Rightarrow> 'r poll \<times> 's) \<Rightarrow> 's \<Rightarrow> ('r \<times> 's) option" where
  [code]: "await task future s =
     (case future (ta_waker task s) s of
        (Ready r, s') \<Rightarrow> Some (r, ta_polled task s')
      | (Pending, s') \<Rightarrow>
          if ta_woken task (ta_waker task s) s' then await task future (ta_polled task s') else None)"

fun map_err :: "('e \<Rightarrow> 'f) \<Rightarrow> ('a, 'e) result \<Rightarrow> ('a, 'f) result" where
  "map_err f (Ok a) = Ok a"
| "map_err f (Err e) = Err (f e)"

definition await_result ::
    "'s task \<Rightarrow> ('e \<Rightarrow> 'f) \<Rightarrow> (waker \<Rightarrow> 's \<Rightarrow> ('a, 'e) result poll \<times> 's) \<Rightarrow> 's
      \<Rightarrow> (('a, 'f) result \<times> 's) option" where
  "await_result task f future s = map_option (\<lambda>(res, s). (map_err f res, s)) (await task future s)"

text \<open>The \<open>?\<close> operator: go on with the value, or return the error.\<close>

definition try_then ::
    "(('a, 'e) result \<times> 's) option \<Rightarrow> ('a \<Rightarrow> 's \<Rightarrow> (('b, 'e) result \<times> 's) option)
      \<Rightarrow> (('b, 'e) result \<times> 's) option" where
  "try_then m k = m \<bind> (\<lambda>(res, s). case res of Ok a \<Rightarrow> k a s | Err e \<Rightarrow> Some (Err e, s))"

lemma try_then_mono [partial_function_mono]:
  assumes "mono_option m" "\<And>a s. mono_option (k a s)"
  shows "mono_option (\<lambda>f. try_then (m f) (\<lambda>a s. k a s f))"
  unfolding try_then_def
proof (rule bind_mono [OF assms(1)])
  show "mono_option (\<lambda>f. case x of (res, s) \<Rightarrow> case res of Ok a \<Rightarrow> k a s f | Err e \<Rightarrow> Some (Err e, s))"
    for x
    by (cases x; cases "fst x") (simp_all add: assms(2) option.const_mono)
qed

text \<open>\<open>io::Error::other\<close> of the errors of the schedulers; byte frames never fail.\<close>

datatype 'e tcp_error =
    Io "'e io_error"
  | OtherContract contract_error
  | OtherWrite "(unit, 'e io_error) write_error"
  | OtherRead "'e io_error scheduler_error"
  | OtherPush push_error

definition u64_checked_add :: "u64 \<Rightarrow> u64 \<Rightarrow> u64 option" where
  "u64_checked_add a b = usize_checked_add a b"

text \<open>\<open>u64::div_ceil\<close>.\<close>

definition div_ceil :: "nat \<Rightarrow> nat \<Rightarrow> nat" where
  "div_ceil a b = a div b + (if a mod b = 0 then 0 else 1)"

section \<open>Sizes, sockets and directories\<close>

text \<open>\<open>BLOCK\<close>, \<open>FRAMES_PER_FILE\<close>, \<open>PIPELINE_FILES\<close> and \<open>PIPELINE_FRAMES\<close>, so that examples can be small.\<close>

record geometry =
  g_block :: nat
  g_frames_per_file :: u32
  g_files :: nat
  g_frames :: nat

definition tcp_geometry :: geometry where
  "tcp_geometry = \<lparr>g_block = 65536, g_frames_per_file = 160, g_files = 40, g_frames = 400\<rparr>"

definition tcp_config :: "geometry \<Rightarrow> scheduler_config option" where
  "tcp_config g =
     (case window_new (g_frames g) (g_files g * unat (g_frames_per_file g)) (g_files g) of
        Err _ \<Rightarrow> None
      | Ok w \<Rightarrow> Some (config_new w 0))"

text \<open>
  A socket in state \<open>'s\<close>; \<open>write_all\<close> is a future in state \<open>'w\<close>, which holds the socket, and \<open>so_first\<close>
  is the branch that \<open>select!\<close> happens to poll first. \<open>so_wakes\<close> and \<open>so_write_wakes\<close> say which wakers
  the runtime holds for the socket and for the future.
\<close>

record ('s, 'w, 'e) socket =
  so_poll_read :: "waker \<Rightarrow> 's \<Rightarrow> nat \<Rightarrow> (u8 list, 'e io_error) result poll \<times> 's"
  so_write_all :: "'s \<Rightarrow> u8 list \<Rightarrow> 'w"
  so_poll_write_all :: "waker \<Rightarrow> 'w \<Rightarrow> (unit, 'e io_error) result poll \<times> 'w"
  so_stream :: "'w \<Rightarrow> 's"
  so_first :: "'w \<Rightarrow> bool"
  so_poll_shutdown :: "waker \<Rightarrow> 's \<Rightarrow> (unit, 'e io_error) result poll \<times> 's"
  so_wakes :: "waker \<Rightarrow> 's \<Rightarrow> bool"
  so_write_wakes :: "waker \<Rightarrow> 'w \<Rightarrow> bool"

text \<open>The outcomes of the calls on the directory; an entry is a name and the outcome of \<open>metadata\<close>.\<close>

record 'e directory =
  fs_remove_dir_all :: "string \<Rightarrow> (unit, 'e io_error) result"
  fs_create_dir :: "string \<Rightarrow> (unit, 'e io_error) result"
  fs_write :: "string \<Rightarrow> string \<Rightarrow> (unit, 'e io_error) result"
  fs_read_to_string :: "string \<Rightarrow> (string, 'e io_error) result"
  fs_read_dir :: "string \<Rightarrow>
    ((string \<times> (u64, 'e io_error) result, 'e io_error) result list, 'e io_error) result"

section \<open>Upload\<close>

text \<open>
  \<open>up_written\<close> lists the files taken out of the writer with the paths printed, and \<open>up_meta\<close> what was
  written with \<open>fs::write\<close>. \<open>up_waker\<close> is the waker of the next poll.
\<close>

record ('h, 'o, 'd, 's) uploader =
  up_waker :: waker
  up_writer :: "(u8 list, ('h, 'o, 'd) segment, string, bytes_allocator, bytes_partial) writer"
  up_next :: u64
  up_socket :: 's
  up_written :: "(('h, 'o, 'd) segment \<times> string) list"
  up_meta :: "(string \<times> string) list"

definition upload_task ::
    "('h, 'o, 'd, 'e) tokio \<Rightarrow> ('s, 'w, 'e) socket \<Rightarrow> ('h, 'o, 'd, 's) uploader task" where
  "upload_task tk so = \<lparr>ta_waker = up_waker, ta_polled = up_waker_update Suc,
     ta_woken = (\<lambda>cx up. cx \<in> set (ww_wakes (up_writer up)) \<or>
       list_ex (\<lambda>slot. segment_wakes tk cx (w_file slot)) (ww_files (up_writer up)) \<or>
       so_wakes so cx (up_socket up))\<rparr>"

definition next_segment ::
    "geometry \<Rightarrow> string \<Rightarrow> u64 \<Rightarrow> (('h, 'o, 'd) segment \<times> u64, 'e io_error) result" where
  "next_segment g directory next =
     (let path = segment_path directory next
      in case u64_checked_add next 1 of
           None \<Rightarrow> Err (Other ''segment number overflow'')
         | Some next \<Rightarrow> Ok (segment_new path (g_frames_per_file g), next))"

text \<open>The loop that fills the queue of the writer.\<close>

function admit_segments ::
    "('h, 'o, 'd, 'e) tokio \<Rightarrow> geometry \<Rightarrow> string \<Rightarrow> ('h, 'o, 'd, 's) uploader
      \<Rightarrow> (unit, 'e tcp_error) result \<times> ('h, 'o, 'd, 's) uploader" where
  "admit_segments tk g directory up =
     (if \<not> ws_accept_file (up_writer up) then (Ok (), up)
      else case next_segment g directory (up_next up) of
        Err error \<Rightarrow> (Err (Io error), up)
      | Ok (file, next) \<Rightarrow>
          (case ws_push_file (segment_write_ops tk) file (up_writer up) of
             (Err error, writer) \<Rightarrow> (Err (OtherWrite error), up\<lparr>up_next := next, up_writer := writer\<rparr>)
           | (Ok _, writer) \<Rightarrow>
               admit_segments tk g directory (up\<lparr>up_next := next, up_writer := writer\<rparr>)))"
  by pat_completeness auto
termination
  by (relation "measure (\<lambda>(tk, g, directory, up).
      max_active_files (window (ww_config (up_writer up))) - length (ww_files (up_writer up)))")
    (auto simp: ws_push_file_def ws_accept_file_def ws_wake_def split: if_splits result.splits option.splits)

declare admit_segments.simps [simp del]

text \<open>The loop over the files that a status reports as completed.\<close>

fun swap_completed ::
    "('h, 'o, 'd, 'e) tokio \<Rightarrow> geometry \<Rightarrow> string \<Rightarrow> nat \<Rightarrow> ('h, 'o, 'd, 's) uploader
      \<Rightarrow> (unit, 'e tcp_error) result \<times> ('h, 'o, 'd, 's) uploader" where
  "swap_completed tk g directory 0 up = (Ok (), up)"
| "swap_completed tk g directory (Suc n) up =
     (case next_segment g directory (up_next up) of
        Err error \<Rightarrow> (Err (Io error), up)
      | Ok (file, next) \<Rightarrow>
          (case ws_pop_swap (segment_write_ops tk) file (up_writer up) of
             (Err error, writer) \<Rightarrow> (Err (OtherWrite error), up\<lparr>up_next := next, up_writer := writer\<rparr>)
           | (Ok written, writer) \<Rightarrow>
               swap_completed tk g directory n
                 (up\<lparr>up_next := next, up_writer := writer, up_written := up_written up @ [written]\<rparr>)))"

definition upload_poll_write ::
    "('h, 'o, 'd, 'e) tokio \<Rightarrow> u8 list \<Rightarrow> waker \<Rightarrow> ('h, 'o, 'd, 's) uploader
      \<Rightarrow> (nat write_status, (unit, 'e io_error) write_error) result poll \<times> ('h, 'o, 'd, 's) uploader" where
  "upload_poll_write tk bytes cx up =
     (let (res, _, writer) = ws_poll_write (segment_write_ops tk) bytes_allocator_ops bytes_partial_ops
            cx bytes (up_writer up)
      in (res, up\<lparr>up_writer := writer\<rparr>))"

partial_function (option) write_bytes ::
    "('h, 'o, 'd, 'e) tokio \<Rightarrow> ('s, 'w, 'e) socket \<Rightarrow> geometry \<Rightarrow> string \<Rightarrow> u8 list
      \<Rightarrow> ('h, 'o, 'd, 's) uploader \<Rightarrow> ((unit, 'e tcp_error) result \<times> ('h, 'o, 'd, 's) uploader) option" where
  [code]: "write_bytes tk so g directory bytes up =
     (if bytes = [] then Some (Ok (), up)
      else try_then (await_result (upload_task tk so) OtherWrite (upload_poll_write tk bytes) up) (\<lambda>status up.
        try_then (Some (swap_completed tk g directory (ws_completed_files status) up)) (\<lambda>_ up.
          case ws_output status of
            None \<Rightarrow> write_bytes tk so g directory bytes up
          | Some consumed \<Rightarrow>
              if length bytes < consumed
              then Some (Err (Io (Other ''invalid input consumption'')), up)
              else write_bytes tk so g directory (drop consumed bytes) up)))"

definition upload_read ::
    "('s, 'w, 'e) socket \<Rightarrow> geometry \<Rightarrow> waker \<Rightarrow> ('h, 'o, 'd, 's) uploader
      \<Rightarrow> (u8 list, 'e io_error) result poll \<times> ('h, 'o, 'd, 's) uploader" where
  "upload_read so g cx up =
     (let (res, sk) = so_poll_read so cx (up_socket up) (g_block g) in (res, up\<lparr>up_socket := sk\<rparr>))"

text \<open>The loop that reads the socket to its end; its value is the size of the input.\<close>

partial_function (option) upload_receive ::
    "('h, 'o, 'd, 'e) tokio \<Rightarrow> ('s, 'w, 'e) socket \<Rightarrow> geometry \<Rightarrow> string \<Rightarrow> u64
      \<Rightarrow> ('h, 'o, 'd, 's) uploader \<Rightarrow> ((u64, 'e tcp_error) result \<times> ('h, 'o, 'd, 's) uploader) option" where
  [code]: "upload_receive tk so g directory received up =
     try_then (await_result (upload_task tk so) Io (upload_read so g) up) (\<lambda>bytes up.
       if bytes = [] then Some (Ok received, up)
       else case u64_checked_add received (of_nat (length bytes)) of
         None \<Rightarrow> Some (Err (Io (Other ''input size overflow'')), up)
       | Some received \<Rightarrow>
           if g_block g < length bytes
           then Some (Err (Io (Other ''invalid socket read length'')), up)
           else try_then (write_bytes tk so g directory bytes up) (\<lambda>_ up.
             upload_receive tk so g directory received up))"

text \<open>The last block is filled up with zeros.\<close>

definition upload_pad ::
    "('h, 'o, 'd, 'e) tokio \<Rightarrow> ('s, 'w, 'e) socket \<Rightarrow> geometry \<Rightarrow> string \<Rightarrow> u64
      \<Rightarrow> ('h, 'o, 'd, 's) uploader \<Rightarrow> ((unit, 'e tcp_error) result \<times> ('h, 'o, 'd, 's) uploader) option" where
  "upload_pad tk so g directory received up =
     (let remainder = unat received mod g_block g
      in if remainder \<noteq> 0
         then write_bytes tk so g directory (replicate (g_block g - remainder) 0) up
         else Some (Ok (), up))"

definition upload_poll_close ::
    "('h, 'o, 'd, 'e) tokio \<Rightarrow> waker \<Rightarrow> ('h, 'o, 'd, 's) uploader
      \<Rightarrow> (nat, (unit, 'e io_error) write_error) result poll \<times> ('h, 'o, 'd, 's) uploader" where
  "upload_poll_close tk cx up =
     (let (res, writer) = ws_poll_close (segment_write_ops tk)
            (bytes_partial_ops :: (bytes_partial, u8 list, nat, u8 list, unit) partial_frame) cx (up_writer up)
      in (res, up\<lparr>up_writer := writer\<rparr>))"

fun pop_completed ::
    "nat \<Rightarrow> ('h, 'o, 'd, 's) uploader \<Rightarrow> (unit, 'e tcp_error) result \<times> ('h, 'o, 'd, 's) uploader" where
  "pop_completed 0 up = (Ok (), up)"
| "pop_completed (Suc n) up =
     (case ws_pop_file (up_writer up) of
        (Err error, writer) \<Rightarrow> (Err (OtherWrite error), up\<lparr>up_writer := writer\<rparr>)
      | (Ok None, writer) \<Rightarrow>
          (Err (Io (Other ''missing close result'')), up\<lparr>up_writer := writer\<rparr>)
      | (Ok (Some written), writer) \<Rightarrow>
          pop_completed n (up\<lparr>up_writer := writer, up_written := up_written up @ [written]\<rparr>))"

partial_function (option) upload_close ::
    "('h, 'o, 'd, 'e) tokio \<Rightarrow> ('s, 'w, 'e) socket \<Rightarrow> ('h, 'o, 'd, 's) uploader
      \<Rightarrow> ((unit, 'e tcp_error) result \<times> ('h, 'o, 'd, 's) uploader) option" where
  [code]: "upload_close tk so up =
     try_then (await_result (upload_task tk so) OtherWrite (upload_poll_close tk) up) (\<lambda>completed up.
       if completed = 0 then Some (Ok (), up)
       else try_then (Some (pop_completed completed up)) (\<lambda>_ up. upload_close tk so up))"

text \<open>The transfer, once the writer is there.\<close>

definition upload_finish ::
    "'e directory \<Rightarrow> string \<Rightarrow> u64 \<Rightarrow> ('h, 'o, 'd, 's) uploader
      \<Rightarrow> (u64, 'e tcp_error) result \<times> ('h, 'o, 'd, 's) uploader" where
  "upload_finish fs directory received up =
     (let path = path_join directory ''stream.meta''; text = decimal (unat received) @ ''\<newline>''
      in case fs_write fs path text of
           Err error \<Rightarrow> (Err (Io error), up)
         | Ok _ \<Rightarrow> (Ok received, up\<lparr>up_meta := up_meta up @ [(path, text)]\<rparr>))"

definition upload_stream ::
    "('h, 'o, 'd, 'e) tokio \<Rightarrow> ('s, 'w, 'e) socket \<Rightarrow> 'e directory \<Rightarrow> geometry \<Rightarrow> string
      \<Rightarrow> ('h, 'o, 'd, 's) uploader \<Rightarrow> ((u64, 'e tcp_error) result \<times> ('h, 'o, 'd, 's) uploader) option" where
  "upload_stream tk so fs g directory up =
     try_then (Some (admit_segments tk g directory up)) (\<lambda>_ up.
     try_then (upload_receive tk so g directory 0 up) (\<lambda>received up.
     try_then (upload_pad tk so g directory received up) (\<lambda>_ up.
     try_then (upload_close tk so up) (\<lambda>_ up.
       Some (upload_finish fs directory received up)))))"

text \<open>\<open>upload\<close>: the outcome, and the state that it ends with once there is one.\<close>

definition upload ::
    "('h, 'o, 'd, 'e) tokio \<Rightarrow> ('s, 'w, 'e) socket \<Rightarrow> 'e directory \<Rightarrow> geometry \<Rightarrow> waker \<Rightarrow> string
      \<Rightarrow> 's \<Rightarrow> ((u64, 'e tcp_error) result \<times> ('h, 'o, 'd, 's) uploader option) option" where
  "upload tk so fs g cx directory sk =
     (case fs_remove_dir_all fs directory of
        Err error \<Rightarrow> Some (Err (Io error), None)
      | Ok _ \<Rightarrow> (case fs_create_dir fs directory of
        Err error \<Rightarrow> Some (Err (Io error), None)
      | Ok _ \<Rightarrow> (case tcp_config g of
        None \<Rightarrow> None
      | Some config \<Rightarrow> (case bytes_allocator_new (g_block g) of
        Err error \<Rightarrow> Some (Err (OtherContract error), None)
      | Ok allocator \<Rightarrow> (case ws_new allocator (budget_new (g_frames g)) config of
        Err error \<Rightarrow> Some (Err (OtherContract error), None)
      | Ok writer \<Rightarrow>
          map_option (\<lambda>(res, up). (res, Some up))
            (upload_stream tk so fs g directory
               \<lparr>up_waker = cx, up_writer = writer, up_next = 0, up_socket = sk, up_written = [], up_meta = []\<rparr>))))))"

section \<open>Download\<close>

text \<open>
  The buffers of the reader come from \<open>Vec::with_capacity\<close>, a factory without state. \<open>dl_wakes\<close> logs the
  wakers that the loop itself wakes.
\<close>

record ('h, 'o, 'd, 's, 'e) downloader =
  dl_waker :: waker
  dl_reader :: "(u8 list, ('h, 'o, 'd) segment, 'e io_error, unit) reader"
  dl_files :: "('h, 'o, 'd) segment list"
  dl_waiting :: "('h, 'o, 'd) segment option"
  dl_closed :: bool
  dl_frame :: "u8 list"
  dl_socket :: 's
  dl_wakes :: "waker list"

definition download_woken ::
    "('h, 'o, 'd, 'e) tokio \<Rightarrow> ('s, 'w, 'e) socket \<Rightarrow> waker \<Rightarrow> ('h, 'o, 'd, 's, 'e) downloader \<Rightarrow> bool" where
  "download_woken tk so cx dl \<longleftrightarrow> cx \<in> set (dl_wakes dl) \<or> cx \<in> set (r_wakes (dl_reader dl)) \<or>
     list_ex (\<lambda>slot. segment_wakes tk cx (s_file slot)) (r_files (dl_reader dl)) \<or>
     so_wakes so cx (dl_socket dl)"

definition download_task ::
    "('h, 'o, 'd, 'e) tokio \<Rightarrow> ('s, 'w, 'e) socket \<Rightarrow> ('h, 'o, 'd, 's, 'e) downloader task" where
  "download_task tk so = \<lparr>ta_waker = dl_waker, ta_polled = dl_waker_update Suc,
     ta_woken = download_woken tk so\<rparr>"

text \<open>While a frame is sent, the task waits for the future that sends it as well.\<close>

definition send_task ::
    "('h, 'o, 'd, 'e) tokio \<Rightarrow> ('s, 'w, 'e) socket \<Rightarrow> (('h, 'o, 'd, 's, 'e) downloader \<times> 'w) task" where
  "send_task tk so = \<lparr>ta_waker = dl_waker \<circ> fst, ta_polled = apfst (dl_waker_update Suc),
     ta_woken = (\<lambda>cx (dl, w). download_woken tk so cx dl \<or> so_write_wakes so cx w)\<rparr>"

definition empty_buffer :: "unit \<Rightarrow> u8 list \<times> unit" where
  "empty_buffer factory = ([], factory)"

text \<open>The loop over the directory: the sum of the sizes and the segments.\<close>

fun list_segments ::
    "geometry \<Rightarrow> string \<Rightarrow> (string \<times> (u64, 'e io_error) result, 'e io_error) result list
      \<Rightarrow> u64 \<Rightarrow> ('h, 'o, 'd) segment list
      \<Rightarrow> (u64 \<times> ('h, 'o, 'd) segment list, 'e tcp_error) result" where
  "list_segments g directory [] stored files = Ok (stored, files)"
| "list_segments g directory (Err error # entries) stored files = Err (Io error)"
| "list_segments g directory (Ok (name, metadata) # entries) stored files =
     (let path = path_join directory name
      in if path_extension path = Some ''bin''
         then case metadata of
           Err error \<Rightarrow> Err (Io error)
         | Ok len \<Rightarrow>
             if len = 0 \<or> unat len mod g_block g \<noteq> 0 \<or>
                unat len > unat (g_frames_per_file g) * g_block g
             then Err (Io (InvalidData ''invalid segment size''))
             else list_segments g directory entries (stored + len)
               (files @ [segment_new path (of_nat (unat len div g_block g))])
         else list_segments g directory entries stored files)"

definition next_file ::
    "('h, 'o, 'd, 's, 'e) downloader
      \<Rightarrow> (('h, 'o, 'd) segment \<times> ('h, 'o, 'd, 's, 'e) downloader) option" where
  "next_file dl =
     (case dl_waiting dl of
        Some file \<Rightarrow> Some (file, dl\<lparr>dl_waiting := None\<rparr>)
      | None \<Rightarrow>
          (case dl_files dl of
             [] \<Rightarrow> None
           | file # files \<Rightarrow> Some (file, dl\<lparr>dl_files := files\<rparr>)))"

definition offer_file ::
    "('h, 'o, 'd, 'e) tokio \<Rightarrow> geometry \<Rightarrow> ('h, 'o, 'd) segment \<Rightarrow> ('h, 'o, 'd, 's, 'e) downloader
      \<Rightarrow> (unit, push_error \<times> ('h, 'o, 'd) segment) result \<times> ('h, 'o, 'd, 's, 'e) downloader" where
  "offer_file tk g file dl =
     (let (res, reader) = rs_push_file (segment_read_ops tk (g_block g)) file (dl_reader dl)
      in (res, dl\<lparr>dl_reader := reader\<rparr>))"

text \<open>The loop that hands files to the reader until it is full or there are no more.\<close>

function push_files ::
    "('h, 'o, 'd, 'e) tokio \<Rightarrow> geometry \<Rightarrow> ('h, 'o, 'd, 's, 'e) downloader
      \<Rightarrow> (unit, 'e tcp_error) result \<times> ('h, 'o, 'd, 's, 'e) downloader" where
  "push_files tk g dl =
     (if dl_closed dl then (Ok (), dl)
      else case next_file dl of
        None \<Rightarrow> (Ok (), dl\<lparr>dl_closed := True, dl_reader := rs_close_files (dl_reader dl)\<rparr>)
      | Some (file, dl) \<Rightarrow>
          (case offer_file tk g file dl of
             (Ok _, dl) \<Rightarrow> push_files tk g dl
           | (Err (Full, file), dl) \<Rightarrow> (Ok (), dl\<lparr>dl_waiting := Some file\<rparr>)
           | (Err (error, _), dl) \<Rightarrow> (Err (OtherPush error), dl)))"
  by pat_completeness auto
termination
  by (relation "measure (\<lambda>(tk, g, dl). length (dl_files dl) + (if dl_waiting dl = None then 0 else 1))")
    (auto simp: next_file_def offer_file_def split: option.splits list.splits prod.splits if_splits)

declare push_files.simps [simp del]

text \<open>One poll of the future that the download loop awaits.\<close>

definition download_poll ::
    "('h, 'o, 'd, 'e) tokio \<Rightarrow> geometry \<Rightarrow> waker \<Rightarrow> ('h, 'o, 'd, 's, 'e) downloader
      \<Rightarrow> (unit option, 'e tcp_error) result poll \<times> ('h, 'o, 'd, 's, 'e) downloader" where
  "download_poll tk g cx dl =
     (case push_files tk g dl of
        (Err error, dl) \<Rightarrow> (Ready (Err error), dl)
      | (Ok _, dl) \<Rightarrow>
          (let (res, frame, reader) = rs_poll_read (segment_read_ops tk (g_block g)) empty_buffer cx
                 (dl_frame dl) (dl_reader dl);
               dl = dl\<lparr>dl_frame := frame, dl_reader := reader\<rparr>
           in case res of
                Ready result \<Rightarrow> (Ready (map_err OtherRead result), dl)
              | Pending \<Rightarrow>
                  (case dl_waiting dl of
                     None \<Rightarrow> (Pending, dl)
                   | Some file \<Rightarrow>
                       (case offer_file tk g file (dl\<lparr>dl_waiting := None\<rparr>) of
                          (Ok _, dl) \<Rightarrow>
                            (Pending, dl\<lparr>dl_wakes := dl_wakes dl @ [cx]\<rparr>)
                        | (Err (Full, file), dl) \<Rightarrow> (Pending, dl\<lparr>dl_waiting := Some file\<rparr>)
                        | (Err (error, _), dl) \<Rightarrow> (Ready (Err (OtherPush error)), dl)))))"

text \<open>
  One poll of the \<open>select!\<close> that sends a frame while the reader goes on: the branches in the order
  in which they are polled, until one is ready.
\<close>

definition poll_socket ::
    "('s, 'w, 'e) socket \<Rightarrow> waker \<Rightarrow> ('h, 'o, 'd, 's, 'e) downloader \<times> 'w
      \<Rightarrow> (unit, 'e io_error) result poll \<times> ('h, 'o, 'd, 's, 'e) downloader \<times> 'w" where
  "poll_socket so cx x = (let (dl, w) = x; (res, w) = so_poll_write_all so cx w in (res, dl, w))"

definition poll_reader ::
    "('h, 'o, 'd, 'e) tokio \<Rightarrow> geometry \<Rightarrow> waker \<Rightarrow> ('h, 'o, 'd, 's, 'e) downloader \<times> 'w
      \<Rightarrow> (unit, 'e io_error) result poll \<times> ('h, 'o, 'd, 's, 'e) downloader \<times> 'w" where
  "poll_reader tk g cx x =
     (let (dl, w) = x;
          (res, reader) = rs_progress (segment_read_ops tk (g_block g)) empty_buffer cx (dl_reader dl)
      in (case res of Pending \<Rightarrow> Pending
            | Ready _ \<Rightarrow> Ready (Err (Other ''progress unexpectedly completed'')),
          dl\<lparr>dl_reader := reader\<rparr>, w))"

definition poll_select ::
    "('x \<Rightarrow> 'r poll \<times> 'x) \<Rightarrow> ('x \<Rightarrow> 'r poll \<times> 'x) \<Rightarrow> 'x \<Rightarrow> 'r poll \<times> 'x" where
  "poll_select first second x =
     (case first x of
        (Ready r, x) \<Rightarrow> (Ready r, x)
      | (Pending, x) \<Rightarrow> second x)"

definition send_poll ::
    "('h, 'o, 'd, 'e) tokio \<Rightarrow> ('s, 'w, 'e) socket \<Rightarrow> geometry \<Rightarrow> waker
      \<Rightarrow> ('h, 'o, 'd, 's, 'e) downloader \<times> 'w
      \<Rightarrow> (unit, 'e io_error) result poll \<times> ('h, 'o, 'd, 's, 'e) downloader \<times> 'w" where
  "send_poll tk so g cx x =
     (if so_first so (snd x) then poll_select (poll_socket so cx) (poll_reader tk g cx) x
      else poll_select (poll_reader tk g cx) (poll_socket so cx) x)"

definition send_bytes ::
    "('h, 'o, 'd, 'e) tokio \<Rightarrow> ('s, 'w, 'e) socket \<Rightarrow> geometry \<Rightarrow> u8 list
      \<Rightarrow> ('h, 'o, 'd, 's, 'e) downloader
      \<Rightarrow> ((unit, 'e tcp_error) result \<times> ('h, 'o, 'd, 's, 'e) downloader) option" where
  "send_bytes tk so g bytes dl =
     map_option (\<lambda>(res, dl, w). (res, dl\<lparr>dl_socket := so_stream so w\<rparr>))
       (await_result (send_task tk so) Io (send_poll tk so g) (dl, so_write_all so (dl_socket dl) bytes))"

partial_function (option) download_frames ::
    "('h, 'o, 'd, 'e) tokio \<Rightarrow> ('s, 'w, 'e) socket \<Rightarrow> geometry \<Rightarrow> nat
      \<Rightarrow> ('h, 'o, 'd, 's, 'e) downloader
      \<Rightarrow> ((unit, 'e tcp_error) result \<times> ('h, 'o, 'd, 's, 'e) downloader) option" where
  [code]: "download_frames tk so g remaining dl =
     try_then (await_result (download_task tk so) (\<lambda>error. error) (download_poll tk g) dl) (\<lambda>read dl.
       case read of
         None \<Rightarrow> Some (Ok (), dl)
       | Some _ \<Rightarrow>
           let length' = min remaining (g_block g)
           in if length (dl_frame dl) < length'
              then Some (Err (Io (Other ''short output frame'')), dl)
              else try_then (send_bytes tk so g (take length' (dl_frame dl)) dl) (\<lambda>_ dl.
                download_frames tk so g (remaining - length') dl))"

definition download_shutdown ::
    "('s, 'w, 'e) socket \<Rightarrow> waker \<Rightarrow> ('h, 'o, 'd, 's, 'e) downloader
      \<Rightarrow> (unit, 'e io_error) result poll \<times> ('h, 'o, 'd, 's, 'e) downloader" where
  "download_shutdown so cx dl =
     (let (res, sk) = so_poll_shutdown so cx (dl_socket dl) in (res, dl\<lparr>dl_socket := sk\<rparr>))"

definition download_stream ::
    "('h, 'o, 'd, 'e) tokio \<Rightarrow> ('s, 'w, 'e) socket \<Rightarrow> geometry \<Rightarrow> u64
      \<Rightarrow> ('h, 'o, 'd, 's, 'e) downloader
      \<Rightarrow> ((u64, 'e tcp_error) result \<times> ('h, 'o, 'd, 's, 'e) downloader) option" where
  "download_stream tk so g stored dl =
     try_then (download_frames tk so g (unat stored) dl) (\<lambda>_ dl.
     try_then (await_result (download_task tk so) Io (download_shutdown so) dl) (\<lambda>_ dl. Some (Ok stored, dl)))"

text \<open>What \<open>download\<close> learns from the directory: the size of the stream and its segments in order.\<close>

definition download_list ::
    "'e directory \<Rightarrow> geometry \<Rightarrow> string
      \<Rightarrow> (u64 \<times> ('h, 'o, 'd) segment list, 'e tcp_error) result" where
  "download_list fs g directory =
     (case fs_read_to_string fs (path_join directory ''stream.meta'') of
        Err error \<Rightarrow> Err (Io error)
      | Ok text \<Rightarrow> (case parse_u64 (trim text) of
        Err error \<Rightarrow> Err (Io (InvalidData error))
      | Ok size' \<Rightarrow> (case fs_read_dir fs directory of
        Err error \<Rightarrow> Err (Io error)
      | Ok entries \<Rightarrow> (case list_segments g directory entries 0 [] of
        Err error \<Rightarrow> Err error
      | Ok (stored, files) \<Rightarrow>
          if unat stored div g_block g \<noteq> div_ceil (unat size') (g_block g)
          then Err (Io (InvalidData ''segments do not match stream.meta''))
          else Ok (size', sort_key (\<lambda>s. components (sg_path s)) files)))))"

definition download ::
    "('h, 'o, 'd, 'e) tokio \<Rightarrow> ('s, 'w, 'e) socket \<Rightarrow> 'e directory \<Rightarrow> geometry \<Rightarrow> waker \<Rightarrow> string
      \<Rightarrow> 's \<Rightarrow> ((u64, 'e tcp_error) result \<times> ('h, 'o, 'd, 's, 'e) downloader option) option" where
  "download tk so fs g cx directory sk =
     (case download_list fs g directory of
        Err error \<Rightarrow> Some (Err error, None)
      | Ok (stored, files) \<Rightarrow> (case tcp_config g of
        None \<Rightarrow> None
      | Some config \<Rightarrow> (case rs_new () (budget_new (g_frames g)) config of
        Err error \<Rightarrow> Some (Err (OtherContract error), None)
      | Ok reader \<Rightarrow>
          map_option (\<lambda>(res, dl). (res, Some dl))
            (download_stream tk so g stored
               \<lparr>dl_waker = cx, dl_reader = reader, dl_files = files, dl_waiting = None, dl_closed = False,
                dl_frame = [], dl_socket = sk, dl_wakes = []\<rparr>))))"

end
