(* ===== verification/Async_Rules.thy ===== *)
theory Async_Rules
  imports Tcp_Transfer
begin

text \<open>
  Rules for the \<open>async\<close> functions of the TCP example. \<open>achieves T m Q\<close>: when the call \<open>m\<close> returns, its
  outcome and state satisfy \<open>Q\<close>, and if \<open>T\<close> holds it does return. So one proof about a call shows both
  that its result is right and that it returns, when what it awaits is ready in time and wakes it until then.
\<close>

definition achieves :: "bool \<Rightarrow> ('r \<times> 's) option \<Rightarrow> ('r \<Rightarrow> 's \<Rightarrow> bool) \<Rightarrow> bool" where
  "achieves T m Q \<longleftrightarrow> (case m of None \<Rightarrow> \<not> T | Some (r, s) \<Rightarrow> Q r s)"

named_theorems async \<open>rules that decompose a call\<close>

lemma achieves_Some [simp, async]: "achieves T (Some x) Q = Q (fst x) (snd x)"
  by (cases x) (simp add: achieves_def)

lemma achieves_try [simp, async]:
  "achieves T (try_then m k) Q =
     achieves T m (\<lambda>r s. case r of Ok a \<Rightarrow> achieves T (k a s) Q | Err e \<Rightarrow> Q (Err e) s)"
  by (auto simp: achieves_def try_then_def split: option.split prod.split result.split)

lemma try_then_Ok [simp]: "try_then (Some (Ok a, s)) k = k a s"
  by (simp add: try_then_def)

lemma achieves_map [simp, async]:
  "achieves T (map_option (\<lambda>(r, s). (f r, g s)) m) Q = achieves T m (\<lambda>r s. Q (f r) (g s))"
  by (auto simp: achieves_def split: option.split)

lemma achieves_mono:
  "achieves T m Q \<Longrightarrow> (\<And>r s. Q r s \<Longrightarrow> Q' r s) \<Longrightarrow> achieves T m Q'"
  by (auto simp: achieves_def split: option.splits)

lemma achieves_False: "achieves False m Q \<longleftrightarrow> (\<forall>r s. m = Some (r, s) \<longrightarrow> Q r s)"
  by (auto simp: achieves_def split: option.splits)

lemma achieves_True: "achieves True m Q \<longleftrightarrow> (\<exists>r s. m = Some (r, s) \<and> Q r s)"
  by (auto simp: achieves_def split: option.splits)

text \<open>
  Awaiting: \<open>I\<close> holds while the future is pending, and if \<open>T\<close> holds every pending poll has woken the
  task and decreases along a well-founded relation. Both are needed: without the wake-up the task
  stays where it is.
\<close>

lemma achieves_await:
  fixes future :: "waker \<Rightarrow> 's \<Rightarrow> 'r poll \<times> 's"
  assumes start: "I s" and wf: "wf R"
    and pending: "\<And>s s'. I s \<Longrightarrow> future (ta_waker task s) s = (Pending, s') \<Longrightarrow>
      I (ta_polled task s') \<and> (T \<longrightarrow> ta_woken task (ta_waker task s) s' \<and> (ta_polled task s', s) \<in> R)"
    and ready: "\<And>s r s'. I s \<Longrightarrow> future (ta_waker task s) s = (Ready r, s') \<Longrightarrow> Q r (ta_polled task s')"
  shows "achieves T (await task future s) Q"
proof (cases T)
  case True
  have "I s \<Longrightarrow> achieves True (await task future s) Q" for s
  proof (induction s rule: wf_induct_rule [OF wf])
    case (1 s)
    obtain p s' where f: "future (ta_waker task s) s = (p, s')" by fastforce
    from 1 f True show ?case
      using pending [of s s'] ready [of s _ s'] by (subst await.simps) (cases p; simp)
  qed
  with start True show ?thesis by simp
next
  case False
  let ?P = "\<lambda>t f s y. t = task \<longrightarrow> f = future \<longrightarrow> I s \<longrightarrow> Q (fst y) (snd y)"
  have "?P task future s y" if "await task future s = Some y" for s y
  proof (rule await.raw_induct [of ?P, OF _ that])
    fix rec :: "'s task \<Rightarrow> (waker \<Rightarrow> 's \<Rightarrow> 'r poll \<times> 's) \<Rightarrow> 's \<Rightarrow> ('r \<times> 's) option" and t f s y
    assume "\<And>t f s y. rec t f s = Some y \<Longrightarrow> ?P t f s y"
      and "(case f (ta_waker t s) s of
          (Pending, s') \<Rightarrow> if ta_woken t (ta_waker t s) s' then rec t f (ta_polled t s') else None
        | (Ready r, s') \<Rightarrow> Some (r, ta_polled t s')) = Some y"
    moreover obtain p s' where "f (ta_waker t s) s = (p, s')" by fastforce
    ultimately show "?P t f s y"
      using pending [of s s'] ready [of s _ s'] by (cases p) (auto split: if_splits)
  qed
  with start False show ?thesis by (fastforce simp: achieves_False)
qed

lemma achieves_await_result:
  assumes "I s" "wf R"
    and "\<And>s s'. I s \<Longrightarrow> future (ta_waker task s) s = (Pending, s') \<Longrightarrow>
      I (ta_polled task s') \<and> (T \<longrightarrow> ta_woken task (ta_waker task s) s' \<and> (ta_polled task s', s) \<in> R)"
    and "\<And>s r s'. I s \<Longrightarrow> future (ta_waker task s) s = (Ready r, s') \<Longrightarrow> Q (map_err g r) (ta_polled task s')"
  shows "achieves T (await_result task g future s) Q"
  unfolding await_result_def
  using achieves_await [where I = I and task = task and future = future and
      Q = "\<lambda>r s. Q (map_err g r) s", OF assms]
  by (simp add: achieves_map [where g = "\<lambda>s. s", simplified])

text \<open>The configuration that both transfers start from.\<close>

lemma tcp_config_Some:
  assumes "tcp_config g = Some config"
  shows "max_retries config = 0" "max_active_files (window config) = g_files g"
    "valid_window (window config)" "target_frames (window config) = g_frames g"
  using assms
  by (auto simp: tcp_config_def window_new_def window_validate_cases config_new_def Let_def valid_window_def
      split: if_splits)

end
