(* ===== verification/Write_Labels.thy ===== *)
theory Write_Labels
  imports Write_Run
begin

text \<open>
  Destinations are handed back in the order in which they were accepted. A destination keeps a
  label (its name, say) whatever is done to it, and the result of closing it tells the label: then
  the labels handed back and those retained are those of the accepted destinations, in order, but
  for the last ones that a close or a failure has dropped.
\<close>

section \<open>Labels\<close>

definition keeps_label ::
    "('t, 'f, 'e, 'r) write_file \<Rightarrow> ('f \<Rightarrow> 'l) \<Rightarrow> ('r \<Rightarrow> 'l) \<Rightarrow> bool" where
  "keeps_label ops label result_label \<longleftrightarrow>
     (\<forall>cx f. label (snd (wf_poll_open ops cx f)) = label f) \<and>
     (\<forall>cx f t. label (snd (wf_poll_write ops cx f t)) = label f) \<and>
     (\<forall>cx f. label (snd (wf_poll_close ops cx f)) = label f) \<and>
     (\<forall>cx f r f'. wf_poll_close ops cx f = (Ready (Ok r), f') \<longrightarrow> result_label r = label f)"

definition slot_label :: "('f \<Rightarrow> 'l) \<Rightarrow> ('r \<Rightarrow> 'l) \<Rightarrow> 'l \<Rightarrow> ('t, 'f, 'r) write_slot \<Rightarrow> bool" where
  "slot_label label result_label l slot \<longleftrightarrow> label (w_file slot) = l \<and>
     (\<forall>r. w_state slot = Closed r \<longrightarrow> result_label r = l)"

locale labelled =
  fixes ops :: "('t, 'f, 'e, 'r) write_file" and label :: "'f \<Rightarrow> 'l" and result_label :: "'r \<Rightarrow> 'l"
  assumes open_label: "label (snd (wf_poll_open ops cx f)) = label f"
    and write_label: "label (snd (wf_poll_write ops cx f t)) = label f"
    and close_label: "label (snd (wf_poll_close ops cx f)) = label f"
    and result_label: "wf_poll_close ops cx f = (Ready (Ok r), f') \<Longrightarrow> result_label r = label f"

lemma labelled_iff: "labelled ops label result_label \<longleftrightarrow> keeps_label ops label result_label"
  unfolding labelled_def keeps_label_def by blast

lemma list_all2_update:
  assumes "list_all2 P xs ys" "i < length xs \<Longrightarrow> P (xs ! i) y"
  shows "list_all2 P xs (ys[i := y])"
  using assms list_all2_update_cong [OF assms(1), of "xs ! i" y i]
  by (cases "i < length xs") (simp_all add: list_all2_lengthD list_update_beyond)

section \<open>Drives\<close>

definition labels_move ::
    "('f \<Rightarrow> 'l) \<Rightarrow> ('r \<Rightarrow> 'l) \<Rightarrow> ('t, 'f, 'r, 'a, 'p) writer \<Rightarrow> ('t, 'f, 'r, 'a, 'p) writer \<Rightarrow> bool" where
  "labels_move label result_label s s' \<longleftrightarrow> ws_inv s' \<and> ww_phase s' = ww_phase s \<and>
     length (ww_files s') = length (ww_files s) \<and>
     (\<forall>ls. list_all2 (slot_label label result_label) ls (ww_files s) \<longrightarrow>
        list_all2 (slot_label label result_label) ls (ww_files s'))"

context labelled begin

lemma slot_poll_label:
  assumes "slot_poll ops cx closing limit slot = (Ok x, slot')" "slot_label label result_label l slot"
  shows "slot_label label result_label l slot'"
  using assms(1)
proof (cases rule: slot_poll_cases)
  case (error g e)
  then have "label g = label (w_file slot)"
    using open_label write_label close_label by (metis snd_conv)
  with error(1) assms(2) show ?thesis by (auto simp: slot_retry_def slot_label_def split: if_splits)
next
  case (pending g)
  then have "label g = label (w_file slot)"
    using open_label write_label close_label by (metis snd_conv)
  with pending assms(2) show ?thesis by (auto simp: slot_label_def)
next
  case (opened g)
  with open_label [of cx "w_file slot"] assms(2) show ?thesis by (simp add: slot_label_def)
next
  case (wrote frame g released frames)
  with write_label [of cx "w_file slot" frame] assms(2) show ?thesis by (simp add: slot_label_def)
next
  case (closed g out)
  with close_label [of cx "w_file slot"] result_label assms(2) show ?thesis by (simp add: slot_label_def)
qed (use assms(2) in \<open>auto simp: slot_label_def\<close>)

end

sublocale labelled \<subseteq> labels: drive_relation ops cx "labels_move label result_label" for cx
proof
  show "labels_move label result_label s (ws_release changed released (slot_done slot) (polled s count slot))"
    if inv: "ws_inv s" and i: "ww_poll_cursor s mod count < length (ww_files s)"
      and p: "slot_poll ops cx (ww_phase s = PhaseClosing) (max_retries (ww_config s))
        (ww_files s ! (ww_poll_cursor s mod count)) = (Ok (changed, released), slot)"
    for s :: "('t, 'f, 'r, 'x, 'y) writer" and count changed released slot
  proof -
    let ?i = "ww_poll_cursor s mod count"
    have "list_all2 (slot_label label result_label) ls ((ww_files s)[?i := slot])"
      if all: "list_all2 (slot_label label result_label) ls (ww_files s)" for ls
      by (rule list_all2_update [OF all slot_poll_label [OF p list_all2_nthD [OF all]]])
    moreover have "ws_inv (ws_release changed released (slot_done slot) (polled s count slot))"
      using polled_moves [OF inv i p, of "\<lambda>_ _. True" "()" "\<lambda>_ _. ()" "\<lambda>_. ()"]
      unfolding ws_moves_def by (elim conjE)
    ultimately show ?thesis by (simp add: labels_move_def)
  qed
qed (auto simp: labels_move_def)

section \<open>Runs\<close>

definition labels_order ::
    "('f \<Rightarrow> 'l) \<Rightarrow> ('r \<Rightarrow> 'l) \<Rightarrow> 'f list \<Rightarrow> ('f \<times> 'r) list \<Rightarrow> ('t, 'f, 'r, 'a, 'p) writer \<Rightarrow> bool" where
  "labels_order label result_label accepted results s \<longleftrightarrow>
     list_all (\<lambda>(f, r). result_label r = label f) results \<and>
     (\<exists>ls dropped. map label accepted = map (label \<circ> fst) results @ ls @ dropped \<and>
        list_all2 (slot_label label result_label) ls (ww_files s) \<and>
        (ww_phase s = PhaseWriting \<longrightarrow> dropped = []))"

lemma labels_order_keep:
  assumes "labels_order label result_label accepted results s"
    and "ww_phase s' = PhaseWriting \<Longrightarrow> ww_phase s = PhaseWriting"
    and "\<And>ls. list_all2 (slot_label label result_label) ls (ww_files s) \<Longrightarrow>
      \<exists>kept dropped. ls = kept @ dropped \<and> list_all2 (slot_label label result_label) kept (ww_files s') \<and>
        (ww_phase s' = PhaseWriting \<longrightarrow> dropped = [])"
  shows "labels_order label result_label accepted results s'"
proof -
  obtain ls dropped where l: "map label accepted = map (label \<circ> fst) results @ ls @ dropped"
    "list_all2 (slot_label label result_label) ls (ww_files s)" "ww_phase s = PhaseWriting \<longrightarrow> dropped = []"
    using assms(1) by (auto simp: labels_order_def)
  obtain kept more' where "ls = kept @ more'" "list_all2 (slot_label label result_label) kept (ww_files s')"
    "ww_phase s' = PhaseWriting \<longrightarrow> more' = []"
    using assms(3) [OF l(2)] by blast
  with l assms(1,2) show ?thesis
    unfolding labels_order_def by (intro conjI exI [of _ kept] exI [of _ "more' @ dropped"]) auto
qed

lemma labels_order_same:
  assumes "labels_order label result_label accepted results s" "ww_phase s' = ww_phase s"
    and "\<And>ls. list_all2 (slot_label label result_label) ls (ww_files s) \<Longrightarrow>
      list_all2 (slot_label label result_label) ls (ww_files s')"
  shows "labels_order label result_label accepted results s'"
proof (rule labels_order_keep [OF assms(1)])
  show "\<exists>kept dropped. ls = kept @ dropped \<and> list_all2 (slot_label label result_label) kept (ww_files s') \<and>
      (ww_phase s' = PhaseWriting \<longrightarrow> dropped = [])"
    if "list_all2 (slot_label label result_label) ls (ww_files s)" for ls
    by (intro exI [of _ ls] exI [of _ "[]"]) (simp add: assms(3) [OF that])
qed (use assms(2) in simp)

text \<open>A failed writer has dropped everything.\<close>

lemma labels_order_failed:
  assumes "labels_order label result_label accepted results s" "ws_inv s'" "ww_phase s' = PhaseFailed"
  shows "labels_order label result_label accepted results s'"
proof (rule labels_order_keep [OF assms(1)])
  have "ww_files s' = []" using assms(2,3) by (simp add: ws_inv_defs)
  with assms(3) show "\<exists>kept dropped. ls = kept @ dropped \<and>
      list_all2 (slot_label label result_label) kept (ww_files s') \<and> (ww_phase s' = PhaseWriting \<longrightarrow> dropped = [])"
    for ls by simp
qed (use assms(3) in simp)

context labelled begin

lemma order_drive:
  fixes res :: "(unit, ('x, 'e) write_error) result"
  assumes "ws_drive ops cx s = (res, s')" "ws_inv s" "labels_order label result_label accepted results s"
  shows "labels_order label result_label accepted results s'"
proof (cases res)
  case (Ok u)
  with labels.drive_relation [OF assms(1,2)] have "labels_move label result_label s s'" by simp
  then show ?thesis
    by (intro labels_order_same [OF assms(3)]) (auto simp: labels_move_def)
next
  case (Err e)
  from assms(1,2) have "ws_inv s'" "ww_phase s' = PhaseFailed"
    by (cases rule: ws_drive_cases [where rep = "\<lambda>_ _. True" and init = "()" and add = "\<lambda>_ _. ()"
          and committed = "\<lambda>_. ()"]; use Err in \<open>simp add: ws_safe_def\<close>)+
  with assms(3) show ?thesis by (rule labels_order_failed)
qed

lemma order_flush:
  assumes "ws_flush_partial pf s = (res, s')" "ws_core s" "ww_phase s \<noteq> PhaseFailed"
    and "labels_order label result_label accepted results s"
  shows "labels_order label result_label accepted results s'"
  using assms(1-3)
proof (cases rule: ws_flush_cases)
  case (frame p)
  let ?i = "ww_fill_index s"
  have "list_all2 (slot_label label result_label) ls ((ww_files s)[?i := fill_slot fr (ww_files s ! ?i)])"
    if all: "list_all2 (slot_label label result_label) ls (ww_files s)" for ls fr
    using list_all2_nthD [OF all, of ?i]
    by (intro list_all2_update [OF all]) (auto simp: slot_label_def fill_slot_def Let_def)
  with frame show ?thesis by (intro labels_order_same [OF assms(4)]) simp_all
qed (use assms(4) in \<open>auto intro: labels_order_same\<close>)

lemma order_begin_close:
  fixes s s' :: "('t, 'f, 'r, 'a, 'p) writer" and res :: "(unit, ('x, 'e) write_error) result"
  assumes b: "ws_begin_close pf s = (res, s')" and inv: "ws_inv s" and ph: "ww_phase s \<noteq> PhaseFailed"
    and ord: "labels_order label result_label accepted results s"
  shows "labels_order label result_label accepted results s'"
proof (cases "ww_phase s = PhaseWriting")
  case False
  with b ord show ?thesis by (simp add: ws_begin_close_def)
next
  case True
  let ?s = "s\<lparr>ww_phase := PhaseClosing\<rparr>"
  obtain s1 where fl: "ws_flush_partial pf ?s = (Ok () :: (unit, ('x, 'e) write_error) result, s1)"
    and s': "ww_files s' = drop_unused (ww_files s1)" "ww_phase s' = PhaseClosing"
    using ws_begin_close_outcome [OF b inv True] by blast
  have core: "ws_core ?s"
    using inv True by (auto simp: ws_inv_def ws_core_def partial_used_def ws_needed_def slot_ok_closing)
  have o1: "labels_order label result_label accepted results s1"
    by (rule order_flush [OF fl core])
      (use labels_order_keep [OF ord, of ?s] in auto)
  obtain unused where un: "ww_files s1 = drop_unused (ww_files s1) @ unused"
    using drop_unused_append by blast
  show ?thesis
  proof (rule labels_order_keep [OF o1])
    fix ls
    assume all: "list_all2 (slot_label label result_label) ls (ww_files s1)"
    have "list_all2 (slot_label label result_label) ls (drop_unused (ww_files s1) @ unused)"
      by (subst un [symmetric]) (rule all)
    then obtain kept dropped where "ls = kept @ dropped"
      "list_all2 (slot_label label result_label) kept (drop_unused (ww_files s1))"
      by (auto simp: list_all2_append2)
    with s' show "\<exists>kept dropped. ls = kept @ dropped \<and>
        list_all2 (slot_label label result_label) kept (ww_files s') \<and> (ww_phase s' = PhaseWriting \<longrightarrow> dropped = [])"
      by auto
  qed (simp add: s'(2))
qed

lemma order_pop:
  assumes "labels_order label result_label accepted results s" and "ww_files s = slot # files"
    and "w_state slot = Closed r" and "ww_files s' = files" "ww_phase s' = ww_phase s"
  shows "labels_order label result_label accepted (results @ [(w_file slot, r)]) s'"
proof -
  obtain ls dropped where l: "map label accepted = map (label \<circ> fst) results @ ls @ dropped"
    "list_all2 (slot_label label result_label) ls (slot # files)" "ww_phase s = PhaseWriting \<longrightarrow> dropped = []"
    "list_all (\<lambda>(f, r). result_label r = label f) results"
    using assms(1,2) by (auto simp: labels_order_def)
  then obtain ls' where "ls = label (w_file slot) # ls'" "result_label r = label (w_file slot)"
    "list_all2 (slot_label label result_label) ls' files"
    using assms(3) by (auto simp: list_all2_Cons2 slot_label_def)
  with l assms(4,5) show ?thesis
    unfolding labels_order_def by (intro conjI exI [of _ ls'] exI [of _ dropped]) simp_all
qed

lemma order_push:
  assumes "labels_order label result_label accepted results s" "ww_phase s = PhaseWriting"
    and "w_state slot = Idle" and "ww_files s' = ww_files s @ [slot]"
  shows "labels_order label result_label (accepted @ [w_file slot]) results s'"
proof -
  obtain ls where "map label accepted = map (label \<circ> fst) results @ ls"
    "list_all2 (slot_label label result_label) ls (ww_files s)"
    "list_all (\<lambda>(f, r). result_label r = label f) results"
    using assms(1,2) by (auto simp: labels_order_def)
  with assms(3,4) show ?thesis
    unfolding labels_order_def
    by (intro conjI exI [of _ "ls @ [label (w_file slot)]"] exI [of _ "[]"])
      (auto simp: slot_label_def list_all2_appendI)
qed

lemma order_poll_write:
  fixes s s' :: "('t, 'f, 'r, 'a, 'p) writer" and res :: "('u write_status, ('x, 'e) write_error) result poll"
  assumes st: "ws_poll_write ops fa pf cx input s = (res, input', s')" and inv: "ws_inv s"
    and ord: "labels_order label result_label accepted results s"
  shows "labels_order label result_label accepted results s'"
proof -
  have inv0: "ws_inv (s\<lparr>ww_waker := None\<rparr>)" using inv by simp
  have ord0: "labels_order label result_label accepted results (s\<lparr>ww_waker := None\<rparr>)"
    by (rule labels_order_same [OF ord]) simp_all
  from st inv show ?thesis
  proof (cases rule: ws_poll_write_cases [where rep = "\<lambda>_ _. True" and init = "()" and add = "\<lambda>_ _. ()"
          and committed = "\<lambda>_. ()"])
    case closed
    with ord0 show ?thesis by simp
  next
    case (failed e)
    then show ?thesis by (intro labels_order_failed [OF ord]) (simp_all add: ws_safe_def)
  next
    case (filled s1 s2)
    have o2: "labels_order label result_label accepted results s2"
      by (rule labels_order_same [OF order_drive [OF filled(2) inv0 ord0]])
        (use filled(4) in \<open>simp_all add: ws_started_def\<close>)
    from filled(5,7,8) show ?thesis
    proof (cases rule: ws_fill_cases)
      case none
      note fr = ws_reports_frame [OF none(2)]
      show ?thesis by (rule labels_order_same [OF o2]) (simp_all add: fr)
    next
      case (pending p p')
      note fr = ws_reports_frame [OF pending(3)]
      show ?thesis by (rule labels_order_same [OF o2]) (simp_all add: fr)
    next
      case (failed e)
      then show ?thesis by (intro labels_order_failed [OF o2]) (simp_all add: ws_safe_def)
    next
      case (stored p out p')
      show ?thesis by (rule labels_order_same [OF o2]) (simp_all add: stored(5))
    next
      case (flushed p out p')
      have "ws_core (s2\<lparr>ww_partial := Some p'\<rparr>)"
        using ws_partial_inv [OF filled(7) flushed(1)] by (simp add: ws_inv_def)
      moreover have "labels_order label result_label accepted results (s2\<lparr>ww_partial := Some p'\<rparr>)"
        by (rule labels_order_same [OF o2]) simp_all
      ultimately show ?thesis by (intro order_flush [OF flushed(5)]) (simp_all add: filled(8))
    qed
  qed
qed

lemma order_poll_close:
  fixes s s' :: "('t, 'f, 'r, 'a, 'p) writer" and res :: "(nat, ('x, 'e) write_error) result poll"
  assumes st: "ws_poll_close ops pf cx s = (res, s')" and inv: "ws_inv s"
    and ord: "labels_order label result_label accepted results s"
  shows "labels_order label result_label accepted results s'"
proof -
  have inv0: "ws_inv (s\<lparr>ww_waker := None\<rparr>)" using inv by simp
  have ord0: "labels_order label result_label accepted results (s\<lparr>ww_waker := None\<rparr>)"
    by (rule labels_order_same [OF ord]) simp_all
  from st inv show ?thesis
  proof (cases rule: ws_poll_close_cases [where rep = "\<lambda>_ _. True" and init = "()" and add = "\<lambda>_ _. ()"
          and committed = "\<lambda>_. ()"])
    case closed
    with ord0 show ?thesis by simp
  next
    case (failed e)
    then show ?thesis by (intro labels_order_failed [OF ord]) (simp_all add: ws_safe_def)
  next
    case (completed s1)
    have "ws_inv s1" using completed(5) by (simp add: ws_safe_def)
    from order_drive [OF completed(7) this order_begin_close [OF completed(2) inv0 _ ord0]] completed(1)
    show ?thesis by simp
  next
    case (pending s1 s2)
    have "ws_inv s1" using pending(5) by (simp add: ws_safe_def)
    from order_drive [OF pending(7) this order_begin_close [OF pending(2) inv0 _ ord0]] pending(1)
    have o2: "labels_order label result_label accepted results s2" by simp
    show ?thesis by (rule labels_order_same [OF o2]) (simp_all add: pending(9))
  qed
qed

lemma order_step:
  fixes s s' :: "('t, 'f, 'r, 'a, 'p) writer" and ev :: "('i, 'u, 'f, 'r, 'e, 'x) write_event"
  assumes st: "ws_step ops fa pf (s, caps) ev (s', caps')" and inv: "ws_inv s"
    and ord: "labels_order label result_label accepted results s"
  shows "labels_order label result_label (accepted @ accepted_destination ev) (results @ returned_result ev) s'"
  using st
proof (cases rule: ws_step.cases)
  case (push f res)
  from push(3) inv show ?thesis
  proof (cases rule: ws_push_file_cases)
    case accepted
    from order_push [OF ord accepted(1), of "slot_new ops f (max_retries (ww_config s) > 0)" s']
      push(1) accepted(4) accepted(5) show ?thesis by simp
  qed (use push(1) ord in auto)
next
  case (set_window w res)
  from set_window(3) inv show ?thesis
    by (cases rule: ws_set_window_cases) (use set_window(1) ord in \<open>auto intro: labels_order_same\<close>)
next
  case (poll_write cx input res input')
  from order_poll_write [OF poll_write(3) inv ord] poll_write(1) show ?thesis by simp
next
  case (pop_swap f res)
  from pop_swap(3) inv show ?thesis
  proof (cases rule: ws_pop_swap_cases)
    case (swapped slot files out new)
    let ?mid = "s\<lparr>ww_files := files\<rparr>"
    have "labels_order label result_label accepted (results @ [(w_file slot, out)]) ?mid"
      by (rule order_pop [OF ord swapped(2,3)]) simp_all
    from order_push [OF this, of new s'] swapped pop_swap(1) show ?thesis by simp
  qed (use pop_swap(1) ord in auto)
next
  case (poll_close cx res)
  from order_poll_close [OF poll_close(3) inv ord] poll_close(1) show ?thesis by simp
next
  case (pop_file res)
  from pop_file(3) inv show ?thesis
  proof (cases rule: ws_pop_file_cases)
    case (popped slot files out)
    from order_pop [OF ord popped(2,3), of s'] popped pop_file(1) show ?thesis by simp
  qed (use pop_file(1) ord in auto)
next
  case (others e b')
  have "labels_order label result_label accepted results s'"
    by (rule labels_order_same [OF ord]) (simp_all add: others(2))
  with others(1) show ?thesis by simp
qed

lemma run_labels:
  assumes "ws_run ops fa pf n allocator evs x"
  shows "labels_order label result_label (accepted_destinations evs) (returned_results evs) (fst x)"
  using assms
proof (induction rule: ws_run.induct)
  case (created b caps config s)
  from ws_new_cases [OF created(2)] show ?case by (simp add: labels_order_def)
next
  case (stepped evs x ev y)
  have inv: "ws_inv (fst x)" using ws_run_state [OF stepped(1)] by (simp add: write_state_def)
  have "ws_step ops fa pf (fst x, snd x) ev (fst y, snd y)" using stepped(2) by simp
  from order_step [OF this inv stepped(3)] show ?case by simp
qed

end

text \<open>What is handed back, as a statement about runs.\<close>

lemma run_returned_labels:
  assumes "ws_run ops fa pf n allocator evs x" "keeps_label ops label result_label"
  shows "map (label \<circ> fst) (returned_results evs) =
      take (length (returned_results evs)) (map label (accepted_destinations evs)) \<and>
    (\<forall>(f, r) \<in> set (returned_results evs). result_label r = label f)"
  using labelled.run_labels [OF assms(2) [folded labelled_iff] assms(1)]
  by (auto simp: labels_order_def list_all_iff)

end
