(* ===== verification/Segment_Contract.thy ===== *)
theory Segment_Contract
  imports File_Segment Write_Labels
begin

text \<open>
  What \<open>Segment\<close> promises when the files of tokio behave as documented: it keeps the contracts of
  both backend traits. A write that is interrupted in the middle of a frame goes on from where it
  stopped, and so does a read.
\<close>

section \<open>Files that are written\<close>

text \<open>
  The documentation of \<open>File::create\<close>, \<open>AsyncWrite::poll_write\<close> and \<open>AsyncWrite::poll_flush\<close>. A file
  that is being created is empty when it is there. A write that is ready has taken the number of
  bytes it reports, from the start of the buffer; a pending one has taken none. Flushing brings
  everything that was written to the disk, and writes nothing itself. \<open>creating o path\<close> says that
  the future \<open>o\<close> creates the file \<open>path\<close>, \<open>names h\<close> is the path of an open file, \<open>data h\<close> what was
  written to it, and \<open>disk h path\<close> what is on the disk under a path. Errors promise nothing.
\<close>

definition written_files ::
    "('h, 'o, 'd, 'e) tokio \<Rightarrow> ('o \<Rightarrow> string \<Rightarrow> bool) \<Rightarrow> ('h \<Rightarrow> string) \<Rightarrow> ('h \<Rightarrow> u8 list)
      \<Rightarrow> ('h \<Rightarrow> string \<Rightarrow> u8 list) \<Rightarrow> bool" where
  "written_files tk creating names data disk \<longleftrightarrow>
     (\<forall>path. creating (tk_create tk path) path) \<and>
     (\<forall>cx f path f'. creating f path \<longrightarrow> tk_poll_opened tk cx f = (Pending, f') \<longrightarrow> creating f' path) \<and>
     (\<forall>cx f path h f'. creating f path \<longrightarrow> tk_poll_opened tk cx f = (Ready (Ok h), f') \<longrightarrow>
        names h = path \<and> data h = []) \<and>
     (\<forall>cx h bytes h'. tk_poll_write tk cx h bytes = (Pending, h') \<longrightarrow>
        names h' = names h \<and> data h' = data h) \<and>
     (\<forall>cx h bytes n h'. tk_poll_write tk cx h bytes = (Ready (Ok n), h') \<longrightarrow>
        names h' = names h \<and> n \<le> length bytes \<and> data h' = data h @ take n bytes) \<and>
     (\<forall>cx h h'. tk_poll_flush tk cx h = (Pending, h') \<longrightarrow> names h' = names h \<and> data h' = data h) \<and>
     (\<forall>cx h u h'. tk_poll_flush tk cx h = (Ready (Ok u), h') \<longrightarrow>
        names h' = names h \<and> data h' = data h \<and> disk h' (names h) = data h)"

locale output_files =
  fixes tk :: "('h, 'o, 'd, 'e) tokio" and creating :: "'o \<Rightarrow> string \<Rightarrow> bool"
    and names :: "'h \<Rightarrow> string" and data :: "'h \<Rightarrow> u8 list" and disk :: "'h \<Rightarrow> string \<Rightarrow> u8 list"
  assumes create: "creating (tk_create tk path) path"
    and create_pending: "creating f path \<Longrightarrow> tk_poll_opened tk cx f = (Pending, f') \<Longrightarrow> creating f' path"
    and create_ok: "creating f path \<Longrightarrow> tk_poll_opened tk cx f = (Ready (Ok h), f') \<Longrightarrow>
      names h = path \<and> data h = []"
    and write_pending: "tk_poll_write tk cx h bytes = (Pending, h') \<Longrightarrow>
      names h' = names h \<and> data h' = data h"
    and write_ok: "tk_poll_write tk cx h bytes = (Ready (Ok n), h') \<Longrightarrow>
      names h' = names h \<and> n \<le> length bytes \<and> data h' = data h @ take n bytes"
    and flush_pending: "tk_poll_flush tk cx h = (Pending, h') \<Longrightarrow>
      names h' = names h \<and> data h' = data h"
    and flush_ok: "tk_poll_flush tk cx h = (Ready (Ok u), h') \<Longrightarrow>
      names h' = names h \<and> data h' = data h \<and> disk h' (names h) = data h"

lemma output_files_iff:
  "output_files tk creating names data disk \<longleftrightarrow> written_files tk creating names data disk"
  unfolding output_files_def written_files_def by meson

text \<open>The phases of a segment that is written.\<close>

fun opens_file :: "bool \<Rightarrow> ('o \<Rightarrow> string \<Rightarrow> bool) \<Rightarrow> string \<Rightarrow> ('o, 'd) opening_file option \<Rightarrow> bool" where
  "opens_file writing opening path None = True"
| "opens_file writing opening path (Some (Delayed d w p)) = (w = writing \<and> p = path)"
| "opens_file writing opening path (Some (Underway f)) = opening f path"

definition segment_at ::
    "('h \<Rightarrow> string) \<Rightarrow> ('h \<Rightarrow> u8 list) \<Rightarrow> ('h, 'o, 'd) segment \<Rightarrow> u8 list \<Rightarrow> bool" where
  "segment_at names data s bytes \<longleftrightarrow> sg_opening s = None \<and>
     (\<exists>h. sg_file s = Some h \<and> names h = sg_path s \<and> data h = bytes)"

fun segment_rep ::
    "('o \<Rightarrow> string \<Rightarrow> bool) \<Rightarrow> ('h \<Rightarrow> string) \<Rightarrow> ('h \<Rightarrow> u8 list) \<Rightarrow> ('h, 'o, 'd) segment
      \<Rightarrow> (u8 list, u8 list) attempt \<Rightarrow> bool" where
  "segment_rep creating names data s Unopened =
     (opens_file True creating (sg_path s) (sg_opening s) \<and> (sg_opening s = None \<or> sg_offset s = 0))"
| "segment_rep creating names data s (Holds acc) = (sg_offset s = 0 \<and> segment_at names data s acc)"
| "segment_rep creating names data s (Partway acc t) =
     (sg_offset s \<le> length t \<and> segment_at names data s (acc @ take (sg_offset s) t))"

definition segment_committed ::
    "('h \<Rightarrow> string \<Rightarrow> u8 list) \<Rightarrow> ('h, 'o, 'd) segment \<times> string \<Rightarrow> u8 list" where
  "segment_committed disk x = (case sg_file (fst x) of Some h \<Rightarrow> disk h (snd x) | None \<Rightarrow> [])"

lemma segment_rep_takes:
  assumes "segment_rep creating names data s a" "takes a acc t"
  shows "\<exists>h. sg_opening s = None \<and> sg_file s = Some h \<and> names h = sg_path s \<and>
    sg_offset s \<le> length t \<and> data h = acc @ take (sg_offset s) t"
  using assms by (cases a) (auto simp: segment_at_def)

context output_files begin

lemma opening_creates:
  assumes "opens_file True creating path (Some f)" "opening_poll tk cx f = (res, f')"
  shows "(res = Pending \<longrightarrow> opens_file True creating path (Some f')) \<and>
    (\<forall>h. res = Ready (Ok h) \<longrightarrow> names h = path \<and> data h = [])"
  using assms
  by (cases f)
    (auto split: prod.splits poll.splits dest: create_pending create_ok create_ok [OF create] create_pending [OF create])

lemma open_rep:
  assumes "segment_rep creating names data s Unopened"
    and "segment_poll_open_file tk True cx s = (res, s')"
  shows "segment_rep creating names data s' (opened [] res)"
proof -
  let ?s = "segment_start tk True s"
  obtain f where f: "sg_opening ?s = Some f" "sg_path ?s = sg_path s" "sg_offset ?s = 0"
    "opens_file True creating (sg_path s) (Some f)"
    using assms(1) by (cases "sg_opening s") (auto simp: segment_start_def)
  obtain r f' where p: "opening_poll tk cx f = (r, f')" by fastforce
  from opening_creates [OF f(4) p] assms(2) f(1-3) p show ?thesis
    by (cases r)
      (auto simp: segment_poll_open_file_def Let_def opened_def segment_at_def split: result.splits)
qed

lemma write_loop:
  assumes "segment_write_loop tk cx frame h offset = (res, h', offset')"
    and "offset \<le> length frame" "data h = acc @ take offset frame"
  shows "(res = Pending \<longrightarrow> names h' = names h \<and> offset' \<le> length frame \<and>
      data h' = acc @ take offset' frame) \<and>
    (\<forall>u. res = Ready (Ok u) \<longrightarrow> names h' = names h \<and> offset' = 0 \<and> data h' = acc @ frame)"
  using assms
proof (induction "length frame - offset" arbitrary: h offset rule: less_induct)
  case less
  note step = less.prems(1) [unfolded segment_write_loop.simps [of tk cx frame h offset]]
  show ?case
  proof (cases "offset < length frame")
    case False
    with step less.prems(2,3) show ?thesis by auto
  next
    case True
    obtain r g where w: "tk_poll_write tk cx h (drop offset frame) = (r, g)" by fastforce
    show ?thesis
    proof (cases "\<exists>n. r = Ready (Ok n) \<and> n \<noteq> 0 \<and> size_checked_add offset n \<noteq> None")
      case False
      with step w True write_pending [of cx h "drop offset frame" g] less.prems(2,3) show ?thesis
        by (auto split: poll.splits result.splits if_splits option.splits)
    next
      case more: True
      then obtain n where n: "r = Ready (Ok n)" "n \<noteq> 0" "size_checked_add offset n = Some (offset + n)"
        by (auto simp: size_checked_add_def split: if_splits)
      have g: "names g = names h" "n \<le> length frame - offset"
        "data g = acc @ take (offset + n) frame"
        using write_ok [OF w [unfolded n(1)]] less.prems(2,3) by (simp_all add: take_add)
      have "segment_write_loop tk cx frame g (offset + n) = (res, h', offset')"
        using step w n True by simp
      from less.hyps [OF _ this _ g(3)] g n(2) True show ?thesis by auto
    qed
  qed
qed

lemma write_rep:
  assumes "segment_rep creating names data s a" "takes a acc t"
    and "segment_poll_write tk cx s t = (res, s')"
  shows "segment_rep creating names data s' (wrote (@) acc t res)"
proof -
  obtain h where h: "sg_opening s = None" "sg_file s = Some h" "names h = sg_path s"
    "sg_offset s \<le> length t" "data h = acc @ take (sg_offset s) t"
    using segment_rep_takes [OF assms(1,2)] by auto
  obtain r h' off where l: "segment_write_loop tk cx t h (sg_offset s) = (r, h', off)"
    by (metis prod_cases3)
  from write_loop [OF l h(4,5)] l h assms(3) show ?thesis
    by (auto simp: segment_poll_write_def wrote_def segment_at_def split: poll.splits result.splits)
qed

lemma close_rep:
  assumes "segment_rep creating names data s (Holds acc)" "segment_poll_close tk cx s = (res, s')"
  shows "res = Pending \<Longrightarrow> segment_rep creating names data s' (Holds acc)"
    and "res = Ready (Ok path) \<Longrightarrow> path = sg_path s \<and> segment_committed disk (s', path) = acc"
    and "res = Ready (Err e) \<Longrightarrow> segment_rep creating names data s' Unopened"
proof -
  obtain h where h: "sg_opening s = None" "sg_file s = Some h" "names h = sg_path s"
    "sg_offset s = 0" "data h = acc"
    using assms(1) by (auto simp: segment_at_def)
  obtain r g where f: "tk_poll_flush tk cx h = (r, g)" by fastforce
  note facts = flush_pending [of cx h g] flush_ok [of cx h _ g]
  show "res = Pending \<Longrightarrow> segment_rep creating names data s' (Holds acc)"
    using assms(2) h f facts
    by (auto simp: segment_poll_close_def Let_def segment_at_def split: poll.splits result.splits prod.splits)
  show "path = sg_path s \<and> segment_committed disk (s', path) = acc" if "res = Ready (Ok path)"
    using assms(2) h f facts that
    by (auto simp: segment_poll_close_def Let_def segment_committed_def split: poll.splits result.splits prod.splits)
  show "res = Ready (Err e) \<Longrightarrow> segment_rep creating names data s' Unopened"
    using assms(2) h f
    by (auto simp: segment_poll_close_def Let_def split: poll.splits result.splits prod.splits)
qed

end

sublocale output_files \<subseteq> segment: write_backend "segment_write_ops tk"
    "segment_rep creating names data" "[]" "(@)" "segment_committed disk"
proof unfold_locales
qed (use open_rep write_rep close_rep in \<open>auto simp: segment_write_ops_def simp del: segment_rep.simps\<close>)

context output_files begin

lemma segment_contract:
  "write_file_contract (segment_write_ops tk) (segment_rep creating names data) [] (@)
     (segment_committed disk)"
  using segment.write_backend_axioms by (simp add: write_backend_iff)

end

section \<open>Files that are read\<close>

text \<open>
  The documentation of \<open>File::open\<close> and \<open>AsyncRead::poll_read\<close>, for files that nobody changes.
  \<open>disk path\<close> is the content of the file under a path and \<open>rest h\<close> what an open file has not yielded
  yet. A read that is ready has filled in the next bytes, at most as many as there is room for, and
  none only at the end of the file or without room; a pending one has filled in none.
\<close>

definition read_files ::
    "('h, 'o, 'd, 'e) tokio \<Rightarrow> ('o \<Rightarrow> string \<Rightarrow> bool) \<Rightarrow> ('h \<Rightarrow> string) \<Rightarrow> ('h \<Rightarrow> u8 list)
      \<Rightarrow> (string \<Rightarrow> u8 list) \<Rightarrow> bool" where
  "read_files tk reads names rest disk \<longleftrightarrow>
     (\<forall>path. reads (tk_open tk path) path) \<and>
     (\<forall>cx f path f'. reads f path \<longrightarrow> tk_poll_opened tk cx f = (Pending, f') \<longrightarrow> reads f' path) \<and>
     (\<forall>cx f path h f'. reads f path \<longrightarrow> tk_poll_opened tk cx f = (Ready (Ok h), f') \<longrightarrow>
        names h = path \<and> rest h = disk path) \<and>
     (\<forall>cx h room h'. tk_poll_read tk cx h room = (Pending, h') \<longrightarrow>
        names h' = names h \<and> rest h' = rest h) \<and>
     (\<forall>cx h room bytes h'. tk_poll_read tk cx h room = (Ready (Ok bytes), h') \<longrightarrow>
        names h' = names h \<and> length bytes \<le> room \<and> rest h = bytes @ rest h' \<and>
        (bytes \<noteq> [] \<or> room = 0 \<or> rest h = []))"

locale input_files =
  fixes tk :: "('h, 'o, 'd, 'e) tokio" and reads :: "'o \<Rightarrow> string \<Rightarrow> bool"
    and names :: "'h \<Rightarrow> string" and rest :: "'h \<Rightarrow> u8 list" and disk :: "string \<Rightarrow> u8 list"
  assumes open_file: "reads (tk_open tk path) path"
    and open_pending: "reads f path \<Longrightarrow> tk_poll_opened tk cx f = (Pending, f') \<Longrightarrow> reads f' path"
    and open_ok: "reads f path \<Longrightarrow> tk_poll_opened tk cx f = (Ready (Ok h), f') \<Longrightarrow>
      names h = path \<and> rest h = disk path"
    and read_pending: "tk_poll_read tk cx h room = (Pending, h') \<Longrightarrow>
      names h' = names h \<and> rest h' = rest h"
    and read_ok: "tk_poll_read tk cx h room = (Ready (Ok bytes), h') \<Longrightarrow>
      names h' = names h \<and> length bytes \<le> room \<and> rest h = bytes @ rest h' \<and>
      (bytes \<noteq> [] \<or> room = 0 \<or> rest h = [])"

lemma input_files_iff:
  "input_files tk reads names rest disk \<longleftrightarrow> read_files tk reads names rest disk"
  unfolding input_files_def read_files_def by meson

text \<open>
  The blocks of a file; a last block that is not full is not a frame. The content of a segment is
  read off the position of its file, which the bytes of an unfinished frame have passed already.
\<close>

function blocks :: "nat \<Rightarrow> u8 list \<Rightarrow> u8 list list" where
  "blocks block bytes =
     (if block = 0 \<or> length bytes < block then []
      else take block bytes # blocks block (drop block bytes))"
  by pat_completeness auto
termination by (relation "measure (\<lambda>(block, bytes). length bytes)") auto

declare blocks.simps [simp del]

definition segment_content ::
    "nat \<Rightarrow> ('h \<Rightarrow> u8 list) \<Rightarrow> (string \<Rightarrow> u8 list) \<Rightarrow> ('h, 'o, 'd) segment \<Rightarrow> u8 list list" where
  "segment_content block rest disk s = blocks block
     (case sg_file s of
        None \<Rightarrow> disk (sg_path s)
      | Some h \<Rightarrow> drop (length (disk (sg_path s)) - (length (rest h) + sg_offset s)) (disk (sg_path s)))"

fun segment_fits ::
    "nat \<Rightarrow> ('o \<Rightarrow> string \<Rightarrow> bool) \<Rightarrow> ('h \<Rightarrow> string) \<Rightarrow> ('h \<Rightarrow> u8 list) \<Rightarrow> (string \<Rightarrow> u8 list)
      \<Rightarrow> ('h, 'o, 'd) segment \<Rightarrow> u8 list reading \<Rightarrow> bool" where
  "segment_fits block reads names rest disk s Fresh =
     (sg_file s = None \<and> opens_file False reads (sg_path s) (sg_opening s) \<and>
      (sg_opening s = None \<or> sg_offset s = 0))"
| "segment_fits block reads names rest disk s Between =
     (sg_opening s = None \<and> sg_offset s = 0 \<and> (\<exists>h k. sg_file s = Some h \<and> names h = sg_path s \<and>
        drop k (disk (sg_path s)) = rest h))"
| "segment_fits block reads names rest disk s (Within t) =
     (sg_opening s = None \<and> length t = block \<and> sg_offset s \<le> block \<and>
      (\<exists>h k. sg_file s = Some h \<and> names h = sg_path s \<and>
        drop k (disk (sg_path s)) = take (sg_offset s) t @ rest h))"

text \<open>A position in a file is what is left behind it.\<close>

lemma drop_by_length: "drop k xs = ys \<Longrightarrow> drop (length xs - length ys) xs = ys"
  by (cases "k \<le> length xs") auto

lemma segment_content_at:
  assumes "sg_file s = Some h" "drop k (disk (sg_path s)) = part @ rest h" "length part = sg_offset s"
  shows "segment_content block rest disk s = blocks block (part @ rest h)"
  using drop_by_length [OF assms(2)] assms(1,3) by (simp add: segment_content_def add.commute)

context input_files begin

lemma opening_opens:
  assumes "opens_file False reads path (Some f)" "opening_poll tk cx f = (res, f')"
  shows "(res = Pending \<longrightarrow> opens_file False reads path (Some f')) \<and>
    (\<forall>h. res = Ready (Ok h) \<longrightarrow> names h = path \<and> rest h = disk path)"
  using assms
  by (cases f)
    (auto split: prod.splits poll.splits dest: open_pending open_ok open_ok [OF open_file]
      open_pending [OF open_file])

lemma open_content:
  assumes "segment_fits block reads names rest disk s Fresh"
    and "segment_poll_open_file tk False cx s = (res, s')"
  shows "segment_content block rest disk s' = segment_content block rest disk s \<and>
    segment_fits block reads names rest disk s' (ready_read res)"
proof -
  let ?s = "segment_start tk False s"
  obtain f where f: "sg_opening ?s = Some f" "sg_path ?s = sg_path s" "sg_offset ?s = 0"
    "sg_file ?s = None" "opens_file False reads (sg_path s) (Some f)"
    using assms(1) by (cases "sg_opening s") (auto simp: segment_start_def)
  have old: "segment_content block rest disk s = blocks block (disk (sg_path s))"
    using assms(1) by (simp add: segment_content_def)
  have whole: "\<exists>k. drop k (disk (sg_path s)) = disk (sg_path s)" by (rule exI [of _ 0]) simp
  obtain r f' where p: "opening_poll tk cx f = (r, f')" by fastforce
  from opening_opens [OF f(5) p] assms(2) f(1-4) p old whole show ?thesis
    by (cases r)
      (auto simp: segment_poll_open_file_def Let_def ready_read_def segment_content_def
        split: result.splits)
qed

lemma read_loop:
  assumes "segment_read_loop tk block cx frame h offset = (res, h', offset', frame')"
    and "offset \<le> block" "length frame = block" "left = take offset frame @ rest h"
  shows "(res = Pending \<longrightarrow> names h' = names h \<and> offset' \<le> block \<and> length frame' = block \<and>
      left = take offset' frame' @ rest h') \<and>
    (\<forall>u. res = Ready (Ok (Some u)) \<longrightarrow> names h' = names h \<and> offset' = 0 \<and>
      length frame' = block \<and> left = frame' @ rest h') \<and>
    (res = Ready (Ok None) \<longrightarrow> left = [])"
  using assms
proof (induction "block - offset" arbitrary: h offset frame rule: less_induct)
  case less
  note step = less.prems(1) [unfolded segment_read_loop.simps [of tk block cx frame h offset]]
  show ?case
  proof (cases "offset < block")
    case False
    with step less.prems(2-4) show ?thesis by auto
  next
    case True
    obtain r g where r: "tk_poll_read tk cx h (length frame - offset) = (r, g)" by fastforce
    show ?thesis
    proof (cases "\<exists>bytes. r = Ready (Ok bytes) \<and> bytes \<noteq> [] \<and>
        size_checked_add offset (length bytes) \<noteq> None")
      case False
      with step r True read_pending [of cx h "length frame - offset" g]
        read_ok [of cx h "length frame - offset" "[]" g] less.prems(2-4) show ?thesis
        by (auto split: poll.splits result.splits if_splits option.splits)
    next
      case more: True
      then obtain bytes where n: "r = Ready (Ok bytes)" "bytes \<noteq> []"
        "size_checked_add offset (length bytes) = Some (offset + length bytes)"
        by (auto simp: size_checked_add_def split: if_splits)
      let ?frame = "frame_store offset bytes frame"
      have g: "names g = names h" "length bytes \<le> block - offset" "rest h = bytes @ rest g"
        using read_ok [OF r [unfolded n(1)]] less.prems(3) by simp_all
      have fr: "length ?frame = block" "left = take (offset + length bytes) ?frame @ rest g"
        using less.prems(2-4) g(2,3) True by (simp_all add: frame_store_def)
      have "segment_read_loop tk block cx ?frame g (offset + length bytes) = (res, h', offset', frame')"
        using step r n True less.prems(3) by simp
      moreover have "block - (offset + length bytes) < block - offset"
        using True n(2) by (simp add: diff_less_mono2)
      moreover have "offset + length bytes \<le> block" using g(2) True by simp
      ultimately show ?thesis using less.hyps [of "offset + length bytes" ?frame g] fr g(1) by simp
    qed
  qed
qed

lemma read_step:
  assumes fits: "segment_fits block reads names rest disk s a" "resumes a t"
    and p: "segment_poll_read tk block cx s t = (res, s', t')"
  shows "res = Pending \<Longrightarrow> segment_content block rest disk s' = segment_content block rest disk s \<and>
      segment_fits block reads names rest disk s' (Within t')"
    and "0 < block \<Longrightarrow> res = Ready (Ok (Some ())) \<Longrightarrow>
      segment_content block rest disk s = t' # segment_content block rest disk s' \<and>
      segment_fits block reads names rest disk s' Between"
    and "0 < block \<Longrightarrow> res = Ready (Ok None) \<Longrightarrow> segment_content block rest disk s = []"
proof -
  let ?t = "if sg_offset s = 0 \<and> length t \<noteq> block then frame_resize block t else t"
  obtain h k where h: "sg_opening s = None" "sg_file s = Some h" "names h = sg_path s"
    "drop k (disk (sg_path s)) = take (sg_offset s) ?t @ rest h" "sg_offset s \<le> block" "length ?t = block"
  proof (cases a)
    case Between
    then have "length ?t = block" using fits(1) by (auto simp: frame_resize_def min_def)
    with fits(1) Between that show thesis by auto
  qed (use fits that in auto)
  obtain r h' off where l: "segment_read_loop tk block cx ?t h (sg_offset s) = (r, h', off, t')"
    and s': "res = r" "s' = s\<lparr>sg_file := Some h', sg_offset := off\<rparr>"
    using p h(2) by (auto simp: segment_poll_read_def Let_def split: prod.splits)
  note loop = read_loop [OF l h(5,6) refl]
  have c: "segment_content block rest disk s = blocks block (take (sg_offset s) ?t @ rest h)"
    using segment_content_at [of s h k disk "take (sg_offset s) ?t" rest block] h(2,4-6) by simp
  show "segment_content block rest disk s' = segment_content block rest disk s \<and>
      segment_fits block reads names rest disk s' (Within t')" if "res = Pending"
  proof -
    have f: "names h' = names h" "off \<le> block" "length t' = block"
      "take (sg_offset s) ?t @ rest h = take off t' @ rest h'"
      using loop that s'(1) by simp_all
    with segment_content_at [of s' h' k disk "take off t'" rest block] h c s' show ?thesis by auto
  qed
  show "segment_content block rest disk s = t' # segment_content block rest disk s' \<and>
      segment_fits block reads names rest disk s' Between"
    if "0 < block" "res = Ready (Ok (Some ()))"
  proof -
    have f: "names h' = names h" "off = 0" "length t' = block"
      "take (sg_offset s) ?t @ rest h = t' @ rest h'"
      using loop that s'(1) by simp_all
    have d: "drop (k + block) (disk (sg_path s)) = rest h'"
      using arg_cong [OF h(4), of "drop block"] f(3,4) by (simp add: add.commute)
    with segment_content_at [of s' h' "k + block" disk "[]" rest block] f(2) s'(2)
    have "segment_content block rest disk s' = blocks block (rest h')" by simp
    with c f(3,4) that(1) have "segment_content block rest disk s = t' # segment_content block rest disk s'"
      by (simp add: blocks.simps [of block "t' @ rest h'"])
    with d h(1,3) f(1,2) s'(2) show ?thesis by auto
  qed
  show "segment_content block rest disk s = []" if "0 < block" "res = Ready (Ok None)"
  proof -
    have "take (sg_offset s) ?t @ rest h = []" using loop that(2) s'(1) by blast
    with c that(1) show ?thesis by (simp only: blocks.simps [of block "[]"]) simp
  qed
qed

end

text \<open>The contract, for blocks that are not empty.\<close>

locale segment_reads = input_files tk reads names rest disk
  for tk :: "('h, 'o, 'd, 'e) tokio" and reads :: "'o \<Rightarrow> string \<Rightarrow> bool"
    and names :: "'h \<Rightarrow> string" and rest :: "'h \<Rightarrow> u8 list" and disk :: "string \<Rightarrow> u8 list" +
  fixes block :: nat
  assumes block: "0 < block"

sublocale segment_reads \<subseteq> segment: read_backend "segment_read_ops tk block"
    "segment_fits block reads names rest disk" "segment_content block rest disk"
proof unfold_locales
qed (use block open_content read_step in
  \<open>auto simp: segment_read_ops_def simp del: segment_fits.simps\<close>)

context segment_reads begin

lemma segment_contract:
  "read_file_contract (segment_read_ops tk block) (segment_fits block reads names rest disk)
     (segment_content block rest disk)"
  using segment.read_backend_axioms by (simp add: read_backend_iff)

end

end
