(* ===== verification/Write_Progress.thy ===== *)
theory Write_Progress
  imports Write_Wakeup Pool_Client
begin

text \<open>
  Progress of the write scheduler without retries. Destinations are patient when each of their
  operations is pending only so many times in a row, as measured by three lags. Then every poll of
  the scheduler that is pending has brought it closer to its next result: the steps that its
  destinations have left, and then their lags, decrease.
\<close>

section \<open>Work\<close>

definition patient_write ::
    "('t, 'f, 'e, 'r) write_file \<Rightarrow> ('f \<Rightarrow> nat) \<Rightarrow> ('f \<Rightarrow> 't \<Rightarrow> nat) \<Rightarrow> ('f \<Rightarrow> nat) \<Rightarrow> bool" where
  "patient_write ops lag_open lag_write lag_close \<longleftrightarrow>
     (\<forall>cx f f'. wf_poll_open ops cx f = (Pending, f') \<longrightarrow> lag_open f' < lag_open f) \<and>
     (\<forall>cx f t f'. wf_poll_write ops cx f t = (Pending, f') \<longrightarrow> lag_write f' t < lag_write f t) \<and>
     (\<forall>cx f f'. wf_poll_close ops cx f = (Pending, f') \<longrightarrow> lag_close f' < lag_close f)"

text \<open>The state changes that a destination has left, with the frames it holds.\<close>

definition slot_steps :: "('t, 'f, 'r) write_slot \<Rightarrow> nat" where
  "slot_steps slot =
     (case w_state slot of
        Opening \<Rightarrow> frames_len (w_frames slot) + 3
      | Writing \<Rightarrow> frames_len (w_frames slot) + 2
      | Closing \<Rightarrow> 1
      | _ \<Rightarrow> 0)"

definition slot_lag ::
    "('f \<Rightarrow> nat) \<Rightarrow> ('f \<Rightarrow> 't \<Rightarrow> nat) \<Rightarrow> ('f \<Rightarrow> nat) \<Rightarrow> ('t, 'f, 'r) write_slot \<Rightarrow> nat" where
  "slot_lag lag_open lag_write lag_close slot =
     (case w_state slot of
        Opening \<Rightarrow> lag_open (w_file slot)
      | Writing \<Rightarrow>
          (case frames_next (w_frames slot) (w_written slot) of
             None \<Rightarrow> 0
           | Some frame \<Rightarrow> lag_write (w_file slot) frame)
      | Closing \<Rightarrow> lag_close (w_file slot)
      | _ \<Rightarrow> 0)"

definition slots_work ::
    "('f \<Rightarrow> nat) \<Rightarrow> ('f \<Rightarrow> 't \<Rightarrow> nat) \<Rightarrow> ('f \<Rightarrow> nat) \<Rightarrow> ('t, 'f, 'r) write_slot list \<Rightarrow> nat \<times> nat" where
  "slots_work lag_open lag_write lag_close slots =
     (\<Sum>slot \<leftarrow> slots. slot_steps slot,
      \<Sum>slot \<leftarrow> slots. slot_lag lag_open lag_write lag_close slot)"

text \<open>A destination that a poll leaves alone.\<close>

definition slot_quiet :: "bool \<Rightarrow> ('t, 'f, 'r) write_slot \<Rightarrow> bool" where
  "slot_quiet closing slot \<longleftrightarrow> w_state slot = Idle \<or> slot_done slot \<or> slot_starved closing slot"

lemma slots_work_update:
  assumes "i < length slots"
    and "slot_steps slot < slot_steps (slots ! i) \<or> slot_steps slot = slot_steps (slots ! i) \<and>
      slot_lag lo lw lc slot < slot_lag lo lw lc (slots ! i)"
  shows "(slots_work lo lw lc (slots[i := slot]), slots_work lo lw lc slots) \<in> fewer"
  unfolding slots_work_def by (rule sums_fewer [OF assms])

locale patient =
  fixes ops :: "('t, 'f, 'e, 'r) write_file" and lag_open :: "'f \<Rightarrow> nat"
    and lag_write :: "'f \<Rightarrow> 't \<Rightarrow> nat" and lag_close :: "'f \<Rightarrow> nat"
  assumes open_lag: "wf_poll_open ops cx f = (Pending, f') \<Longrightarrow> lag_open f' < lag_open f"
    and write_lag: "wf_poll_write ops cx f t = (Pending, f') \<Longrightarrow> lag_write f' t < lag_write f t"
    and close_lag: "wf_poll_close ops cx f = (Pending, f') \<Longrightarrow> lag_close f' < lag_close f"
begin

abbreviation work :: "('t, 'f, 'r, 'a, 'p) writer \<Rightarrow> nat \<times> nat" where
  "work s \<equiv> slots_work lag_open lag_write lag_close (ww_files s)"

lemma slot_poll_work:
  assumes p: "slot_poll ops cx closing 0 slot = (Ok (changed, released), slot')"
    and ok: "slot_ok closing 0 tot slot"
  shows "(slot_steps slot' < slot_steps slot \<or> slot_steps slot' = slot_steps slot \<and>
      slot_lag lag_open lag_write lag_close slot' < slot_lag lag_open lag_write lag_close slot) \<or>
    \<not> changed \<and> released = 0 \<and> slot' = slot \<and> slot_quiet closing slot"
  using p
proof (cases rule: slot_poll_cases)
  case (wrote frame g rel frames)
  with ok show ?thesis
    by (cases "w_frames slot")
      (auto simp: slot_ok_defs replays_def slot_steps_def split: list.splits)
next
  case (pending g)
  then show ?thesis
    using open_lag write_lag close_lag by (auto simp: slot_steps_def slot_lag_def)
next
  case (error g e)
  with ok show ?thesis by (auto simp: slot_retry_def slot_ok_def)
qed (auto simp: slot_steps_def slot_quiet_def slot_starved_def)

end

lemma patient_iff:
  "patient ops lag_open lag_write lag_close \<longleftrightarrow> patient_write ops lag_open lag_write lag_close"
  unfolding patient_def patient_write_def by meson

section \<open>Drives\<close>

definition work_moves ::
    "(('t, 'f, 'r) write_slot list \<Rightarrow> nat \<times> nat)
      \<Rightarrow> ('t, 'f, 'r, 'a, 'p) writer \<Rightarrow> ('t, 'f, 'r, 'a, 'p) writer \<Rightarrow> bool" where
  "work_moves work s s' \<longleftrightarrow> ws_inv s' \<and> ww_config s' = ww_config s \<and> ww_phase s' = ww_phase s \<and>
     length (ww_files s') = length (ww_files s) \<and>
     (max_retries (ww_config s) = 0 \<longrightarrow>
        work (ww_files s') = work (ww_files s) \<or> (work (ww_files s'), work (ww_files s)) \<in> fewer)"

sublocale patient \<subseteq> working: drive_relation ops cx
    "work_moves (slots_work lag_open lag_write lag_close)" for cx
proof
  show "work_moves (slots_work lag_open lag_write lag_close) s
      (ws_release changed released (slot_done slot) (polled s count slot))"
    if inv: "ws_inv s" and i: "ww_poll_cursor s mod count < length (ww_files s)"
      and p: "slot_poll ops cx (ww_phase s = PhaseClosing) (max_retries (ww_config s))
        (ww_files s ! (ww_poll_cursor s mod count)) = (Ok (changed, released), slot)"
    for s :: "('t, 'f, 'r, 'x, 'y) writer" and count changed released slot
  proof -
    let ?i = "ww_poll_cursor s mod count"
    have "ws_inv (ws_release changed released (slot_done slot) (polled s count slot))"
      using polled_moves [OF inv i p, of "\<lambda>_ _. True" "()" "\<lambda>_ _. ()" "\<lambda>_. ()"]
      unfolding ws_moves_def by (elim conjE)
    moreover have "slots_work lag_open lag_write lag_close ((ww_files s)[?i := slot]) = work s \<or>
        (slots_work lag_open lag_write lag_close ((ww_files s)[?i := slot]), work s) \<in> fewer"
      if limit: "max_retries (ww_config s) = 0"
    proof -
      have "slot_ok (ww_phase s = PhaseClosing) 0 (b_total (ww_budget s)) (ww_files s ! ?i)"
        using ws_core_slot [OF _ i] inv limit by (simp add: ws_inv_def)
      from slot_poll_work [OF p [unfolded limit] this] show ?thesis
        using slots_work_update [OF i, of slot lag_open lag_write lag_close]
        by (auto simp: list_update_same_conv i)
    qed
    ultimately show ?thesis by (simp add: work_moves_def)
  qed
qed (auto simp: work_moves_def intro: fewer_trans)

context patient begin

text \<open>A pass decreases the work, or every destination that it visits is quiet.\<close>

lemma pass_work:
  fixes pr :: "('i, 'e) write_error write_pass"
  assumes "ws_pass ops cx n count progressed remaining s = (pr, s')" and "\<And>e. pr \<noteq> WPassError e"
    and "ws_inv s" "count = length (ww_files s)" "0 < count" "max_retries (ww_config s) = 0"
  shows "(work s', work s) \<in> fewer \<or>
    (\<exists>remaining'. pr = WPassDone progressed remaining') \<and> ww_files s' = ww_files s \<and>
    (\<forall>k < n. slot_quiet (ww_phase s = PhaseClosing) (ww_files s ! ((ww_poll_cursor s + k) mod count)))"
  using assms
proof (induction n arbitrary: progressed remaining s)
  case 0
  then show ?case by auto
next
  case (Suc n)
  let ?i = "ww_poll_cursor s mod count"
  have i: "?i < length (ww_files s)" using Suc.prems(4,5) by simp
  have ok: "slot_ok (ww_phase s = PhaseClosing) 0 (b_total (ww_budget s)) (ww_files s ! ?i)"
    using ws_core_slot [OF _ i] Suc.prems(3,6) by (simp add: ws_inv_def)
  have rest: "(work s', work s) \<in> fewer"
    if "ws_pass ops cx n count progressed' remaining'
        (ws_release changed released (slot_done slot) (polled s count slot)) = (pr, s')"
      and p: "slot_poll ops cx (ww_phase s = PhaseClosing) (max_retries (ww_config s)) (ww_files s ! ?i) =
        (Ok (changed, released), slot)"
      and less: "(work (polled s count slot), work s) \<in> fewer"
    for progressed' remaining' changed released slot
  proof -
    let ?s = "ws_release changed released (slot_done slot) (polled s count slot)"
    have w: "work_moves (slots_work lag_open lag_write lag_close) s ?s"
      by (rule working.R_poll [OF Suc.prems(3) i p])
    have "case pr of WPassError e \<Rightarrow> working.fails cx ?s e s'
        | _ \<Rightarrow> work_moves (slots_work lag_open lag_write lag_close) ?s s'"
      by (rule working.pass_relation [OF that(1)])
        (use w Suc.prems(4,5) in \<open>simp_all add: work_moves_def\<close>)
    with Suc.prems(2) have "work_moves (slots_work lag_open lag_write lag_close) ?s s'"
      by (cases pr) auto
    with w less Suc.prems(6) show ?thesis
      by (auto simp: work_moves_def intro: fewer_trans_eq)
  qed
  from Suc.prems(1) show ?case
  proof (cases rule: ws_pass_step)
    case missing
    with i show ?thesis by simp
  next
    case (failed e slot)
    with Suc.prems(2) [of "WBackend e"] show ?thesis by simp
  next
    case (exhausted released slot)
    with slot_poll_work [of cx "ww_phase s = PhaseClosing" _ True released slot] ok
      slots_work_update [OF i] Suc.prems(6) show ?thesis by (auto simp: Let_def)
  next
    case (changed released slot)
    with slot_poll_work [of cx "ww_phase s = PhaseClosing" _ True released slot] ok
      slots_work_update [OF i] Suc.prems(6) rest [OF changed(4,2)] show ?thesis by auto
  next
    case (same released slot)
    show ?thesis
    proof (cases "released = 0 \<and> slot = ww_files s ! ?i \<and> slot_quiet (ww_phase s = PhaseClosing) (ww_files s ! ?i)")
      case False
      with slot_poll_work [of cx "ww_phase s = PhaseClosing" "ww_files s ! ?i" False released slot] ok same(2)
        slots_work_update [OF i] Suc.prems(6) rest [OF same(3,2)] show ?thesis by auto
    next
      case True
      let ?s = "polled s count slot"
      have files: "ww_files ?s = ww_files s" using True by simp
      have next1: "ws_pass ops cx n count progressed remaining ?s = (pr, s')"
        using same(3) True by (simp add: ws_release_nothing)
      have "ws_inv ?s"
        using working.R_poll [OF Suc.prems(3) i same(2)] True by (simp add: work_moves_def ws_release_nothing)
      from Suc.IH [OF next1 Suc.prems(2) this] Suc.prems(4-6) files
      have ih: "(work s', work s) \<in> fewer \<or>
          (\<exists>remaining'. pr = WPassDone progressed remaining') \<and> ww_files s' = ww_files s \<and>
          (\<forall>k < n. slot_quiet (ww_phase s = PhaseClosing) (ww_files s ! ((ww_poll_cursor ?s + k) mod count)))"
        by simp
      have shift: "(ww_poll_cursor ?s + k) mod count = (ww_poll_cursor s + Suc k) mod count" for k
        by (simp add: mod_simps)
      have "slot_quiet (ww_phase s = PhaseClosing) (ww_files s ! ((ww_poll_cursor s + k) mod count))"
        if "\<forall>k < n. slot_quiet (ww_phase s = PhaseClosing) (ww_files s ! ((ww_poll_cursor ?s + k) mod count))"
          "k < Suc n" for k
        using that True unfolding shift by (cases k) auto
      with ih show ?thesis by blast
    qed
  qed
qed

lemma loop_work:
  assumes "ws_loop ops cx count remaining s = (Ok () :: (unit, ('i, 'e) write_error) result, s')"
    and "ws_inv s" "count = length (ww_files s)" "0 < count" "max_retries (ww_config s) = 0"
  shows "(work s', work s) \<in> fewer \<or>
    ww_files s' = ww_files s \<and> (\<forall>slot \<in> set (ww_files s). slot_quiet (ww_phase s = PhaseClosing) slot)"
proof -
  obtain pr s1 where p: "ws_pass ops cx count count False remaining s =
      (pr :: ('i, 'e) write_error write_pass, s1)" by fastforce
  note loop = assms(1) [unfolded ws_loop.simps [of ops cx count remaining s] p prod.case]
  have no: "pr \<noteq> WPassError e" for e using loop by auto
  from working.pass_relation [OF p assms(2-4)] no
  have moved: "work_moves (slots_work lag_open lag_write lag_close) s s1" by (cases pr) auto
  from pass_work [OF p no assms(2-5)] show ?thesis
  proof
    assume less: "(work s1, work s) \<in> fewer"
    have "work s' = work s1 \<or> (work s', work s1) \<in> fewer"
    proof (cases "\<exists>remaining'. pr = WPassDone True remaining'")
      case True
      then obtain remaining' where "ws_loop ops cx count remaining' s1 =
          (Ok () :: (unit, ('i, 'e) write_error) result, s')" using loop by auto
      moreover have "ws_inv s1" "count = length (ww_files s1)" "max_retries (ww_config s1) = 0"
        using moved assms(3,5) by (simp_all add: work_moves_def)
      ultimately show ?thesis
        using working.loop_relation [of cx count remaining' s1] assms(4) by (fastforce simp: work_moves_def)
    next
      case False
      with loop have "s' = s1" by (cases pr) (auto split: if_splits)
      then show ?thesis by simp
    qed
    with less show ?thesis by (auto intro: fewer_trans_eq)
  next
    assume quiet: "(\<exists>remaining'. pr = WPassDone False remaining') \<and> ww_files s1 = ww_files s \<and>
      (\<forall>k < count. slot_quiet (ww_phase s = PhaseClosing) (ww_files s ! ((ww_poll_cursor s + k) mod count)))"
    then have "s' = s1" using loop by auto
    moreover have "slot_quiet (ww_phase s = PhaseClosing) (ww_files s ! i)" if i: "i < count" for i
    proof -
      obtain k where "k < count" "(ww_poll_cursor s + k) mod count = i"
        using rotation_covers [OF assms(4) i] by blast
      with quiet show ?thesis by auto
    qed
    then have "\<forall>slot \<in> set (ww_files s). slot_quiet (ww_phase s = PhaseClosing) slot"
      using assms(3) by (metis in_set_conv_nth)
    ultimately show ?thesis using quiet by metis
  qed
qed

lemma drive_work:
  assumes "ws_drive ops cx s = (Ok () :: (unit, ('i, 'e) write_error) result, s')"
    and "ws_inv s" "max_retries (ww_config s) = 0"
  shows "(work s', work s) \<in> fewer \<or>
    ww_files s' = ww_files s \<and> (\<forall>slot \<in> set (ww_files s). slot_quiet (ww_phase s = PhaseClosing) slot)"
proof (cases "ww_files s = []")
  case True
  with assms(1) show ?thesis by (simp add: ws_drive_def)
next
  case False
  with assms loop_work [of cx "length (ww_files s)" max_poll_ops s s'] show ?thesis
    by (simp add: ws_drive_def Let_def)
qed

text \<open>A pending \<open>poll_write\<close>, when the input is never pending and nobody else wants the budget.\<close>

lemma poll_write_work:
  fixes s s' :: "('t, 'f, 'r, 'a, 'p) writer" and pf :: "('p, 'i, 'o, 't, 'x) partial_frame"
  assumes p: "ws_poll_write ops fa pf cx input s = (Pending, input', s')" and inv: "ws_inv s"
    and limit: "max_retries (ww_config s) = 0"
    and ready: "\<And>cx q i. fst (pf_poll_fill pf cx q i) \<noteq> Pending"
    and ok: "client_ok n (ww_permit s) (ww_budget s) caps" and alone: "alone (ww_permit s) (ww_budget s)"
  shows "(work s', work s) \<in> fewer"
  using p inv
proof (cases rule: ws_poll_write_cases [where rep = "\<lambda>_ _. True" and init = "()" and add = "\<lambda>_ _. ()"
      and committed = "\<lambda>_. ()"])
  case (filled s1 s2)
  have run: "permit_run (ww_permit s, ww_budget s) (ww_permit s2, ww_budget s2)"
    using filled(6) by (simp add: ws_safe_def)
  have cap: "p_capacity (ww_permit s2) \<le> b_total (ww_budget s2)"
    using client_capacity [OF client_run [OF ok run]] by simp
  have queued: "\<not> ws_queued cx s2"
    using alone_not_waiting [OF client_run [OF ok run] alone_run [OF run alone]] by (simp add: ws_queued_def)
  have frame: "ww_files s2 = ww_files s1" "ww_fill_index s2 = ww_fill_index s1"
    "ww_config s2 = ww_config s1" "b_total (ww_budget s2) = b_total (ww_budget s1)"
    using filled(4) permit_run_frame [of "(ww_permit s1, ww_budget s1)" "(ww_permit s2, ww_budget s2)"]
    by (simp_all add: ws_started_def ws_safe_def)
  have driven: "(work s1, work s) \<in> fewer \<or>
      (\<forall>slot \<in> set (ww_files s2). slot_settled_by (\<lambda>_ _. False) cx False slot)"
    using drive_work [OF filled(2)] inv limit filled(1)
    by (auto simp: frame slot_quiet_def slot_settled_by_def)
  from filled(5,7,8) show ?thesis
  proof (cases rule: ws_fill_cases)
    case none
    note fr = ws_reports_frame [OF none(2)]
    from none(2) have w: "completed_files (ww_files s2) = 0"
      "max_active_files (window (ww_config s2)) \<le> length (ww_files s2)"
      unfolding ws_reports_def by (cases rule: ws_report_cases; simp)+
    have files: "ww_files s2 \<noteq> []"
      using w(2) ws_inv_valid [OF filled(7)] by (auto simp: valid_window_def)
    have "ww_used s2 = ww_used s1" "ww_fill_index s2 = length (ww_files s2) \<or>
        ws_limit s2 < ww_used s2 + ws_needed (ww_files s2 ! ww_fill_index s2) s2"
      using filled(4) none(1) frame queued
      by (auto simp: ws_started_def ws_limit_def ws_needed_def total_capacity_def)
    with ws_blocked_registers [OF filled(7,8) none(1) cap files completed_zero_head [OF w(1) files],
        of "\<lambda>_ _. False" cx] driven
    have "(work s1, work s) \<in> fewer" by auto
    with fr frame show ?thesis by simp
  next
    case (pending q q')
    with ready [of cx q input] show ?thesis by simp
  qed simp_all
qed simp_all

text \<open>A pending \<open>poll_close\<close>, after the first one.\<close>

lemma poll_close_work:
  fixes s s' :: "('t, 'f, 'r, 'a, 'p) writer" and pf :: "('p, 'i, 'o, 't, 'x) partial_frame"
  assumes p: "ws_poll_close ops pf cx s = (Pending, s')" and inv: "ws_inv s"
    and limit: "max_retries (ww_config s) = 0"
  shows "ww_phase s' = PhaseClosing \<and> (ww_phase s = PhaseWriting \<or> (work s', work s) \<in> fewer)"
  using p inv
proof (cases rule: ws_poll_close_cases [where rep = "\<lambda>_ _. True" and init = "()" and add = "\<lambda>_ _. ()"
      and committed = "\<lambda>_. ()"])
  case (pending s1 s2)
  have inv2: "ws_inv s2" and ph2: "ww_phase s2 = PhaseClosing"
    using pending(3,4) by (simp_all add: ws_moves_def)
  show ?thesis
  proof (cases "ww_phase s = PhaseWriting")
    case False
    then have s1: "s1 = s\<lparr>ww_waker := None\<rparr>" "ww_phase s = PhaseClosing"
      using pending(1,2,4) by (cases "ww_phase s"; simp add: ws_begin_close_def)+
    have "slot_done slot" if "slot \<in> set (ww_files s2)" "slot_quiet True slot" for slot
      using inv2 ph2 that
      by (auto simp: ws_inv_defs slot_quiet_def slot_starved_def slot_ok_defs unat_eq_zero)
    moreover have "\<not> slot_done (hd (ww_files s2))"
      by (rule completed_zero_head [OF pending(10,11)])
    ultimately have "(work s2, work s) \<in> fewer"
      using drive_work [OF pending(7)] inv limit pending(11) s1 hd_in_set [OF pending(11)] by auto
    with pending(9) ph2 show ?thesis by simp
  qed (use pending(9) ph2 in simp)
qed simp_all

end

end
