(* ===== verification/Read_Progress.thy ===== *)
theory Read_Progress
  imports Read_Wakeup Read_Order
begin

text \<open>
  Progress of the read scheduler without retries, as for the write scheduler: when every operation
  of its files is pending only so many times in a row, every poll that is pending brings the reader
  closer to its next frame. The frames that the files have left, and then their lags, decrease.
\<close>

section \<open>Work\<close>

definition patient_read ::
    "('t, 'f, 'e) read_file \<Rightarrow> ('f \<Rightarrow> nat) \<Rightarrow> ('f \<Rightarrow> nat) \<Rightarrow> bool" where
  "patient_read ops lag_open lag_read \<longleftrightarrow>
     (\<forall>cx f f'. rf_poll_open ops cx f = (Pending, f') \<longrightarrow> lag_open f' < lag_open f) \<and>
     (\<forall>cx f t f' t'. rf_poll_read ops cx f t = (Pending, f', t') \<longrightarrow> lag_read f' < lag_read f)"

definition read_steps :: "'f read_slot \<Rightarrow> nat" where
  "read_steps slot =
     (if s_state slot = ROpening then 1 else 0) + (unat (s_count slot) - unat (s_received slot))"

definition read_lag :: "('f \<Rightarrow> nat) \<Rightarrow> ('f \<Rightarrow> nat) \<Rightarrow> 'f read_slot \<Rightarrow> nat" where
  "read_lag lag_open lag_read slot =
     (case s_state slot of
        ROpening \<Rightarrow> lag_open (s_file slot)
      | RReading \<Rightarrow> if s_received slot = s_count slot then 0 else lag_read (s_file slot))"

definition reads_work :: "('f \<Rightarrow> nat) \<Rightarrow> ('f \<Rightarrow> nat) \<Rightarrow> 'f read_slot list \<Rightarrow> nat \<times> nat" where
  "reads_work lag_open lag_read slots =
     (\<Sum>slot \<leftarrow> slots. read_steps slot, \<Sum>slot \<leftarrow> slots. read_lag lag_open lag_read slot)"

definition unblocked :: "'f read_slot list \<Rightarrow> 'f read_slot list" where
  "unblocked slots = map (\<lambda>slot. slot\<lparr>s_blocked := False\<rparr>) slots"

text \<open>Only files that have everything are blocked; a file that a poll leaves alone.\<close>

definition blocked_done :: "'f read_slot list \<Rightarrow> bool" where
  "blocked_done slots \<longleftrightarrow> (\<forall>slot \<in> set slots. s_blocked slot \<longrightarrow> s_received slot = s_count slot)"

definition slot_idle :: "('t, 'f, 'e, 'a) reader \<Rightarrow> 'f read_slot \<Rightarrow> bool" where
  "slot_idle s slot \<longleftrightarrow> slot_waits s slot \<or> s_received slot = s_count slot"

text \<open>Nothing has happened but that files were marked as blocked.\<close>

definition same_work :: "('t, 'f, 'e, 'a) reader \<Rightarrow> ('t, 'f, 'e, 'a) reader \<Rightarrow> bool" where
  "same_work s s' \<longleftrightarrow> unblocked (r_files s') = unblocked (r_files s) \<and>
     (blocked_done (r_files s) \<longrightarrow> blocked_done (r_files s')) \<and>
     r_frames s' = r_frames s \<and> r_emitted s' = r_emitted s"

lemma length_unblocked [simp]: "length (unblocked slots) = length slots"
  by (simp add: unblocked_def)

lemma unblocked_work:
  assumes "unblocked slots' = unblocked slots"
  shows "reads_work lo lr slots' = reads_work lo lr slots"
proof -
  have "read_steps (slot\<lparr>s_blocked := False\<rparr>) = read_steps slot"
    "read_lag lo lr (slot\<lparr>s_blocked := False\<rparr>) = read_lag lo lr slot" for slot
    by (simp_all add: read_steps_def read_lag_def split: read_state.split)
  then have "reads_work lo lr (unblocked slots) = reads_work lo lr slots" for slots
    by (simp add: reads_work_def unblocked_def comp_def)
  with assms show ?thesis by metis
qed

lemma same_work_idle:
  assumes "same_work s s'" "i < length (r_files s)" "slot_idle s' (r_files s' ! i)"
  shows "slot_idle s (r_files s ! i)"
proof -
  have "length (r_files s') = length (r_files s)"
    using assms(1) by (metis same_work_def length_unblocked)
  moreover have "unblocked (r_files s') ! i = unblocked (r_files s) ! i"
    using assms(1) by (simp add: same_work_def)
  ultimately have "(r_files s' ! i)\<lparr>s_blocked := False\<rparr> = (r_files s ! i)\<lparr>s_blocked := False\<rparr>"
    using assms(2) by (simp add: unblocked_def)
  then have "s_state (r_files s' ! i) = s_state (r_files s ! i)"
    "s_start (r_files s' ! i) = s_start (r_files s ! i)"
    "s_received (r_files s' ! i) = s_received (r_files s ! i)"
    "s_count (r_files s' ! i) = s_count (r_files s ! i)"
    by (metis read_slot.ext_inject read_slot.surjective read_slot.update_convs(7))+
  with assms(1,3) show ?thesis by (simp add: slot_idle_def slot_waits_def same_work_def)
qed

lemma reads_work_update:
  assumes "i < length slots"
    and "read_steps slot < read_steps (slots ! i) \<or> read_steps slot = read_steps (slots ! i) \<and>
      read_lag lo lr slot < read_lag lo lr (slots ! i)"
  shows "(reads_work lo lr (slots[i := slot]), reads_work lo lr slots) \<in> fewer"
  unfolding reads_work_def by (rule sums_fewer [OF assms])

locale patient_reads =
  fixes ops :: "('t, 'f, 'e) read_file" and lag_open lag_read :: "'f \<Rightarrow> nat"
  assumes open_lag: "rf_poll_open ops cx f = (Pending, f') \<Longrightarrow> lag_open f' < lag_open f"
    and read_lag: "rf_poll_read ops cx f t = (Pending, f', t') \<Longrightarrow> lag_read f' < lag_read f"
begin

abbreviation work :: "('t, 'f, 'e, 'a) reader \<Rightarrow> nat \<times> nat" where
  "work s \<equiv> reads_work lag_open lag_read (r_files s)"

abbreviation less_work :: "'f read_slot \<Rightarrow> 'f read_slot \<Rightarrow> bool" where
  "less_work slot slot' \<equiv> read_steps slot < read_steps slot' \<or> read_steps slot = read_steps slot' \<and>
     read_lag lag_open lag_read slot < read_lag lag_open lag_read slot'"

lemma poll_opening_work:
  assumes "rs_poll_opening ops cx i remaining s = (Ok moved, remaining', s')"
    and "s_state (r_files s ! i) = ROpening" "s_retries (r_files s ! i) = max_retries (r_config s)"
  shows "\<exists>slot. r_files s' = (r_files s)[i := slot] \<and> less_work slot (r_files s ! i)"
proof -
  let ?slot = "r_files s ! i"
  obtain res f where o: "rf_poll_open ops cx (s_file ?slot) = (res, f)" by fastforce
  note step = assms(1) [unfolded rs_poll_opening_def Let_def o prod.case]
  show ?thesis
  proof (cases res)
    case Pending
    with step have "r_files s' = (r_files s)[i := ?slot\<lparr>s_file := f, s_blocked := True\<rparr>]" by auto
    moreover have "lag_open f < lag_open (s_file ?slot)" using open_lag o Pending by blast
    ultimately show ?thesis using assms(2) by (auto simp: read_steps_def read_lag_def)
  next
    case (Ready r)
    then obtain u where "r = Ok u" using step assms(3) by (cases r) auto
    with step Ready have "r_files s' = (r_files s)[i := ?slot\<lparr>s_file := f, s_state := RReading\<rparr>]" by auto
    with assms(2) show ?thesis by (auto simp: read_steps_def)
  qed
qed

lemma poll_reading_work:
  assumes p: "rs_poll_reading ops mk cx i remaining s = (Ok moved, remaining', s')"
    and state: "s_state (r_files s ! i) = RReading" and more: "s_received (r_files s ! i) < s_count (r_files s ! i)"
  shows "(\<exists>slot. r_files s' = (r_files s)[i := slot] \<and> less_work slot (r_files s ! i)) \<or>
    slot_waits s (r_files s ! i) \<and> s' = s \<and> \<not> moved \<and> remaining' = remaining"
proof -
  let ?slot = "r_files s ! i"
  let ?off = "unat (s_start ?slot + ucast (s_received ?slot) - r_emitted s)"
  let ?cell = "r_frames s ! ?off"
  have neq: "s_received ?slot \<noteq> s_count ?slot" using more by auto
  show ?thesis
  proof (cases "length (r_frames s) \<le> ?off")
    case True
    with p neq state show ?thesis by (simp add: rs_poll_reading_def Let_def slot_waits_def)
  next
    case False
    obtain frame recycled factory where b: "rs_buffer mk ?cell (r_recycled s) (r_factory s) = (frame, recycled, factory)"
      by (metis prod_cases3)
    obtain res f t where r: "rf_poll_read ops cx (s_file ?slot) frame = (res, f, t)" by (metis prod_cases3)
    have step: "(case res of
        Pending \<Rightarrow> r_files s' = (r_files s)[i := ?slot\<lparr>s_file := f, s_blocked := True\<rparr>]
      | Ready (Ok (Some u)) \<Rightarrow> \<exists>b. r_files s' = (r_files s)[i := ?slot\<lparr>s_file := f,
          s_received := u32_saturating_inc (s_received ?slot), s_blocked := b\<rparr>]
      | _ \<Rightarrow> False)"
      using p False neq
      by (auto simp: rs_poll_reading_def Let_def b r split: if_splits poll.splits result.splits option.splits)
    show ?thesis
    proof (cases res)
      case Pending
      have "lag_read f < lag_read (s_file ?slot)" using read_lag r Pending by blast
      with step Pending state neq show ?thesis
        by (intro disjI1 exI [of _ "?slot\<lparr>s_file := f, s_blocked := True\<rparr>"])
          (simp add: read_steps_def Read_Progress.read_lag_def)
    next
      case (Ready x)
      with step obtain b where "r_files s' = (r_files s)[i := ?slot\<lparr>s_file := f,
          s_received := u32_saturating_inc (s_received ?slot), s_blocked := b\<rparr>]"
        by (cases x) (auto split: option.splits)
      moreover have "unat (s_received ?slot) < unat (s_count ?slot)"
        using more by (simp add: word_less_nat_alt)
      ultimately show ?thesis using state more
        by (intro disjI1 exI [of _ "?slot\<lparr>s_file := f,
          s_received := u32_saturating_inc (s_received ?slot), s_blocked := b\<rparr>"])
          (simp add: read_steps_def diff_less_mono2)
    qed
  qed
qed

lemma poll_file_work:
  assumes p: "rs_poll_file ops mk cx i remaining s = (Ok moved, remaining', s')"
    and i: "i < length (r_files s)" and inv: "rs_inv s" and limit: "max_retries (r_config s) = 0"
  shows "(work s', work s) \<in> fewer \<or>
    \<not> moved \<and> remaining' = remaining \<and> same_work s s' \<and>
    (blocked_done (r_files s) \<longrightarrow> slot_idle s (r_files s ! i))"
proof -
  let ?slot = "r_files s ! i"
  have retries: "s_retries ?slot = max_retries (r_config s)"
    using rs_inv_retries [OF inv i] limit by simp
  obtain pos where "slot_ok pos ?slot" using layout_slot_ok inv i by (metis nth_mem rs_inv_def)
  then have received: "s_received ?slot \<le> s_count ?slot" by (simp add: slot_ok_def word_le_nat_alt)
  consider (blocked) "s_blocked ?slot" | (opens) "\<not> s_blocked ?slot" "s_state ?slot = ROpening"
    | (all) "\<not> s_blocked ?slot" "s_state ?slot = RReading" "s_received ?slot = s_count ?slot"
    | (reading) "\<not> s_blocked ?slot" "s_state ?slot = RReading" "s_received ?slot < s_count ?slot"
    using received by (cases "s_state ?slot") (auto simp: order_less_le)
  then show ?thesis
  proof cases
    case blocked
    with p i show ?thesis
      by (auto simp: rs_poll_file_def same_work_def slot_idle_def blocked_done_def)
  next
    case opens
    with p i have "rs_poll_opening ops cx i remaining s = (Ok moved, remaining', s')"
      by (simp add: rs_poll_file_def)
    from poll_opening_work [OF this opens(2) retries] reads_work_update [OF i] show ?thesis by auto
  next
    case all
    then have "\<not> moved \<and> remaining' = remaining \<and> s' = s\<lparr>r_files := (r_files s)[i := ?slot\<lparr>s_blocked := True\<rparr>]\<rparr>"
      using p i by (auto simp: rs_poll_file_def rs_poll_reading_def Let_def)
    moreover have "unblocked ((r_files s)[i := ?slot\<lparr>s_blocked := True\<rparr>]) = unblocked (r_files s)"
      using i by (simp add: unblocked_def map_update list_update_same_conv)
    moreover have "blocked_done ((r_files s)[i := ?slot\<lparr>s_blocked := True\<rparr>])" if "blocked_done (r_files s)"
      using that all(3) set_update_subset_insert [of "r_files s" i "?slot\<lparr>s_blocked := True\<rparr>"]
      by (auto simp: blocked_done_def)
    ultimately show ?thesis using all(3) by (simp add: same_work_def slot_idle_def)
  next
    case reading
    with p i have "rs_poll_reading ops mk cx i remaining s = (Ok moved, remaining', s')"
      by (simp add: rs_poll_file_def)
    from poll_reading_work [OF this reading(2,3)] reads_work_update [OF i] show ?thesis
      by (auto simp: same_work_def slot_idle_def)
  qed
qed

lemma work_invariant:
  "poll_invariant ops mk cx
     (\<lambda>s. (work s = w \<or> (work s, w) \<in> fewer) \<and> max_retries (r_config s) = 0) (\<lambda>_. True)"
  unfolding poll_invariant_def
proof (intro conjI allI impI)
  fix s :: "('t, 'f, 'e, 'a) reader" and i remaining res remaining' s'
  assume a: "((work s = w \<or> (work s, w) \<in> fewer) \<and> max_retries (r_config s) = 0) \<and> rs_inv s \<and>
    i < length (r_files s) \<and> rs_poll_file ops mk cx i remaining s = (res, remaining', s')"
  then have p: "rs_poll_file ops mk cx i remaining s = (res, remaining', s')" by simp
  show "if \<exists>e. res = Err e then True
    else (work s' = w \<or> (work s', w) \<in> fewer) \<and> max_retries (r_config s') = 0"
  proof (cases res)
    case (Ok moved)
    from poll_file_work [OF p [unfolded Ok]] a
    have "work s' = work s \<or> (work s', work s) \<in> fewer"
      using unblocked_work [of "r_files s'" "r_files s"] by (auto simp: same_work_def)
    with a rs_poll_file_frame [OF p] Ok show ?thesis by (auto intro: fewer_trans)
  qed simp
qed (auto simp: rs_authorize_def Let_def)

text \<open>A pass decreases the work, or every file that it visits is idle.\<close>

lemma same_work_trans: "same_work s s' \<Longrightarrow> same_work s' s'' \<Longrightarrow> same_work s s''"
  by (simp add: same_work_def)

lemma pass_work:
  assumes "rs_pass ops mk cx n count progressed remaining s = (pr, s')" and "\<And>e. pr \<noteq> PassError e"
    and "rs_inv s" "count = length (r_files s)" "0 < count" "max_retries (r_config s) = 0"
    and "blocked_done (r_files s)" "0 < remaining"
  shows "(work s', work s) \<in> fewer \<or> pr = PassDone progressed remaining \<and> same_work s s' \<and>
    (\<forall>k < n. slot_idle s (r_files s ! ((r_cursor s + k) mod count)))"
  using assms
proof (induction n arbitrary: progressed remaining s)
  case 0
  then show ?case by (simp add: same_work_def)
next
  case (Suc n)
  let ?i = "r_cursor s mod count"
  let ?s = "s\<lparr>r_cursor := (?i + 1) mod count\<rparr>"
  obtain res rem1 s1 where p: "rs_poll_file ops mk cx ?i remaining ?s = (res, rem1, s1)"
    by (metis prod_cases3)
  have i: "?i < length (r_files ?s)" using Suc.prems(4,5) by simp
  have inv: "rs_inv ?s" using Suc.prems(3) by simp
  have limit: "max_retries (r_config ?s) = 0" using Suc.prems(6) by simp
  note fr = rs_poll_file_frame [OF p]
  have inv1: "rs_inv s1"
    using rs_poll_file_moves [OF inv i p, of "\<lambda>_ _. True" "\<lambda>_. []"] by (simp add: rs_moves_def)
  obtain moved where res: "res = Ok moved"
    using Suc.prems(1,2) p by (cases res) (auto simp: Let_def)
  note polled = poll_file_work [OF p [unfolded res] i inv limit]
  show ?case
  proof (cases "rem1 = 0")
    case True
    with polled Suc.prems(1,8) p res show ?thesis by (auto simp: Let_def split: if_splits)
  next
    case False
    have r: "rs_pass ops mk cx n count (progressed \<or> moved) rem1 s1 = (pr, s')"
      using Suc.prems(1) p res False by (simp add: Let_def)
    show ?thesis
    proof (cases "(work s1, work ?s) \<in> fewer")
      case True
      have "if \<exists>e. pr = PassError e then True
        else (work s' = work s1 \<or> (work s', work s1) \<in> fewer) \<and> max_retries (r_config s') = 0"
        by (rule rs_pass_invariant [OF r work_invariant])
          (use inv1 fr limit Suc.prems(4,5) in simp_all)
      with True Suc.prems(2) show ?thesis by (auto intro: fewer_trans)
    next
      case same: False
      have sw: "\<not> moved" "rem1 = remaining" "same_work s s1" "slot_idle s (r_files s ! ?i)" "blocked_done (r_files s1)"
        using polled same Suc.prems(7) by (simp_all add: same_work_def slot_idle_def slot_waits_def)
      have w: "work s1 = work s" using sw(3) by (intro unblocked_work) (simp add: same_work_def)
      have len: "count = length (r_files s1)" using fr Suc.prems(4) by simp
      from Suc.IH [OF r Suc.prems(2) inv1 len Suc.prems(5) _ sw(5)] fr Suc.prems(6,8) sw(1,2) w
      have "(work s', work s) \<in> fewer \<or> pr = PassDone progressed remaining \<and> same_work s1 s' \<and>
          (\<forall>k < n. slot_idle s1 (r_files s1 ! ((r_cursor s1 + k) mod count)))" by simp
      moreover have "slot_idle s (r_files s ! ((r_cursor s + k) mod count))"
        if "\<forall>k < n. slot_idle s1 (r_files s1 ! ((r_cursor s1 + k) mod count))" "k < Suc n" for k
      proof (cases k)
        case 0
        with sw(4) show ?thesis by simp
      next
        case (Suc j)
        have "(r_cursor s1 + j) mod count = (r_cursor s + k) mod count"
          using fr Suc by (simp add: mod_simps)
        with that Suc same_work_idle [OF sw(3), of "(r_cursor s + k) mod count"] Suc.prems(4,5)
        show ?thesis by auto
      qed
      ultimately show ?thesis using same_work_trans [OF sw(3)] by blast
    qed
  qed
qed

lemma loop_work:
  fixes s s' :: "('t, 'f, 'e, 'a) reader"
  assumes "rs_loop ops mk cx remaining s = (Ok (), s')"
    and "rs_inv s" "\<not> r_terminated s" "r_files s \<noteq> []" "max_retries (r_config s) = 0"
    and "blocked_done (r_files s)" "0 < remaining" "rs_full s"
  shows "(work s', work s) \<in> fewer \<or> same_work s s' \<and> (\<forall>slot \<in> set (r_files s). slot_idle s slot)"
proof -
  let ?n = "length (r_files s)"
  obtain pr s1 where p: "rs_pass ops mk cx ?n ?n False remaining s = (pr, s1)" by fastforce
  have n: "0 < ?n" using assms(4) by simp
  note step = assms(1) [unfolded rs_loop.simps [of _ _ _ remaining]]
  have no: "pr \<noteq> PassError e" for e using step p assms(4) by auto
  have m: "rs_moves False (\<lambda>_. [] :: 't list) (\<lambda>_ _. True) s s1"
    using rs_pass_moves [OF p assms(2) refl n] by (auto intro: rs_moves_weaken)
  have s1: "rs_inv s1" "\<not> r_terminated s1" "r_files s1 \<noteq> []" "max_retries (r_config s1) = 0"
    using m assms(3-5) by (auto simp: rs_moves_def)
  let ?s2 = "rs_authorize s1"
  have s2: "rs_inv ?s2" "\<not> r_terminated ?s2" "r_files ?s2 \<noteq> []" "max_retries (r_config ?s2) = 0"
    using rs_authorize_moves [OF s1(1,2), of False "\<lambda>_. []" "\<lambda>_ _. True"] s1
    by (auto simp: rs_moves_def)
  have files: "r_files ?s2 = r_files s1" by (simp add: rs_authorize_def Let_def)
  from pass_work [OF p no assms(2) refl n assms(5-7)] show ?thesis
  proof
    assume less: "(work s1, work s) \<in> fewer"
    have "work s' = work s1 \<or> (work s', work s1) \<in> fewer"
    proof (cases "\<exists>remaining'. pr = PassDone True remaining'")
      case True
      then obtain remaining' where r: "rs_loop ops mk cx remaining' ?s2 = (Ok (), s')"
        using step p assms(4) s1(3) by (auto simp: Let_def rs_retire_inv [OF s1(1)])
      from rs_loop_invariant [OF r work_invariant [of mk cx "work s1"] _ s2(1-3)] s2(4) files
      show ?thesis by simp
    next
      case False
      with step p no assms(4) s1(3) have "s' = s1 \<or> s' = ?s2"
        by (cases pr) (auto simp: Let_def rs_retire_inv [OF s1(1)] split: if_splits)
      with files show ?thesis by auto
    qed
    with less show ?thesis by (auto intro: fewer_trans)
  next
    assume same: "pr = PassDone False remaining \<and> same_work s s1 \<and>
      (\<forall>k < ?n. slot_idle s (r_files s ! ((r_cursor s + k) mod ?n)))"
    have "rs_full s1"
      using rs_pass_frame [OF p refl n, of "\<lambda>_ _. True"] assms(8)
      by (simp add: rs_full_def read_registers_def blocked_ok_def)
    then have "s' = s1"
      using step p same assms(4) s1(3) by (simp add: Let_def rs_retire_inv [OF s1(1)] rs_authorize_full)
    moreover have "slot_idle s (r_files s ! i)" if i: "i < ?n" for i
      using rotation_covers [OF n i] same by metis
    ultimately show ?thesis using same by (metis in_set_conv_nth)
  qed
qed

text \<open>A pending \<open>poll_read\<close> on files, when nobody else wants the budget.\<close>

lemma poll_progress_work:
  fixes s s' :: "('t, 'f, 'e, 'a) reader"
  assumes p: "rs_poll_progress ops mk cx s = s'" and inv: "rs_inv s" and limit: "max_retries (r_config s) = 0"
    and error: "r_error s' = None"
  shows "work s' = work s \<or> (work s', work s) \<in> fewer"
  using p inv
proof (cases rule: rs_poll_progress_cases)
  case empty
  then show ?thesis by (simp add: rs_shrink_to_sel)
next
  case driven
  show ?thesis
    using inv driven(1)
  proof (cases rule: rs_drive_loop [of _ ops mk cx])
    case (1 s0)
    have s0: "rs_inv s0" "\<not> r_terminated s0" "r_files s0 \<noteq> []" "max_retries (r_config s0) = 0"
      using 1(2) driven(1,2) inv limit by (auto simp: rs_moves_def)
    have "work s0 = work s" by (rule unblocked_work) (simp add: 1(5) unblocked_def comp_def)
    moreover have l: "rs_loop ops mk cx (max max_poll_ops (length (r_files s))) s0 = (Ok (), s')"
      using driven(3) 1(1) by simp
    note rs_loop_invariant [OF l work_invariant [of mk cx "work s0"] _ s0(1-3)]
    ultimately show ?thesis using s0(4) by simp
  qed
next
  case (failed e s1)
  with error show ?thesis by (simp add: rs_fail_sel)
qed simp

lemma poll_read_work:
  fixes s s' :: "('t, 'f, 'e, 'a) reader"
  assumes p: "rs_poll_read ops mk cx output s = (Pending, out, s')" and inv: "rs_inv s"
    and limit: "max_retries (r_config s) = 0" and files: "r_files s \<noteq> []"
    and ok: "client_ok n (r_permit s) (r_budget s) caps" and alone: "alone (r_permit s) (r_budget s)"
    and n: "0 < n"
  shows "(work s', work s) \<in> fewer"
proof -
  from p inv have s': "s' = rs_poll_progress ops mk cx s" "\<not> r_terminated s'" "r_error s' = None"
    "r_frames s' \<noteq> [] \<Longrightarrow> \<not> c_complete (hd (r_frames s'))"
    by (cases rule: rs_poll_read_cases; simp)+
  from s'(1) [symmetric] inv show ?thesis
  proof (cases rule: rs_poll_progress_cases)
    case terminated
    with s'(2) show ?thesis by simp
  next
    case empty
    with files show ?thesis by simp
  next
    case (failed e s1)
    with s'(3) show ?thesis by (simp add: rs_fail_sel)
  next
    case driven
    show ?thesis
      using inv driven(1)
    proof (cases rule: rs_drive_loop [of _ ops mk cx])
      case (1 s0)
      have s0: "rs_inv s0" "\<not> r_terminated s0" "r_files s0 \<noteq> []" "max_retries (r_config s0) = 0"
        using 1(2) driven(1,2) inv limit by (auto simp: rs_moves_def)
      have w: "work s0 = work s" by (rule unblocked_work) (simp add: 1(5) unblocked_def comp_def)
      have l: "rs_loop ops mk cx (max max_poll_ops (length (r_files s))) s0 = (Ok (), s')"
        using driven(3) 1(1) by simp
      have "blocked_done (r_files s0)" using 1(6) by (simp add: blocked_done_def)
      from loop_work [OF l s0 this _ 1(3)] have cases: "(work s', work s0) \<in> fewer \<or>
          same_work s0 s' \<and> (\<forall>slot \<in> set (r_files s0). slot_idle s0 slot)"
        by (simp add: max_poll_ops_def)
      moreover have False if same: "same_work s0 s'" "\<forall>slot \<in> set (r_files s0). slot_idle s0 slot"
      proof -
        have run: "permit_run (r_permit s, r_budget s) (r_permit s0, r_budget s0)"
          using 1(2) by (simp add: rs_moves_def)
        have "\<not> req_waiting (b_requests (r_budget s0) (p_request (r_permit s0)))"
          by (rule alone_not_waiting [OF client_run [OF ok run] alone_run [OF run alone]])
        then have cap: "0 < p_capacity (r_permit s0)"
          using 1(10) client_capacity(2) [OF ok] n by auto
        obtain slot slots where f: "r_files s0 = slot # slots" using s0(3) by (cases "r_files s0") auto
        have "slot_ok (r_emitted s0) slot" using s0(1) f by (simp add: rs_inv_def)
        then have "0 < span (r_emitted s0) (r_files s0)" using slot_ok_facts(2) f by force
        moreover have "0 < min (p_capacity (r_permit s0)) (target_frames (window (r_config s0)))"
          using cap s0(1) by (simp add: rs_inv_def valid_window_def)
        ultimately have "r_frames s0 \<noteq> []"
          using 1(3) by (auto simp: rs_full_def rs_inv_distance [OF s0(1,2)])
        then obtain cell cells where c: "r_frames s0 = cell # cells" "\<not> c_complete cell"
          using s'(4) same(1) by (cases "r_frames s0") (auto simp: same_work_def)
        from rs_head_not_waiting [OF s0(1) f c] same(2) f show False by (auto simp: slot_idle_def)
      qed
      ultimately show ?thesis using w by metis
    qed
  qed
qed

end

lemma patient_reads_iff:
  "patient_reads ops lag_open lag_read \<longleftrightarrow> patient_read ops lag_open lag_read"
  unfolding patient_reads_def patient_read_def by meson

end
