(* ===== verification/Segment_Progress.thy ===== *)
theory Segment_Progress
  imports Segment_Contract Write_Progress Read_Progress
begin

text \<open>
  Segments are patient when tokio is prompt: when its timers, its openings and its file operations
  are pending only so many times in a row, and a file operation never more than a fixed number of
  times. Then each operation of a segment is pending only so many times in a row too.
\<close>

definition prompt_files ::
    "('h, 'o, 'd, 'e) tokio \<Rightarrow> ('o \<Rightarrow> nat) \<Rightarrow> ('h \<Rightarrow> nat) \<Rightarrow> ('d \<Rightarrow> nat) \<Rightarrow> nat \<Rightarrow> bool" where
  "prompt_files tk opening_lag file_lag sleep_lag bound \<longleftrightarrow>
     (\<forall>cx f f'. tk_poll_opened tk cx f = (Pending, f') \<longrightarrow> opening_lag f' < opening_lag f) \<and>
     (\<forall>cx d d'. tk_poll_sleep tk cx d = (Pending, d') \<longrightarrow> sleep_lag d' < sleep_lag d) \<and>
     (\<forall>cx h bytes h'. tk_poll_write tk cx h bytes = (Pending, h') \<longrightarrow> file_lag h' < file_lag h) \<and>
     (\<forall>cx h h'. tk_poll_flush tk cx h = (Pending, h') \<longrightarrow> file_lag h' < file_lag h) \<and>
     (\<forall>cx h room h'. tk_poll_read tk cx h room = (Pending, h') \<longrightarrow> file_lag h' < file_lag h) \<and>
     (\<forall>h. file_lag h \<le> bound)"

text \<open>
  The other half of what \<open>Future::poll\<close> promises: an operation that is pending has taken the waker of
  the poll, and will wake it.
\<close>

definition waking_files :: "('h, 'o, 'd, 'e) tokio \<Rightarrow> bool" where
  "waking_files tk \<longleftrightarrow>
     (\<forall>cx f f'. tk_poll_opened tk cx f = (Pending, f') \<longrightarrow> tk_opened_wakes tk cx f') \<and>
     (\<forall>cx d d'. tk_poll_sleep tk cx d = (Pending, d') \<longrightarrow> tk_sleep_wakes tk cx d') \<and>
     (\<forall>cx h bytes h'. tk_poll_write tk cx h bytes = (Pending, h') \<longrightarrow> tk_file_wakes tk cx h') \<and>
     (\<forall>cx h h'. tk_poll_flush tk cx h = (Pending, h') \<longrightarrow> tk_file_wakes tk cx h') \<and>
     (\<forall>cx h room h'. tk_poll_read tk cx h room = (Pending, h') \<longrightarrow> tk_file_wakes tk cx h')"

lemma waking_filesD:
  assumes "waking_files tk"
  shows "tk_poll_opened tk cx f = (Pending, f') \<Longrightarrow> tk_opened_wakes tk cx f'"
    "tk_poll_sleep tk cx d = (Pending, d') \<Longrightarrow> tk_sleep_wakes tk cx d'"
    "tk_poll_write tk cx h bytes = (Pending, h') \<Longrightarrow> tk_file_wakes tk cx h'"
    "tk_poll_flush tk cx h = (Pending, h') \<Longrightarrow> tk_file_wakes tk cx h'"
    "tk_poll_read tk cx h room = (Pending, h') \<Longrightarrow> tk_file_wakes tk cx h'"
  using assms unfolding waking_files_def by blast+

text \<open>So a segment that is pending will wake the task.\<close>

lemma opening_poll_wakes:
  assumes "waking_files tk" "opening_poll tk cx f = (Pending, f')" "sg_opening s = Some f'"
  shows "segment_wakes tk cx s"
  using assms(2,3)
  by (cases f) (auto simp: segment_wakes_def dest: waking_filesD [OF assms(1)] split: prod.splits poll.splits)

lemma open_file_wakes:
  assumes wk: "waking_files tk" and p: "segment_poll_open_file tk writing cx s = (Pending, s')"
  shows "segment_wakes tk cx s'"
proof -
  obtain f f' where "opening_poll tk cx f = (Pending, f')" "sg_opening s' = Some f'"
    using p by (auto simp: segment_poll_open_file_def Let_def
        split: option.splits poll.splits result.splits prod.splits)
  then show ?thesis by (rule opening_poll_wakes [OF wk])
qed

lemma write_loop_wakes:
  assumes "waking_files tk" "segment_write_loop tk cx frame h offset = (Pending, h', offset')"
  shows "tk_file_wakes tk cx h'"
  using assms(2)
proof (induction "length frame - offset" arbitrary: h offset rule: less_induct)
  case less
  note step = less.prems [unfolded segment_write_loop.simps [of tk cx frame h offset]]
  then have lt: "offset < length frame" by (simp split: if_splits)
  obtain r g where w: "tk_poll_write tk cx h (drop offset frame) = (r, g)" by fastforce
  show ?case
  proof (cases r)
    case Pending
    with step lt w waking_filesD(3) [OF assms(1), of cx h "drop offset frame" g] show ?thesis by simp
  next
    case (Ready x)
    then obtain n where n: "n \<noteq> 0" "segment_write_loop tk cx frame g (offset + n) = (Pending, h', offset')"
      using step lt w by (cases x) (auto simp: size_checked_add_def split: if_splits option.splits)
    have "length frame - (offset + n) < length frame - offset" using lt n(1) by simp
    from less.hyps [OF this n(2)] show ?thesis .
  qed
qed

lemma read_loop_wakes:
  assumes "waking_files tk" "segment_read_loop tk block cx frame h offset = (Pending, h', offset', frame')"
  shows "tk_file_wakes tk cx h'"
  using assms(2)
proof (induction "block - offset" arbitrary: h offset frame rule: less_induct)
  case less
  note step = less.prems [unfolded segment_read_loop.simps [of tk block cx frame h offset]]
  then have lt: "offset < block" by (simp split: if_splits)
  obtain r g where w: "tk_poll_read tk cx h (length frame - offset) = (r, g)" by fastforce
  show ?case
  proof (cases r)
    case Pending
    with step lt w waking_filesD(5) [OF assms(1), of cx h "length frame - offset" g]
    show ?thesis by (simp split: if_splits)
  next
    case (Ready x)
    then obtain bytes where n: "bytes \<noteq> []"
      "segment_read_loop tk block cx (frame_store offset bytes frame) g (offset + length bytes) =
        (Pending, h', offset', frame')"
      using step lt w by (cases x) (auto simp: size_checked_add_def split: if_splits option.splits)
    have "block - (offset + length bytes) < block - offset" using lt n(1) by (simp add: diff_less_mono2)
    from less.hyps [OF this n(2)] show ?thesis .
  qed
qed

lemma segment_registers:
  assumes wk: "waking_files tk"
  shows "write_registers (segment_write_ops tk) (segment_wakes tk)"
    "read_registers (segment_read_ops tk block) (segment_wakes tk)"
proof -
  have wr: "segment_wakes tk cx s'" if "segment_poll_write tk cx s frame = (Pending, s')" for cx s frame s'
    using that write_loop_wakes [OF wk]
    by (auto simp: segment_poll_write_def segment_wakes_def split: option.splits prod.splits)
  have rd: "segment_wakes tk cx s'" if "segment_poll_read tk block cx s frame = (Pending, s', frame')"
    for cx s frame s' frame'
    using that read_loop_wakes [OF wk]
    by (auto simp: segment_poll_read_def segment_wakes_def Let_def split: option.splits prod.splits)
  have cl: "segment_wakes tk cx s'" if "segment_poll_close tk cx s = (Pending, s')" for cx s s'
    using that waking_filesD(2,4) [OF wk]
    by (auto simp: segment_poll_close_def segment_wakes_def Let_def
        split: option.splits prod.splits poll.splits result.splits)
  show "write_registers (segment_write_ops tk) (segment_wakes tk)"
    "read_registers (segment_read_ops tk block) (segment_wakes tk)"
    using open_file_wakes [OF wk] wr rd cl
    by (auto simp: write_registers_def read_registers_def segment_write_ops_def segment_read_ops_def)
qed

fun opening_file_lag ::
    "('h, 'o, 'd, 'e) tokio \<Rightarrow> ('o \<Rightarrow> nat) \<Rightarrow> ('d \<Rightarrow> nat) \<Rightarrow> ('o, 'd) opening_file \<Rightarrow> nat" where
  "opening_file_lag tk opening_lag sleep_lag (Underway f) = opening_lag f"
| "opening_file_lag tk opening_lag sleep_lag (Delayed d writing path) =
     sleep_lag d + opening_lag (if writing then tk_create tk path else tk_open tk path) + 1"

definition segment_open_lag ::
    "('h, 'o, 'd, 'e) tokio \<Rightarrow> ('o \<Rightarrow> nat) \<Rightarrow> ('d \<Rightarrow> nat) \<Rightarrow> bool \<Rightarrow> ('h, 'o, 'd) segment \<Rightarrow> nat" where
  "segment_open_lag tk opening_lag sleep_lag writing s =
     (case sg_opening s of
        Some opening \<Rightarrow> opening_file_lag tk opening_lag sleep_lag opening
      | None \<Rightarrow> Suc (opening_file_lag tk opening_lag sleep_lag
          (Delayed (tk_sleep tk (if writing then 1000 else 500)) writing (sg_path s))))"

text \<open>A frame with \<open>left\<close> bytes to go: every byte may be preceded by \<open>bound\<close> pending operations.\<close>

definition bytes_lag :: "('h \<Rightarrow> nat) \<Rightarrow> nat \<Rightarrow> ('h, 'o, 'd) segment \<Rightarrow> nat \<Rightarrow> nat" where
  "bytes_lag file_lag bound s left =
     left * Suc bound + (case sg_file s of None \<Rightarrow> 0 | Some h \<Rightarrow> file_lag h)"

definition segment_write_lag :: "('h \<Rightarrow> nat) \<Rightarrow> nat \<Rightarrow> ('h, 'o, 'd) segment \<Rightarrow> u8 list \<Rightarrow> nat" where
  "segment_write_lag file_lag bound s frame = bytes_lag file_lag bound s (length frame - sg_offset s)"

definition segment_read_lag :: "('h \<Rightarrow> nat) \<Rightarrow> nat \<Rightarrow> nat \<Rightarrow> ('h, 'o, 'd) segment \<Rightarrow> nat" where
  "segment_read_lag file_lag bound block s = bytes_lag file_lag bound s (block - sg_offset s)"

definition segment_close_lag ::
    "('h, 'o, 'd, 'e) tokio \<Rightarrow> ('h \<Rightarrow> nat) \<Rightarrow> ('d \<Rightarrow> nat) \<Rightarrow> nat \<Rightarrow> ('h, 'o, 'd) segment \<Rightarrow> nat" where
  "segment_close_lag tk file_lag sleep_lag bound s = bytes_lag file_lag bound s
     (case sg_finalize_delay s of None \<Rightarrow> Suc (sleep_lag (tk_sleep tk 2000)) | Some d \<Rightarrow> sleep_lag d)"

locale prompt =
  fixes tk :: "('h, 'o, 'd, 'e) tokio" and opening_lag :: "'o \<Rightarrow> nat" and file_lag :: "'h \<Rightarrow> nat"
    and sleep_lag :: "'d \<Rightarrow> nat" and bound :: nat
  assumes opened_lag: "tk_poll_opened tk cx f = (Pending, f') \<Longrightarrow> opening_lag f' < opening_lag f"
    and slept_lag: "tk_poll_sleep tk cx d = (Pending, d') \<Longrightarrow> sleep_lag d' < sleep_lag d"
    and written_lag: "tk_poll_write tk cx h bytes = (Pending, h') \<Longrightarrow> file_lag h' < file_lag h"
    and flushed_lag: "tk_poll_flush tk cx h = (Pending, h') \<Longrightarrow> file_lag h' < file_lag h"
    and read_lag: "tk_poll_read tk cx h room = (Pending, h') \<Longrightarrow> file_lag h' < file_lag h"
    and file_lag: "file_lag h \<le> bound"
begin

lemma opening_poll_lag:
  "opening_poll tk cx f = (Pending, f') \<Longrightarrow>
     opening_file_lag tk opening_lag sleep_lag f' < opening_file_lag tk opening_lag sleep_lag f"
  by (cases f) (auto dest: opened_lag slept_lag split: prod.splits poll.splits if_splits)

lemma open_file_lag:
  assumes "segment_poll_open_file tk writing cx s = (Pending, s')"
  shows "segment_open_lag tk opening_lag sleep_lag writing s' <
    segment_open_lag tk opening_lag sleep_lag writing s"
proof -
  obtain f where f: "sg_opening (segment_start tk writing s) = Some f"
    "opening_file_lag tk opening_lag sleep_lag f \<le> segment_open_lag tk opening_lag sleep_lag writing s"
    by (cases "sg_opening s") (auto simp: segment_start_def segment_open_lag_def)
  obtain r f' where p: "opening_poll tk cx f = (r, f')" by fastforce
  have "r = Pending" "sg_opening s' = Some f'"
    using assms f(1) p by (auto simp: segment_poll_open_file_def Let_def split: poll.splits result.splits)
  with opening_poll_lag [of cx f f'] p f(2) show ?thesis by (simp add: segment_open_lag_def)
qed

lemma more_bytes:
  assumes "left' < left"
  shows "left' * Suc bound + file_lag h' < left * Suc bound + x"
proof -
  have "left' * Suc bound + file_lag h' < Suc left' * Suc bound" using file_lag [of h'] by simp
  also have "\<dots> \<le> left * Suc bound" using assms by (intro mult_le_mono1) simp
  finally show ?thesis by simp
qed

lemma write_loop_lag:
  assumes "segment_write_loop tk cx frame h offset = (Pending, h', offset')"
  shows "(length frame - offset') * Suc bound + file_lag h' < (length frame - offset) * Suc bound + file_lag h"
  using assms
proof (induction "length frame - offset" arbitrary: h offset rule: less_induct)
  case less
  note step = less.prems [unfolded segment_write_loop.simps [of tk cx frame h offset]]
  then have lt: "offset < length frame" by (simp split: if_splits)
  obtain r g where w: "tk_poll_write tk cx h (drop offset frame) = (r, g)" by fastforce
  show ?case
  proof (cases r)
    case Pending
    with step lt w written_lag [of cx h "drop offset frame" g] show ?thesis by simp
  next
    case (Ready x)
    then obtain n where n: "r = Ready (Ok n)" "n \<noteq> 0"
      "segment_write_loop tk cx frame g (offset + n) = (Pending, h', offset')"
      using step lt w by (cases x) (auto simp: size_checked_add_def split: if_splits option.splits)
    have less': "length frame - (offset + n) < length frame - offset" using lt n(2) by simp
    from less.hyps [OF less' n(3)] more_bytes [OF less', of g "file_lag h"] show ?thesis by linarith
  qed
qed

lemma read_loop_lag:
  assumes "segment_read_loop tk block cx frame h offset = (Pending, h', offset', frame')"
  shows "(block - offset') * Suc bound + file_lag h' < (block - offset) * Suc bound + file_lag h"
  using assms
proof (induction "block - offset" arbitrary: h offset frame rule: less_induct)
  case less
  note step = less.prems [unfolded segment_read_loop.simps [of tk block cx frame h offset]]
  then have lt: "offset < block" by (simp split: if_splits)
  obtain r g where w: "tk_poll_read tk cx h (length frame - offset) = (r, g)" by fastforce
  show ?case
  proof (cases r)
    case Pending
    with step lt w read_lag [of cx h "length frame - offset" g] show ?thesis by (simp split: if_splits)
  next
    case (Ready x)
    then obtain bytes where n: "r = Ready (Ok bytes)" "bytes \<noteq> []"
      "segment_read_loop tk block cx (frame_store offset bytes frame) g (offset + length bytes) =
        (Pending, h', offset', frame')"
      using step lt w by (cases x) (auto simp: size_checked_add_def split: if_splits option.splits)
    have less': "block - (offset + length bytes) < block - offset"
      using lt n(2) by (simp add: diff_less_mono2)
    from less.hyps [OF less' n(3)] more_bytes [OF less', of g "file_lag h"] show ?thesis by linarith
  qed
qed

lemma poll_write_lag:
  assumes "segment_poll_write tk cx s frame = (Pending, s')"
  shows "segment_write_lag file_lag bound s' frame < segment_write_lag file_lag bound s frame"
  using assms write_loop_lag
  by (auto simp: segment_poll_write_def segment_write_lag_def bytes_lag_def split: option.splits prod.splits)

lemma poll_read_lag:
  assumes "segment_poll_read tk block cx s frame = (Pending, s', frame')"
  shows "segment_read_lag file_lag bound block s' < segment_read_lag file_lag bound block s"
  using assms read_loop_lag
  by (auto simp: segment_poll_read_def Let_def segment_read_lag_def bytes_lag_def split: option.splits prod.splits)

lemma poll_close_lag:
  assumes "segment_poll_close tk cx s = (Pending, s')"
  shows "segment_close_lag tk file_lag sleep_lag bound s' < segment_close_lag tk file_lag sleep_lag bound s"
proof -
  obtain h where h: "sg_file s = Some h"
    using assms by (auto simp: segment_poll_close_def split: option.splits)
  obtain r g where f: "tk_poll_flush tk cx h = (r, g)" by fastforce
  let ?d = "case sg_finalize_delay s of Some d \<Rightarrow> d | None \<Rightarrow> tk_sleep tk 2000"
  let ?left = "\<lambda>s. case sg_finalize_delay s of None \<Rightarrow> Suc (sleep_lag (tk_sleep tk 2000)) | Some d \<Rightarrow> sleep_lag d"
  consider "r = Pending" "s' = s\<lparr>sg_file := Some g\<rparr>"
    | d where "tk_poll_sleep tk cx ?d = (Pending, d)"
        "s' = s\<lparr>sg_file := Some g, sg_finalize_delay := Some d\<rparr>"
    using assms h f
    by (auto simp: segment_poll_close_def Let_def split: poll.splits result.splits prod.splits)
  then show ?thesis
  proof cases
    case 1
    with flushed_lag [of cx h g] f h show ?thesis by (simp add: segment_close_lag_def bytes_lag_def)
  next
    case (2 d)
    have "sleep_lag d < ?left s" using slept_lag [OF 2(1)] by (cases "sg_finalize_delay s") auto
    from more_bytes [OF this, of g "file_lag h"] 2(2) h show ?thesis
      by (simp add: segment_close_lag_def bytes_lag_def)
  qed
qed

end

sublocale prompt \<subseteq> segment: patient "segment_write_ops tk" "segment_open_lag tk opening_lag sleep_lag True"
    "segment_write_lag file_lag bound" "segment_close_lag tk file_lag sleep_lag bound"
  by unfold_locales (simp_all add: segment_write_ops_def open_file_lag poll_write_lag poll_close_lag)

sublocale prompt \<subseteq> segment_reads: patient_reads "segment_read_ops tk block"
    "segment_open_lag tk opening_lag sleep_lag False" "segment_read_lag file_lag bound block" for block
  by unfold_locales (simp_all add: segment_read_ops_def open_file_lag poll_read_lag)

context prompt begin

lemma segment_patient_reads:
  "patient_reads (segment_read_ops tk block) (segment_open_lag tk opening_lag sleep_lag False)
     (segment_read_lag file_lag bound block)"
  by (rule segment_reads.patient_reads_axioms)

lemma segment_patient:
  "patient (segment_write_ops tk) (segment_open_lag tk opening_lag sleep_lag True)
     (segment_write_lag file_lag bound) (segment_close_lag tk file_lag sleep_lag bound)"
  by (rule segment.patient_axioms)

end

lemma prompt_iff:
  "prompt tk opening_lag file_lag sleep_lag bound \<longleftrightarrow>
     prompt_files tk opening_lag file_lag sleep_lag bound"
  unfolding prompt_def prompt_files_def by meson

end
