(* ===== verification/Tcp_Upload.thy ===== *)
theory Tcp_Upload
  imports Async_Rules Segment_Progress Write_Properties
begin

text \<open>
  The upload of the TCP example: what it stores is what the socket sends, in full segments with
  paths in order, and it returns when the socket and the files are prompt and wake the task. The
  proofs follow the calls of the code; each state of an upload is one of a run of the write scheduler.
\<close>

section \<open>The socket\<close>

text \<open>
  The documentation of \<open>AsyncRead::poll_read\<close> for a socket: \<open>rest s\<close> is what the peer has yet to send
  before it closes the connection. A read that is ready takes the next bytes, and none only at the
  end or without room.
\<close>

definition received_stream :: "('s, 'w, 'e) socket \<Rightarrow> ('s \<Rightarrow> u8 list) \<Rightarrow> bool" where
  "received_stream so rest \<longleftrightarrow>
     (\<forall>cx s room s'. so_poll_read so cx s room = (Pending, s') \<longrightarrow> rest s' = rest s) \<and>
     (\<forall>cx s room bytes s'. so_poll_read so cx s room = (Ready (Ok bytes), s') \<longrightarrow>
        length bytes \<le> room \<and> rest s = bytes @ rest s' \<and> (bytes \<noteq> [] \<or> room = 0 \<or> rest s = []))"

definition prompt_receiver :: "('s, 'w, 'e) socket \<Rightarrow> ('s \<Rightarrow> nat) \<Rightarrow> bool" where
  "prompt_receiver so lag \<longleftrightarrow>
     (\<forall>cx s room s'. so_poll_read so cx s room = (Pending, s') \<longrightarrow> lag s' < lag s)"

definition waking_receiver :: "('s, 'w, 'e) socket \<Rightarrow> bool" where
  "waking_receiver so \<longleftrightarrow>
     (\<forall>cx s room s'. so_poll_read so cx s room = (Pending, s') \<longrightarrow> so_wakes so cx s')"

section \<open>The shape of blocks\<close>

definition block_allocator :: "nat \<Rightarrow> bytes_allocator \<Rightarrow> bool" where
  "block_allocator block a \<longleftrightarrow> ba_frame_size a = block"

definition block_partial :: "nat \<Rightarrow> bytes_partial \<Rightarrow> bool" where
  "block_partial block p \<longleftrightarrow> bp_frame_size p = block \<and> length (bp_bytes p) \<le> block"

definition block_piece :: "nat \<Rightarrow> u8 list \<Rightarrow> bool" where
  "block_piece block frame \<longleftrightarrow> frame \<noteq> [] \<and> length frame \<le> block"

definition block_whole :: "nat \<Rightarrow> u8 list \<Rightarrow> bool" where
  "block_whole block frame \<longleftrightarrow> length frame = block"

definition bytes_taken :: "nat \<Rightarrow> u8 list \<Rightarrow> u8 list" where
  "bytes_taken count input = take count input"

lemmas block_defs = block_allocator_def block_partial_def block_piece_def block_whole_def

lemma block_shape:
  "frame_shape bytes_allocator_ops bytes_partial_ops (block_allocator block) (block_partial block)
     (block_piece block) (block_whole block)"
  by (auto simp: frame_shape_def bytes_defs Let_def block_defs min_def)

lemma bytes_contract: "frame_contract bytes_partial_ops bp_bytes (\<lambda>frame. frame) bytes_taken"
  using bytes.contract by (simp add: bytes_taken_def [abs_def])

lemma bytes_registers: "input_registers bytes_partial_ops (\<lambda>cx p input. False)"
  by (simp add: input_registers_def bytes_partial_ops_def bytes_poll_fill_def Let_def)

lemma bytes_fill_ready: "fst (pf_poll_fill bytes_partial_ops cx p input) \<noteq> Pending"
  by (simp add: bytes_partial_ops_def bytes_poll_fill_def Let_def)

text \<open>The zeros that fill the last block up.\<close>

definition padding :: "nat \<Rightarrow> u8 list \<Rightarrow> u8 list" where
  "padding block input =
     (if length input mod block = 0 then [] else replicate (block - length input mod block) 0)"

section \<open>States of an upload\<close>

definition new_segments :: "geometry \<Rightarrow> string \<Rightarrow> nat \<Rightarrow> ('h, 'o, 'd) segment list" where
  "new_segments g directory n =
     map (\<lambda>i. segment_new (segment_path directory (of_nat i)) (g_frames_per_file g)) [0..<n]"

type_synonym ('h, 'o, 'd, 'e) upload_event =
  "(u8 list, nat, ('h, 'o, 'd) segment, string, 'e io_error, unit) write_event"

definition upload_run ::
    "('h, 'o, 'd, 'e) tokio \<Rightarrow> geometry \<Rightarrow> ('h, 'o, 'd, 'e) upload_event list
      \<Rightarrow> (u8 list, ('h, 'o, 'd) segment, string, bytes_allocator, bytes_partial) writer \<Rightarrow> bool" where
  "upload_run tk g evs writer \<longleftrightarrow>
     ws_run (segment_write_ops tk) bytes_allocator_ops bytes_partial_ops (g_frames g)
       \<lparr>ba_frame_size = g_block g\<rparr> evs (writer, \<lambda>_. 0)"

text \<open>
  \<open>fed\<close> is the input that the writer has consumed, \<open>sk\<close> the socket. While it is written to, the writer
  has a full queue.
\<close>

definition upload_ok ::
    "('h, 'o, 'd, 'e) tokio \<Rightarrow> geometry \<Rightarrow> string \<Rightarrow> 's \<Rightarrow> u8 list \<Rightarrow> ('h, 'o, 'd, 's) uploader \<Rightarrow> bool" where
  "upload_ok tk g directory sk fed up \<longleftrightarrow>
     (\<exists>evs. upload_run tk g evs (up_writer up) \<and> consumed_inputs bytes_taken evs = fed \<and>
        accepted_destinations evs = new_segments g directory (unat (up_next up)) \<and>
        returned_results evs = up_written up) \<and>
     alone (ww_permit (up_writer up)) (ww_budget (up_writer up)) \<and>
     max_retries (ww_config (up_writer up)) = 0 \<and> up_meta up = [] \<and> up_socket up = sk"

definition uploading ::
    "('h, 'o, 'd, 'e) tokio \<Rightarrow> geometry \<Rightarrow> string \<Rightarrow> 's \<Rightarrow> u8 list \<Rightarrow> ('h, 'o, 'd, 's) uploader \<Rightarrow> bool" where
  "uploading tk g directory sk fed up \<longleftrightarrow> upload_ok tk g directory sk fed up \<and>
     ww_phase (up_writer up) = PhaseWriting \<and> length (ww_files (up_writer up)) = g_files g \<and>
     max_active_files (window (ww_config (up_writer up))) = g_files g"

text \<open>Whose waker is next plays no role in it.\<close>

lemma upload_ok_waker [simp]:
  "upload_ok tk g directory sk fed (up_waker_update f up) = upload_ok tk g directory sk fed up"
  "uploading tk g directory sk fed (up_waker_update f up) = uploading tk g directory sk fed up"
  by (simp_all add: upload_ok_def uploading_def)

definition busy_files :: "('h, 'o, 'd, 's) uploader \<Rightarrow> nat" where
  "busy_files up = length (filter (\<lambda>n. n \<noteq> 0) (map w_assigned (ww_files (up_writer up))))"

lemma busy_files_waker [simp]: "busy_files (up_waker_update f up) = busy_files up"
  by (simp add: busy_files_def)

lemma upload_task_sel [simp]:
  "ta_waker (upload_task tk so) = up_waker" "ta_polled (upload_task tk so) = up_waker_update Suc"
  by (simp_all add: upload_task_def)

lemma upload_ok_state:
  assumes "upload_ok tk g directory sk fed up"
  shows "ws_inv (up_writer up)"
    "client_ok (g_frames g) (ww_permit (up_writer up)) (ww_budget (up_writer up)) (\<lambda>_. 0)"
    "max_retries (ww_config (up_writer up)) = 0"
proof -
  obtain evs where "upload_run tk g evs (up_writer up)" using assms by (auto simp: upload_ok_def)
  from ws_run_state [OF this [unfolded upload_run_def]] show "ws_inv (up_writer up)"
    "client_ok (g_frames g) (ww_permit (up_writer up)) (ww_budget (up_writer up)) (\<lambda>_. 0)"
    by (simp_all add: write_state_def)
  show "max_retries (ww_config (up_writer up)) = 0" using assms by (simp add: upload_ok_def)
qed

text \<open>A step of the writer.\<close>

lemma upload_ok_step:
  fixes ev :: "('h, 'o, 'd, 'e) upload_event"
  assumes ok: "upload_ok tk g directory sk fed up"
    and st: "ws_step (segment_write_ops tk) bytes_allocator_ops bytes_partial_ops
      (up_writer up, \<lambda>_. 0) ev (up_writer up', \<lambda>_. 0)"
    and ev: "\<And>e. ev \<noteq> WOther e" "consumed_input bytes_taken ev = more'" "returned_result ev = written"
      "new_segments g directory (unat (up_next up)) @ accepted_destination ev =
        new_segments g directory (unat (up_next up'))"
    and up': "up_written up' = up_written up @ written"
      "up_meta up' = up_meta up" "up_socket up' = sk'"
  shows "upload_ok tk g directory sk' (fed @ more') up'"
proof -
  obtain evs where evs: "upload_run tk g evs (up_writer up)" "consumed_inputs bytes_taken evs = fed"
    "accepted_destinations evs = new_segments g directory (unat (up_next up))"
    "returned_results evs = up_written up"
    using ok by (auto simp: upload_ok_def)
  have "upload_run tk g (evs @ [ev]) (up_writer up')"
    using evs(1) st unfolding upload_run_def by (rule stepped)
  moreover have "ws_safe (up_writer up) (up_writer up')"
    using ws_step_safe [OF st upload_ok_state(1) [OF ok]] ev(1) by blast
  then have "alone (ww_permit (up_writer up')) (ww_budget (up_writer up'))"
    "max_retries (ww_config (up_writer up')) = 0"
    using ok alone_run by (auto simp: ws_safe_def upload_ok_def)
  ultimately show ?thesis
    using ok evs(2-4) ev(2-4) up' unfolding upload_ok_def
    by (intro conjI exI [of _ "evs @ [ev]"]) simp_all
qed

section \<open>The loops of the upload\<close>

text \<open>
  What an upload relies on: the files of tokio and the socket behave as documented and, where \<open>T\<close>
  holds, are prompt and wake the task that waits for them.
\<close>

locale upload_env = output_files tk creating names data disk
  for tk :: "('h, 'o, 'd, 'e) tokio" and creating :: "'o \<Rightarrow> string \<Rightarrow> bool"
    and names :: "'h \<Rightarrow> string" and data :: "'h \<Rightarrow> u8 list" and disk :: "'h \<Rightarrow> string \<Rightarrow> u8 list" +
  fixes so :: "('s, 'w, 'e) socket" and rest :: "'s \<Rightarrow> u8 list" and T :: bool
    and opening_lag :: "'o \<Rightarrow> nat" and file_lag :: "'h \<Rightarrow> nat" and sleep_lag :: "'d \<Rightarrow> nat"
    and bound :: nat and socket_lag :: "'s \<Rightarrow> nat"
  assumes stream: "received_stream so rest"
    and prompt_tokio: "T \<Longrightarrow> prompt_files tk opening_lag file_lag sleep_lag bound"
    and prompt_socket: "T \<Longrightarrow> prompt_receiver so socket_lag"
    and waking_tokio: "T \<Longrightarrow> waking_files tk" and waking_socket: "T \<Longrightarrow> waking_receiver so"
begin

definition upload_work :: "('h, 'o, 'd, 's) uploader \<Rightarrow> nat \<times> nat" where
  "upload_work up = slots_work (segment_open_lag tk opening_lag sleep_lag True)
     (segment_write_lag file_lag bound) (segment_close_lag tk file_lag sleep_lag bound)
     (ww_files (up_writer up))"

lemma upload_work_waker [simp]: "upload_work (up_waker_update f up) = upload_work up"
  by (simp add: upload_work_def)

lemma segments_patient:
  "T \<Longrightarrow> patient (segment_write_ops tk) (segment_open_lag tk opening_lag sleep_lag True)
     (segment_write_lag file_lag bound) (segment_close_lag tk file_lag sleep_lag bound)"
  using prompt_tokio [folded prompt_iff] by (rule prompt.segment_patient)

lemma upload_pipeline:
  "write_pipeline (segment_write_ops tk) (segment_rep creating names data) [] (@) (segment_committed disk)
     bytes_allocator_ops bytes_partial_ops bp_bytes (\<lambda>frame. frame) bytes_taken
     (block_allocator block) (block_partial block) (block_piece block) (block_whole block)"
  by (simp add: write_pipeline_iff segment_contract bytes_contract block_shape)

abbreviation order ::
    "nat \<Rightarrow> nat list \<Rightarrow> (('h, 'o, 'd) segment \<times> string) list \<Rightarrow> u8 list \<Rightarrow> u8 list list
      \<Rightarrow> (u8 list, ('h, 'o, 'd) segment, string, bytes_allocator, bytes_partial) writer \<Rightarrow> bool" where
  "order block \<equiv> write_order (segment_rep creating names data) [] (@) (segment_committed disk)
     (bytes_partial_ops :: (bytes_partial, u8 list, nat, u8 list, unit) partial_frame)
     bp_bytes (\<lambda>frame. frame) (block_allocator block) (block_partial block) (block_piece block)
     (block_whole block)"

lemma upload_order:
  assumes "upload_ok tk g directory sk fed up" "ww_phase (up_writer up) \<noteq> PhaseFailed"
  shows "\<exists>cs results frames. order (g_block g) cs results fed frames (up_writer up)"
proof -
  obtain evs where evs: "upload_run tk g evs (up_writer up)" "consumed_inputs bytes_taken evs = fed"
    "accepted_destinations evs = new_segments g directory (unat (up_next up))"
    using assms(1) by (auto simp: upload_ok_def)
  have "\<forall>f \<in> set (accepted_destinations evs). segment_rep creating names data f Unopened"
    by (auto simp: evs(3) new_segments_def segment_new_def)
  moreover have "block_allocator (g_block g) \<lparr>ba_frame_size = g_block g\<rparr>"
    by (simp add: block_allocator_def)
  ultimately have "\<exists>frames. order (g_block g) (capacities (segment_write_ops tk) evs) (returned_results evs)
      (consumed_inputs bytes_taken evs) frames (up_writer up)"
    using run_write_order [OF evs(1) [unfolded upload_run_def] segment_contract bytes_contract _ assms(2)
        block_shape [of "g_block g"]] by blast
  then show ?thesis using evs(2) by blast
qed

text \<open>The writer in a poll of \<open>poll_write\<close>, by what the poll reports.\<close>

lemma writer_poll:
  fixes res :: "(nat write_status, (unit, 'e io_error) write_error) result poll"
  assumes w: "ws_poll_write (segment_write_ops tk) bytes_allocator_ops bytes_partial_ops cx bytes s =
      (res, input', s')"
    and inv: "ws_inv s" and ph: "ww_phase s = PhaseWriting"
    and len: "max_active_files (window (ww_config s)) = length (ww_files s)"
    and ord: "order block cs results fed frames s"
  shows "(\<exists>e. res = Ready (Err e)) \<or>
    ww_config s' = ww_config s \<and> ww_phase s' = PhaseWriting \<and> length (ww_files s') = length (ww_files s) \<and>
    (case res of
       Ready (Ok status) \<Rightarrow>
         (case ws_output status of
            None \<Rightarrow> map w_assigned (ww_files s') = map w_assigned (ww_files s) \<and> 0 < ws_completed_files status
          | Some c \<Rightarrow> c \<le> length bytes \<and> (bytes \<noteq> [] \<longrightarrow> 0 < c))
     | _ \<Rightarrow> map w_assigned (ww_files s') = map w_assigned (ww_files s))"
  using w inv
proof (cases rule: ws_poll_write_cases [where rep = "segment_rep creating names data" and init = "[]"
      and add = "(@)" and committed = "segment_committed disk"])
  case (filled s1 s2)
  note pipe = upload_pipeline [of block]
  have "order block cs results fed frames (s\<lparr>ww_waker := None\<rparr>)"
    by (rule write_order_moves [OF ord]) simp_all
  from write_pipeline.order_started [OF pipe write_pipeline.order_drive [OF pipe this filled(3)] filled(4)]
  have room: "length (bp_bytes q) < bp_frame_size q" if "ww_partial s2 = Some q" for q
    using that by (auto simp: write_order_def Let_def block_partial_def bytes_partial_ops_def bytes_is_complete_def)
  have same: "ww_config s2 = ww_config s" "map w_assigned (ww_files s2) = map w_assigned (ww_files s)"
    "length (ww_files s2) = length (ww_files s)"
    using filled(3,4) ws_moves_length [OF filled(3)] by (simp_all add: ws_moves_def ws_started_def)
  from filled(5,7,8) show ?thesis
  proof (cases rule: ws_fill_cases)
    case none
    note fr = ws_reports_frame [OF none(2)]
    from none(2) have "res = Pending \<or> res = Ready (Ok (ws_status None s2)) \<and> 0 < completed_files (ww_files s2)"
      unfolding ws_reports_def using same len by (cases rule: ws_report_cases) auto
    with fr same filled(8) show ?thesis by (auto simp: ws_status_def)
  next
    case (pending q q')
    then show ?thesis by (simp add: bytes_partial_ops_def bytes_poll_fill_def Let_def)
  next
    case (stored q out q')
    then have "out = min (bp_frame_size q - length (bp_bytes q)) (length bytes)"
      by (auto simp: bytes_partial_ops_def bytes_poll_fill_def Let_def)
    with stored room [OF stored(1)] same filled(8) show ?thesis by (auto simp: ws_status_def)
  next
    case (flushed q out q')
    then have "out = min (bp_frame_size q - length (bp_bytes q)) (length bytes)"
      by (auto simp: bytes_partial_ops_def bytes_poll_fill_def Let_def)
    moreover have "ws_inv (s2\<lparr>ww_partial := Some q'\<rparr>)" by (rule ws_partial_inv [OF filled(7) flushed(1)])
    note fl = ws_flush_inv [OF flushed(5) this]
    moreover have "length (ww_files s') = length (ww_files s2)"
      using fl(6) filled(8) by (auto dest: map_eq_imp_length_eq)
    ultimately show ?thesis using flushed room [OF flushed(1)] same filled(8) by (auto simp: ws_status_def)
  qed simp
qed (use ph in simp_all)

text \<open>
  A writer that is pending has woken the task, or waits for a file: its permit is the only one, so
  that no request waits in the budget.
\<close>

lemma writer_woken:
  assumes T "upload_ok tk g directory sk fed up'"
    and "p_capacity (ww_permit (up_writer up')) \<le> b_total (ww_budget (up_writer up')) \<Longrightarrow>
      ws_woken cx s (up_writer up') \<or>
      (\<exists>slot \<in> set (ww_files (up_writer up')). segment_wakes tk cx (w_file slot)) \<or>
      ws_queued cx (up_writer up')"
  shows "ta_woken (upload_task tk so) cx up'"
proof -
  note st = upload_ok_state [OF assms(2)]
  have "alone (ww_permit (up_writer up')) (ww_budget (up_writer up'))"
    using assms(2) by (simp add: upload_ok_def)
  then have "\<not> ws_queued cx (up_writer up')"
    using alone_not_waiting [OF st(2)] by (simp add: ws_queued_def)
  with assms(3) client_capacity(1,2) [OF st(2)] show ?thesis
    by (auto simp: upload_task_def ws_woken_def list_ex_iff)
qed

text \<open>A poll of the writer while it is written to.\<close>

lemma upload_poll:
  assumes up: "uploading tk g directory sk fed up" and p: "upload_poll_write tk bytes cx up = (res, up')"
  shows "case res of
      Pending \<Rightarrow> uploading tk g directory sk fed up' \<and> busy_files up' = busy_files up \<and>
        (T \<longrightarrow> ta_woken (upload_task tk so) cx up' \<and> (upload_work up', upload_work up) \<in> fewer)
    | Ready (Ok status) \<Rightarrow>
        (case ws_output status of
           None \<Rightarrow> uploading tk g directory sk fed up' \<and> busy_files up' = busy_files up \<and>
             0 < ws_completed_files status
         | Some c \<Rightarrow> uploading tk g directory sk (fed @ take c bytes) up' \<and> c \<le> length bytes \<and>
             (bytes \<noteq> [] \<longrightarrow> 0 < c))
    | Ready (Err e) \<Rightarrow> True"
proof -
  let ?s = "up_writer up"
  have ok: "upload_ok tk g directory sk fed up" and ph: "ww_phase ?s = PhaseWriting"
    and files: "length (ww_files ?s) = g_files g" "max_active_files (window (ww_config ?s)) = g_files g"
    using up by (simp_all add: uploading_def)
  note st = upload_ok_state [OF ok]
  obtain input' s' where w: "ws_poll_write (segment_write_ops tk) bytes_allocator_ops bytes_partial_ops
      cx bytes ?s = (res, input', s')" and up': "up' = up\<lparr>up_writer := s'\<rparr>"
    using p by (auto simp: upload_poll_write_def Let_def split: prod.splits)
  obtain cs results frames where ord: "order (g_block g) cs results fed frames ?s"
    using upload_order [OF ok] ph by auto
  have len: "max_active_files (window (ww_config ?s)) = length (ww_files ?s)" using files by simp
  show ?thesis
  proof (cases "\<exists>e. res = Ready (Err e)")
    case False
    from writer_poll [OF w st(1) ph len ord] this
    have 2: "ww_config s' = ww_config ?s" "ww_phase s' = PhaseWriting"
      "length (ww_files s') = length (ww_files ?s)"
      "case res of
       Ready (Ok status) \<Rightarrow>
         (case ws_output status of
            None \<Rightarrow> map w_assigned (ww_files s') = map w_assigned (ww_files ?s) \<and> 0 < ws_completed_files status
          | Some c \<Rightarrow> c \<le> length bytes \<and> (bytes \<noteq> [] \<longrightarrow> 0 < c))
     | _ \<Rightarrow> map w_assigned (ww_files s') = map w_assigned (ww_files ?s)"
      by blast+
    let ?ev = "WWrite cx bytes res input' :: ('h, 'o, 'd, 'e) upload_event"
    have st': "ws_step (segment_write_ops tk) bytes_allocator_ops bytes_partial_ops (?s, \<lambda>_. 0)
        ?ev (up_writer up', \<lambda>_. 0)"
      using ws_step.poll_write [OF w] by (simp add: up')
    have ok': "upload_ok tk g directory sk (fed @ more') up'"
      if "consumed_input bytes_taken ?ev = more'" for more'
      by (rule upload_ok_step [OF ok st' _ that, where written = "[]"])
        (use 2(1) ok in \<open>simp_all add: up' upload_ok_def\<close>)
    have go: "uploading tk g directory sk (fed @ more') up'"
      if "consumed_input bytes_taken ?ev = more'" for more'
      using ok' [OF that] 2(1-3) files by (simp add: uploading_def up')
    have work: "(upload_work up', upload_work up) \<in> fewer" if T "res = Pending"
    proof -
      have "alone (ww_permit ?s) (ww_budget ?s)" using ok by (simp add: upload_ok_def)
      from patient.poll_write_work [OF segments_patient [OF that(1)] w [unfolded that(2)] st(1,3)
          bytes_fill_ready st(2) this]
      show ?thesis by (simp add: upload_work_def up')
    qed
    have woken: "ta_woken (upload_task tk so) cx up'" if T "res = Pending"
      by (rule writer_woken [OF that(1) ok' [of "[]"]])
        (use ws_poll_write_pending [OF w [unfolded that(2)] st(1) segment_registers(1) [OF waking_tokio [OF that(1)]]
          bytes_registers] that(2) in \<open>auto simp: up'\<close>)
    have busy: "busy_files up' = busy_files up" if "map w_assigned (ww_files s') = map w_assigned (ww_files ?s)"
      using that by (simp add: busy_files_def up')
    show ?thesis
    proof (cases res)
      case Pending
      with 2(4) go [of "[]"] work woken busy show ?thesis by simp
    next
      case (Ready r)
      with False obtain status where r: "r = Ok status" by (cases r) auto
      show ?thesis
      proof (cases "ws_output status")
        case None
        with Ready r 2(4) go [of "[]"] busy show ?thesis by simp
      next
        case (Some c)
        with Ready r 2(4) go [of "take c bytes"] show ?thesis by (simp add: bytes_taken_def)
      qed
    qed
  qed auto
qed

end

section \<open>Replacing completed files\<close>

lemma next_segment_new:
  assumes "next_segment g directory next = Ok (f, next')"
  shows "new_segments g directory (unat next) @ [f] = new_segments g directory (unat next')"
proof -
  have "unat next' = Suc (unat next)" "f = segment_new (segment_path directory next) (g_frames_per_file g)"
    using assms
    by (auto simp: next_segment_def u64_checked_add_def usize_checked_add_def Let_def unat_of_nat
        unat_word_ariths split: option.splits if_splits)
  then show ?thesis by (simp add: new_segments_def)
qed

lemma swap_completed_uploading:
  fixes tk :: "('h, 'o, 'd, 'e) tokio"
  assumes "uploading tk g directory sk fed up" "swap_completed tk g directory n up = (Ok u, up')"
  shows "uploading tk g directory sk fed up' \<and> busy_files up' + n \<le> busy_files up"
  using assms
proof (induction n arbitrary: up)
  case 0
  then show ?case by simp
next
  case (Suc n)
  let ?s = "up_writer up"
  obtain f m where n: "next_segment g directory (up_next up) =
      (Ok (f, m) :: (('h, 'o, 'd) segment \<times> u64, 'e io_error) result)"
    using Suc.prems(2) by (auto split: result.splits prod.splits)
  obtain written s1 where sw: "ws_pop_swap (segment_write_ops tk) f ?s =
      (Ok written :: (('h, 'o, 'd) segment \<times> string, (unit, 'e io_error) write_error) result, s1)"
    using Suc.prems(2) n by (auto split: result.splits prod.splits)
  let ?up = "up\<lparr>up_next := m, up_writer := s1, up_written := up_written up @ [written]\<rparr>"
  have rest: "swap_completed tk g directory n ?up = (Ok u, up')"
    using Suc.prems(2) n sw by simp
  have ok: "upload_ok tk g directory sk fed up" and ph: "ww_phase ?s = PhaseWriting"
    and files: "length (ww_files ?s) = g_files g" "max_active_files (window (ww_config ?s)) = g_files g"
    using Suc.prems(1) by (simp_all add: uploading_def)
  from sw upload_ok_state(1) [OF ok]
  have "uploading tk g directory sk fed ?up \<and> Suc (busy_files ?up) = busy_files up"
  proof (cases rule: ws_pop_swap_cases)
    case (swapped slot rest out new)
    have "0 < w_capacity slot"
      using upload_ok_state(1) [OF ok] swapped(2) by (auto simp: ws_inv_defs Write_Invariant.slot_ok_def)
    then have busy: "Suc (busy_files ?up) = busy_files up"
      using swapped by (auto simp: busy_files_def)
    have "upload_ok tk g directory sk (fed @ []) ?up"
      by (rule upload_ok_step [OF ok, where ev = "WSwap f (Ok written)" and written = "[written]"])
        (use ws_step.pop_swap [OF sw] swapped next_segment_new [OF n] ok [unfolded upload_ok_def, THEN conjunct2] in simp_all)
    with busy swapped ph files show ?thesis by (auto simp: uploading_def)
  qed (use ph in simp_all)
  with Suc.IH [OF _ rest] show ?case by auto
qed

lemma admit_segments_uploading:
  fixes tk :: "('h, 'o, 'd, 'e) tokio"
  assumes "upload_ok tk g directory sk fed up"
    and "ww_phase (up_writer up) = PhaseWriting \<and> max_active_files (window (ww_config (up_writer up))) = g_files g"
    and "length (ww_files (up_writer up)) \<le> g_files g" "admit_segments tk g directory up = (Ok u, up')"
  shows "uploading tk g directory sk fed up'"
  using assms
proof (induction tk g directory up rule: admit_segments.induct)
  case (1 tk g directory up)
  let ?s = "up_writer up"
  note step = "1.prems"(4) [unfolded admit_segments.simps [of tk g directory up]]
  note st = upload_ok_state [OF "1.prems"(1)]
  show ?case
  proof (cases "ws_accept_file ?s")
    case False
    with step "1.prems"(1-3) show ?thesis
      by (auto simp: uploading_def ws_accept_file_def)
  next
    case True
    obtain f m where n: "next_segment g directory (up_next up) =
        (Ok (f, m) :: (('h, 'o, 'd) segment \<times> u64, 'e io_error) result)"
      using step True by (auto split: result.splits prod.splits)
    obtain s1 where pu: "ws_push_file (segment_write_ops tk) f ?s =
        (Ok () :: (unit, (unit, 'e io_error) write_error) result, s1)"
      using step True n by (auto split: result.splits prod.splits)
    let ?up = "up\<lparr>up_next := m, up_writer := s1\<rparr>"
    have rest: "admit_segments tk g directory ?up = (Ok u, up')" using step True n pu by simp
    from pu st(1) have "upload_ok tk g directory sk fed ?up \<and>
        (ww_phase s1 = PhaseWriting \<and> max_active_files (window (ww_config s1)) = g_files g) \<and>
        length (ww_files s1) \<le> g_files g"
    proof (cases rule: ws_push_file_cases)
      case accepted
      have "upload_ok tk g directory sk (fed @ []) ?up"
        by (rule upload_ok_step [OF "1.prems"(1), where ev = "WPush f (Ok ())" and written = "[]"])
          (use ws_step.push [OF pu] accepted next_segment_new [OF n]
            "1.prems"(1) [unfolded upload_ok_def, THEN conjunct2] in simp_all)
      with accepted "1.prems"(2) show ?thesis by simp
    qed simp_all
    with "1.IH" [OF _ n refl pu [symmetric] refl _ _ _ rest] True show ?thesis by simp
  qed
qed

section \<open>Writing bytes\<close>

context upload_env begin

lemma write_bytes_uploading:
  fixes up :: "('h, 'o, 'd, 's) uploader"
  assumes "uploading tk g directory sk fed up" and "x = (length bytes, busy_files up)"
  shows "achieves T (write_bytes tk so g directory bytes up)
    (\<lambda>res up'. \<forall>u. res = Ok u \<longrightarrow> uploading tk g directory sk (fed @ bytes) up')"
  using assms
proof (induction x arbitrary: bytes up fed rule: wf_induct_rule [OF wf_fewer])
  case (1 x)
  let ?Q = "\<lambda>res up'. \<forall>u. res = Ok u \<longrightarrow> uploading tk g directory sk (fed @ bytes) up'"
  show ?case
  proof (cases "bytes = []")
    case True
    with 1(2) show ?thesis by (simp add: write_bytes.simps)
  next
    case False
    let ?rest = "\<lambda>status up. try_then (Some (swap_completed tk g directory (ws_completed_files status) up)) (\<lambda>_ up.
      case ws_output status of
        None \<Rightarrow> write_bytes tk so g directory bytes up
      | Some consumed \<Rightarrow>
          if length bytes < consumed
          then Some (Err (Io (Other ''invalid input consumption'')), up)
          else write_bytes tk so g directory (drop consumed bytes) up)"
    have "achieves T (try_then (await_result (upload_task tk so) OtherWrite (upload_poll_write tk bytes) up) ?rest) ?Q"
    proof (rule achieves_try [THEN iffD2], rule achieves_await_result [where
          I = "\<lambda>up'. uploading tk g directory sk fed up' \<and> busy_files up' = busy_files up"
          and R = "inv_image fewer upload_work"])
      fix up1 up2
      assume "uploading tk g directory sk fed up1 \<and> busy_files up1 = busy_files up"
        and "upload_poll_write tk bytes (ta_waker (upload_task tk so) up1) up1 = (Pending, up2)"
      with upload_poll [of g directory sk fed up1 bytes "up_waker up1" Pending up2]
      show "(uploading tk g directory sk fed (ta_polled (upload_task tk so) up2) \<and>
            busy_files (ta_polled (upload_task tk so) up2) = busy_files up) \<and>
          (T \<longrightarrow> ta_woken (upload_task tk so) (ta_waker (upload_task tk so) up1) up2 \<and>
            (ta_polled (upload_task tk so) up2, up1) \<in> inv_image fewer upload_work)"
        by simp
    next
      fix up1 r up2'
      assume up1: "uploading tk g directory sk fed up1 \<and> busy_files up1 = busy_files up"
        and p: "upload_poll_write tk bytes (ta_waker (upload_task tk so) up1) up1 = (Ready r, up2')"
      let ?up2 = "ta_polled (upload_task tk so) up2'"
      note polled = upload_poll [OF up1 [THEN conjunct1] p]
      show "case map_err OtherWrite r of Ok a \<Rightarrow> achieves T (?rest a ?up2) ?Q | Err e \<Rightarrow> ?Q (Err e) ?up2"
      proof (cases r)
        case (Ok status)
        obtain res up3 where sw: "swap_completed tk g directory (ws_completed_files status) ?up2 = (res, up3)"
          by fastforce
        show ?thesis
        proof (cases res)
          case (Err e)
          with Ok sw show ?thesis by simp
        next
          case swapped: (Ok u)
          note swap = swap_completed_uploading [OF _ sw [unfolded swapped]]
          show ?thesis
          proof (cases "ws_output status")
            case None
            with polled Ok swap [of sk fed] up1
            have "uploading tk g directory sk fed up3" "busy_files up3 < busy_files up" by auto
            with 1(1) [OF _ _ refl, of bytes up3 fed] 1(3) Ok sw swapped None show ?thesis by simp
          next
            case (Some c)
            with polled Ok swap [of sk "fed @ take c bytes"] False
            have "uploading tk g directory sk (fed @ take c bytes) up3" "c \<le> length bytes" "0 < c" by auto
            with 1(1) [OF _ _ refl, of "drop c bytes" up3 "fed @ take c bytes"] 1(3) Ok sw swapped Some False
            show ?thesis by simp
          qed
        qed
      qed simp
    qed (use 1(2) in \<open>simp_all add: wf_fewer\<close>)
    with False show ?thesis by (simp only: write_bytes.simps [of tk so g directory bytes up] if_False)
  qed
qed

lemma upload_ok_socket:
  "upload_ok tk g directory sk fed up \<Longrightarrow> upload_ok tk g directory sk' fed (up\<lparr>up_socket := sk'\<rparr>)"
  by (simp add: upload_ok_def)

text \<open>The loop over the socket consumes the whole input and counts it without overflow.\<close>

lemma upload_read_cases:
  assumes "upload_read so g cx up = (res, up')"
  shows "\<exists>sk'. so_poll_read so cx (up_socket up) (g_block g) = (res, sk') \<and> up' = up\<lparr>up_socket := sk'\<rparr>"
  using assms by (auto simp: upload_read_def Let_def split: prod.splits)

lemma upload_receive_uploading:
  fixes up :: "('h, 'o, 'd, 's) uploader"
  assumes "uploading tk g directory sk fed up" and "input = fed @ rest sk" and "unat received = length fed"
    and block: "0 < g_block g" "g_block g < 2 ^ 64"
  shows "achieves T (upload_receive tk so g directory received up)
    (\<lambda>res up'. \<forall>n. res = Ok n \<longrightarrow> unat n = length input \<and> (\<exists>sk'. uploading tk g directory sk' input up'))"
  using assms(1-3)
proof (induction "length (rest sk)" arbitrary: sk fed up received rule: less_induct)
  case less
  let ?Q = "\<lambda>(res :: (u64, 'e tcp_error) result) up'. \<forall>n. res = Ok n \<longrightarrow> unat n = length input \<and> (\<exists>sk'. uploading tk g directory sk' input up')"
  let ?I = "\<lambda>up'. uploading tk g directory (up_socket up') fed up' \<and> rest (up_socket up') = rest sk"
  let ?more = "\<lambda>bytes up. if bytes = [] then Some (Ok received, up)
       else case u64_checked_add received (of_nat (length bytes)) of
         None \<Rightarrow> Some (Err (Io (Other ''input size overflow'')), up)
       | Some received \<Rightarrow>
           if g_block g < length bytes
           then Some (Err (Io (Other ''invalid socket read length'')), up)
           else try_then (write_bytes tk so g directory bytes up) (\<lambda>_ up.
             upload_receive tk so g directory received up)"
  have "achieves T (try_then (await_result (upload_task tk so) Io (upload_read so g) up) ?more) ?Q"
  proof (rule achieves_try [THEN iffD2],
      rule achieves_await_result [where I = ?I and R = "measure (\<lambda>up. socket_lag (up_socket up))"])
    show "?I up" using less.prems(1) by (simp add: uploading_def upload_ok_def)
  next
    fix up1 up2
    assume up1: "?I up1" and p: "upload_read so g (ta_waker (upload_task tk so) up1) up1 = (Pending, up2)"
    then obtain sk' where r: "so_poll_read so (up_waker up1) (up_socket up1) (g_block g) = (Pending, sk')"
      "up2 = up1\<lparr>up_socket := sk'\<rparr>"
      using upload_read_cases [OF p [simplified upload_task_sel]] by blast
    then have "rest sk' = rest sk" using up1 stream by (auto simp: received_stream_def)
    moreover have "T \<Longrightarrow> ta_woken (upload_task tk so) (up_waker up1) up2"
      using r waking_socket by (auto simp: waking_receiver_def upload_task_def)
    moreover have "T \<Longrightarrow> socket_lag sk' < socket_lag (up_socket up1)"
      using r prompt_socket by (auto simp: prompt_receiver_def)
    ultimately show "?I (ta_polled (upload_task tk so) up2) \<and>
        (T \<longrightarrow> ta_woken (upload_task tk so) (ta_waker (upload_task tk so) up1) up2 \<and>
          (ta_polled (upload_task tk so) up2, up1) \<in> measure (\<lambda>up. socket_lag (up_socket up)))"
      using r up1 by (auto simp: uploading_def upload_ok_socket)
  next
    fix up1 r up2'
    assume up1: "?I up1" and p: "upload_read so g (ta_waker (upload_task tk so) up1) up1 = (Ready r, up2')"
    let ?up2 = "ta_polled (upload_task tk so) up2'"
    from up1 p obtain sk' where rd: "so_poll_read so (up_waker up1) (up_socket up1) (g_block g) = (Ready r, sk')"
      "up2' = up1\<lparr>up_socket := sk'\<rparr>"
      using upload_read_cases [OF p [simplified upload_task_sel]] by blast
    have up2: "uploading tk g directory sk' fed ?up2"
      using rd(2) up1 by (auto simp: uploading_def upload_ok_socket)
    show "case map_err Io r of Ok a \<Rightarrow> achieves T (?more a ?up2) ?Q | Err e \<Rightarrow> ?Q (Err e) ?up2"
    proof (cases r)
      case (Ok bytes)
      have read: "length bytes \<le> g_block g" "rest sk = bytes @ rest sk'" "bytes \<noteq> [] \<or> rest sk = []"
        using stream [unfolded received_stream_def] rd(1) Ok up1 block(1) by fastforce+
      show ?thesis
      proof (cases "bytes = []")
        case True
        with Ok up2 read less.prems(2,3) show ?thesis by auto
      next
        case some: False
        show ?thesis
        proof (cases "u64_checked_add received (of_nat (length bytes))")
          case None
          with Ok some show ?thesis by simp
        next
          case (Some received')
          have count: "unat received' = length (fed @ bytes)"
            using Some read(1) block(2) less.prems(3)
            by (auto simp: u64_checked_add_def usize_checked_add_def unat_of_nat unat_word_ariths split: if_splits)
          have ih: "uploading tk g directory sk' (fed @ bytes) up3 \<Longrightarrow>
              achieves T (upload_receive tk so g directory received' up3) ?Q" for up3
            by (rule less.hyps [of sk' "fed @ bytes" up3]) (use some read(2) less.prems(2) count in simp_all)
          have "achieves T (write_bytes tk so g directory bytes ?up2)
              (\<lambda>res up3. case res of Ok a \<Rightarrow> achieves T (upload_receive tk so g directory received' up3) ?Q
                | Err e \<Rightarrow> ?Q (Err e) up3)"
            by (rule achieves_mono [OF write_bytes_uploading [OF up2 refl]])
              (use ih in \<open>auto split: result.split\<close>)
          with Ok some Some show ?thesis by simp
        qed
      qed
    qed simp
  qed simp
  then show ?case by (simp only: upload_receive.simps [of tk so g directory received up])
qed

text \<open>Padding to a multiple of the block.\<close>

lemma upload_pad_uploading:
  fixes up :: "('h, 'o, 'd, 's) uploader"
  assumes "uploading tk g directory sk fed up" "unat received = length fed" "0 < g_block g"
  shows "achieves T (upload_pad tk so g directory received up)
    (\<lambda>res up'. \<forall>u. res = Ok u \<longrightarrow> uploading tk g directory sk (fed @ padding (g_block g) fed) up')"
proof (cases "length fed mod g_block g = 0")
  case True
  with assms show ?thesis by (simp add: upload_pad_def padding_def)
next
  case False
  with assms write_bytes_uploading [OF assms(1) refl] show ?thesis
    by (simp add: upload_pad_def padding_def Let_def)
qed

end

end
