(* ===== verification/Tcp_Stored.thy ===== *)
theory Tcp_Stored
  imports Tcp_Upload
begin

text \<open>
  The rest of \<open>upload\<close>: closing the writer, what the files hold then, and the whole function.
\<close>

section \<open>Closing\<close>

text \<open>\<open>poll_close\<close> has reported that nothing is left.\<close>

definition upload_closed ::
    "('h, 'o, 'd, 'e) tokio \<Rightarrow> geometry \<Rightarrow> string \<Rightarrow> u8 list \<Rightarrow> ('h, 'o, 'd, 's) uploader \<Rightarrow> bool" where
  "upload_closed tk g directory fed up \<longleftrightarrow>
     (\<exists>evs cx. upload_run tk g (evs @ [WClose cx (Ready (Ok 0))]) (up_writer up) \<and>
        consumed_inputs bytes_taken evs = fed \<and>
        accepted_destinations evs = new_segments g directory (unat (up_next up)) \<and>
        returned_results evs = up_written up) \<and> up_meta up = []"

lemma segment_labels: "keeps_label (segment_write_ops tk) sg_path (\<lambda>path. path)"
  unfolding keeps_label_def
  by (auto simp: segment_write_ops_def segment_poll_open_file_def segment_start_def segment_poll_write_def
      segment_poll_close_def Let_def split: option.splits prod.splits poll.splits result.splits)

lemma segment_paths [simp]:
  "map sg_path (new_segments g directory n) = map (\<lambda>i. segment_path directory (of_nat i)) [0..<n]"
  by (simp add: new_segments_def segment_new_def)

lemma written_bound:
  assumes "upload_ok tk g directory sk fed up"
  shows "length (up_written up) \<le> unat (up_next up)"
proof -
  obtain evs where evs: "upload_run tk g evs (up_writer up)"
    "accepted_destinations evs = new_segments g directory (unat (up_next up))"
    "returned_results evs = up_written up"
    using assms by (auto simp: upload_ok_def)
  from run_returned_labels [OF evs(1) [unfolded upload_run_def] segment_labels]
  have "map (sg_path \<circ> fst) (up_written up) =
      take (length (up_written up)) (map (\<lambda>i. segment_path directory (of_nat i)) [0..<unat (up_next up)])"
    by (simp add: evs(2,3))
  from arg_cong [OF this, of length] show ?thesis by simp
qed

lemma pop_completed_ok:
  fixes up :: "('h, 'o, 'd, 's) uploader"
  assumes "upload_ok tk g directory sk fed up" "pop_completed n up = (Ok u :: (unit, 'e tcp_error) result, up')"
  shows "upload_ok (tk :: ('h, 'o, 'd, 'e) tokio) g directory sk fed up' \<and>
    length (up_written up') = length (up_written up) + n \<and> up_next up' = up_next up"
  using assms
proof (induction n arbitrary: up)
  case 0
  then show ?case by simp
next
  case (Suc n)
  obtain written s1 where po: "ws_pop_file (up_writer up) =
      (Ok (Some written) :: ((('h, 'o, 'd) segment \<times> string) option, (unit, 'e io_error) write_error) result, s1)"
    using Suc.prems(2) by (auto split: result.splits prod.splits option.splits)
  let ?up = "up\<lparr>up_writer := s1, up_written := up_written up @ [written]\<rparr>"
  have rest: "pop_completed n ?up = (Ok u :: (unit, 'e tcp_error) result, up')"
    using Suc.prems(2) po by simp
  have "upload_ok tk g directory sk (fed @ []) ?up"
    by (intro upload_ok_step [OF Suc.prems(1), where ev = "WPop (Ok (Some written))" and written = "[written]"])
      (use ws_step.pop_file [OF po] Suc.prems(1) [unfolded upload_ok_def, THEN conjunct2] in simp_all)
  with Suc.IH [OF _ rest] show ?case by simp
qed

context upload_env begin

definition close_work :: "('h, 'o, 'd, 's) uploader \<Rightarrow> nat \<times> nat \<times> nat" where
  "close_work up = (if ww_phase (up_writer up) = PhaseWriting then 1 else 0, upload_work up)"

lemma upload_closed_waker [simp]:
  "upload_closed tk g directory fed (up_waker_update f up) = upload_closed tk g directory fed up"
  by (simp add: upload_closed_def)

lemma close_work_waker [simp]: "close_work (up_waker_update f up) = close_work up"
  by (simp add: close_work_def)

lemma poll_close_ok:
  fixes up :: "('h, 'o, 'd, 's) uploader"
  assumes ok: "upload_ok tk g directory sk fed up" and p: "upload_poll_close tk cx up = (res, up')"
  shows "case res of
      Pending \<Rightarrow> upload_ok tk g directory sk fed up' \<and> up_next up' = up_next up \<and>
        up_written up' = up_written up \<and>
        (T \<longrightarrow> ta_woken (upload_task tk so) cx up' \<and>
          (close_work up', close_work up) \<in> less_than <*lex*> fewer)
    | Ready (Ok n) \<Rightarrow> upload_ok tk g directory sk fed up' \<and> up_next up' = up_next up \<and>
        up_written up' = up_written up \<and> (n = 0 \<longrightarrow> upload_closed tk g directory fed up')
    | Ready (Err e) \<Rightarrow> True"
proof -
  let ?s = "up_writer up"
  let ?pf = "bytes_partial_ops :: (bytes_partial, u8 list, nat, u8 list, unit) partial_frame"
  note st = upload_ok_state [OF ok]
  obtain s' where c: "ws_poll_close (segment_write_ops tk) ?pf cx ?s = (res, s')"
    and up': "up' = up\<lparr>up_writer := s'\<rparr>"
    using p by (auto simp: upload_poll_close_def Let_def split: prod.splits)
  let ?ev = "WClose cx res :: ('h, 'o, 'd, 'e) upload_event"
  have step: "ws_step (segment_write_ops tk) bytes_allocator_ops ?pf (?s, \<lambda>_. 0) ?ev (up_writer up', \<lambda>_. 0)"
    using ws_step.poll_close [OF c] by (simp add: up')
  have ok': "upload_ok tk g directory sk fed up'"
  proof -
    have "upload_ok tk g directory sk (fed @ []) up'"
      by (intro upload_ok_step [OF ok step, where written = "[]"])
        (use ok [unfolded upload_ok_def, THEN conjunct2] in \<open>simp_all add: up'\<close>)
    then show ?thesis by simp
  qed
  show ?thesis
  proof (cases res)
    case Pending
    have "(close_work up', close_work up) \<in> less_than <*lex*> fewer" if T
      using patient.poll_close_work [OF segments_patient [OF that] c [unfolded Pending] st(1,3)]
      by (auto simp: close_work_def upload_work_def up')
    moreover have "ta_woken (upload_task tk so) cx up'" if T
    proof (rule writer_woken [OF that ok'])
      note waits = ws_poll_close_pending [OF c [unfolded Pending] st(1) segment_registers(1) [OF waking_tokio [OF that]]]
      have "completed_files (ww_files s') = 0"
        using c [unfolded Pending] st(1)
        by (cases rule: ws_poll_close_cases [where rep = "segment_rep creating names data" and init = "[]"
            and add = "(@)" and committed = "segment_committed disk"]) simp_all
      then have "hd (ww_files s') \<in> set (ww_files s')" "\<not> slot_done (hd (ww_files s'))"
        using waits completed_zero_head [of "ww_files s'"] by auto
      with waits show "ws_woken cx ?s (up_writer up') \<or>
          (\<exists>slot \<in> set (ww_files (up_writer up')). segment_wakes tk cx (w_file slot)) \<or>
          ws_queued cx (up_writer up')"
        by (auto simp: up' intro: bexI [of _ "hd (ww_files s')"])
    qed
    ultimately show ?thesis using Pending ok' by (simp add: up')
  next
    case (Ready r)
    show ?thesis
    proof (cases r)
      case (Ok n)
      have "upload_closed tk g directory fed up'" if "n = 0"
      proof -
        obtain evs where evs: "upload_run tk g evs ?s" "consumed_inputs bytes_taken evs = fed"
          "accepted_destinations evs = new_segments g directory (unat (up_next up))"
          "returned_results evs = up_written up"
          using ok by (auto simp: upload_ok_def)
        have "upload_run tk g (evs @ [?ev]) (up_writer up')"
          using evs(1) step unfolding upload_run_def by (rule stepped)
        with evs(2-4) Ready Ok that ok show ?thesis by (auto simp: upload_closed_def upload_ok_def up')
      qed
      with Ready Ok ok' show ?thesis by (simp add: up')
    qed (use Ready in simp)
  qed
qed

lemma upload_close_closed:
  fixes up :: "('h, 'o, 'd, 's) uploader"
  assumes "upload_ok tk g directory sk fed up"
  shows "achieves T (upload_close tk so up) (\<lambda>res up'. \<forall>u. res = Ok u \<longrightarrow> upload_closed tk g directory fed up')"
  using assms
proof (induction "unat (up_next up) - length (up_written up)" arbitrary: up rule: less_induct)
  case less
  let ?Q = "\<lambda>res up'. \<forall>u. res = Ok u \<longrightarrow> upload_closed tk g directory fed up'"
  let ?I = "\<lambda>up'. upload_ok tk g directory sk fed up' \<and> up_next up' = up_next up \<and> up_written up' = up_written up"
  let ?more = "\<lambda>completed up. if completed = 0 then Some (Ok (), up)
       else try_then (Some (pop_completed completed up)) (\<lambda>_ up. upload_close tk so up)"
  have "achieves T (try_then (await_result (upload_task tk so) OtherWrite (upload_poll_close tk) up) ?more) ?Q"
  proof (rule achieves_try [THEN iffD2],
      rule achieves_await_result [where I = ?I and R = "inv_image (less_than <*lex*> fewer) close_work"])
    show "wf (inv_image (less_than <*lex*> fewer) close_work)"
      by (intro wf_inv_image wf_lex_prod wf_less_than wf_fewer)
  next
    fix up1 up2
    assume "?I up1" "upload_poll_close tk (ta_waker (upload_task tk so) up1) up1 = (Pending, up2)"
    with poll_close_ok [of g directory sk fed up1 "up_waker up1" Pending up2]
    show "?I (ta_polled (upload_task tk so) up2) \<and>
        (T \<longrightarrow> ta_woken (upload_task tk so) (ta_waker (upload_task tk so) up1) up2 \<and>
          (ta_polled (upload_task tk so) up2, up1) \<in> inv_image (less_than <*lex*> fewer) close_work)"
      by simp
  next
    fix up1 r up2'
    assume up1: "?I up1" and p: "upload_poll_close tk (ta_waker (upload_task tk so) up1) up1 = (Ready r, up2')"
    let ?up2 = "ta_polled (upload_task tk so) up2'"
    note polled = poll_close_ok [OF up1 [THEN conjunct1] p]
    show "case map_err OtherWrite r of Ok a \<Rightarrow> achieves T (?more a ?up2) ?Q | Err e \<Rightarrow> ?Q (Err e) ?up2"
    proof (cases r)
      case (Ok n)
      obtain res up3 where po: "pop_completed n ?up2 = (res :: (unit, 'e tcp_error) result, up3)" by fastforce
      have "achieves T (upload_close tk so up3) ?Q" if "n \<noteq> 0" "res = Ok u" for u
      proof (rule less.hyps)
        note popped = pop_completed_ok [OF _ po [unfolded that(2)], of tk g directory sk fed]
        with polled Ok show ok3: "upload_ok tk g directory sk fed up3" by simp
        have "length (up_written up3) = length (up_written up) + n" "up_next up3 = up_next up"
          using popped polled Ok up1 by simp_all
        with written_bound [OF ok3] that(1)
        show "unat (up_next up3) - length (up_written up3) < unat (up_next up) - length (up_written up)"
          by simp
      qed
      with polled Ok po show ?thesis by (cases res) auto
    qed simp
  qed (use less.prems in simp)
  then show ?case by (simp only: upload_close.simps [of tk so up])
qed

end

section \<open>The files of a finished upload\<close>

text \<open>An input cut into pieces of \<open>n\<close>; the last one may be shorter.\<close>

function chunks :: "nat \<Rightarrow> 'y list \<Rightarrow> 'y list list" where
  "chunks n xs = (if n = 0 \<or> xs = [] then [] else take n xs # chunks n (drop n xs))"
  by pat_completeness auto
termination by (relation "measure (\<lambda>(n, xs). length xs)") auto

declare chunks.simps [simp del]

lemma segments_chunks:
  "concat (take k (segments (replicate m c) frames)) = frames \<Longrightarrow>
     [] \<notin> set (take k (segments (replicate m c) frames)) \<Longrightarrow>
     take k (segments (replicate m c) frames) = chunks c frames"
proof (induction k arbitrary: m frames)
  case 0
  then show ?case by (simp add: chunks.simps)
next
  case (Suc k)
  show ?case
  proof (cases m)
    case 0
    with Suc.prems show ?thesis by (simp add: chunks.simps)
  next
    case (Suc m')
    let ?more = "take k (segments (replicate m' c) (drop c frames))"
    have "take c frames @ concat ?more = take c frames @ drop c frames" "take c frames \<noteq> []"
      "[] \<notin> set ?more"
      using Suc.prems Suc by simp_all
    then have "concat ?more = drop c frames" "\<not> (c = 0 \<or> frames = [])" "[] \<notin> set ?more"
      by (simp_all only: same_append_eq) auto
    with Suc.IH [of m' "drop c frames"] Suc show ?thesis by (simp add: chunks.simps [of c frames])
  qed
qed

lemma whole_take:
  assumes "list_all (block_whole block) frames"
  shows "concat (take c frames) = take (c * block) (concat frames)"
    "concat (drop c frames) = drop (c * block) (concat frames)"
  using assms
  by (induction frames arbitrary: c) (auto simp: block_whole_def take_Cons' drop_Cons' diff_mult_distrib)

lemma whole_length: "list_all (block_whole block) frames \<Longrightarrow> length (concat frames) = length frames * block"
  by (induction frames) (simp_all add: block_whole_def)

lemma concat_chunks:
  "list_all (block_whole block) frames \<Longrightarrow> 0 < block \<Longrightarrow>
     map concat (chunks c frames) = chunks (c * block) (concat frames)"
proof (induction c frames rule: chunks.induct)
  case (1 c frames)
  show ?case
  proof (cases "c = 0 \<or> frames = []")
    case True
    then show ?thesis by (auto simp: chunks.simps)
  next
    case False
    then have "concat frames \<noteq> []" using 1(2,3) by (cases frames) (auto simp: block_whole_def)
    moreover have "list_all (block_whole block) (drop c frames)"
      using 1(2) by (auto simp: list_all_iff dest: in_set_dropD)
    ultimately show ?thesis
      using 1 False by (simp add: chunks.simps [of c frames] chunks.simps [of "c * block"] whole_take)
  qed
qed

lemma whole_frames:
  assumes "list_all (block_piece block) frames" "list_all (block_whole block) (butlast frames)"
    and "length (concat frames) mod block = 0"
  shows "list_all (block_whole block) frames"
proof (cases "frames = []")
  case False
  then have split: "butlast frames @ [last frames] = frames" by simp
  have "length (concat (butlast frames)) = length (butlast frames) * block"
    using assms(2) by (rule whole_length)
  moreover have "length (concat frames) = length (concat (butlast frames)) + length (last frames)"
    by (subst split [symmetric]) (simp only: concat_append length_append, simp)
  ultimately have "length (last frames) mod block = 0" using assms(3) by simp
  moreover have "last frames \<noteq> []" "length (last frames) \<le> block"
    using assms(1) False by (auto simp: list_all_iff block_piece_def)
  ultimately have "block_whole block (last frames)"
    by (auto simp: block_whole_def dest: mod_eq_self_iff_div_eq_0 [THEN iffD2] dvd_imp_le)
  with assms(2) show ?thesis by (subst split [symmetric]) simp
qed simp

lemma foldl_append: "foldl (@) acc xss = acc @ concat xss"
  by (induction xss arbitrary: acc) simp_all

lemma concat_concat_map: "concat (map concat xsss) = concat (concat xsss)"
  by (induction xsss) simp_all

lemma list_all2_map_eq: "list_all2 (\<lambda>x y. f x = g y) xs ys \<Longrightarrow> map f xs = map g ys"
  by (induction rule: list_all2_induct) simp_all

context upload_env begin

lemma upload_closed_files:
  fixes up :: "('h, 'o, 'd, 's) uploader"
  assumes up: "upload_closed tk g directory fed up" and fed: "length fed mod g_block g = 0" "0 < g_block g"
  shows "concat (map (segment_committed disk) (up_written up)) = fed"
    "map (segment_committed disk) (up_written up) = chunks (unat (g_frames_per_file g) * g_block g) fed"
    "map snd (up_written up) = map (\<lambda>i. segment_path directory (of_nat i)) [0..<length (up_written up)]"
    "sorted_wrt (\<lambda>p q. components p < components q) (map snd (up_written up))"
proof -
  obtain evs cx where evs:
    "upload_run tk g (evs @ [WClose cx (Ready (Ok 0))]) (up_writer up)" "consumed_inputs bytes_taken evs = fed"
    "accepted_destinations evs = new_segments g directory (unat (up_next up))"
    "returned_results evs = up_written up"
    using up by (auto simp: upload_closed_def)
  have unopened: "\<forall>f \<in> set (accepted_destinations evs). segment_rep creating names data f Unopened"
    by (auto simp: evs(3) new_segments_def segment_new_def)
  have "block_allocator (g_block g) \<lparr>ba_frame_size = g_block g\<rparr>" by (simp add: block_allocator_def)
  from run_closed [OF evs(1) [unfolded upload_run_def] segment_contract bytes_contract unopened
      block_shape [of "g_block g"] this]
  obtain frames where frames: "fed = concat frames"
    "concat (take (length (up_written up)) (segments (capacities (segment_write_ops tk) evs) frames)) = frames"
    "[] \<notin> set (take (length (up_written up)) (segments (capacities (segment_write_ops tk) evs) frames))"
    "list_all (block_piece (g_block g)) frames" "list_all (block_whole (g_block g)) (butlast frames)"
    "list_all2 (\<lambda>r seg. segment_committed disk r = foldl (@) [] seg) (up_written up)
       (take (length (up_written up)) (segments (capacities (segment_write_ops tk) evs) frames))"
    by (auto simp: evs(2,4))
  have caps: "capacities (segment_write_ops tk) evs =
      replicate (unat (up_next up)) (unat (g_frames_per_file g))"
    by (simp add: capacities_def evs(3) new_segments_def segment_new_def segment_write_ops_def comp_def
        map_replicate_const)
  have stored: "map (segment_committed disk) (up_written up) = map concat
      (take (length (up_written up)) (segments (capacities (segment_write_ops tk) evs) frames))"
    using frames(6) by (intro list_all2_map_eq) (simp add: foldl_append)
  have "concat (map concat (take (length (up_written up)) (segments (capacities (segment_write_ops tk) evs) frames))) =
      concat frames"
    by (simp add: concat_concat_map frames(2))
  then show "concat (map (segment_committed disk) (up_written up)) = fed" by (simp add: stored frames(1))
  note stored
  also have "map concat (take (length (up_written up)) (segments (capacities (segment_write_ops tk) evs) frames)) =
      map concat (chunks (unat (g_frames_per_file g)) frames)"
    using segments_chunks [OF frames(2,3) [unfolded caps]] by (simp only: caps)
  also have "\<dots> = chunks (unat (g_frames_per_file g) * g_block g) fed"
    using concat_chunks [OF whole_frames [OF frames(4,5)] fed(2)] fed(1) by (simp add: frames(1))
  finally show "map (segment_committed disk) (up_written up) = chunks (unat (g_frames_per_file g) * g_block g) fed" .
  obtain k where k: "k = length (up_written up)" by simp
  from run_returned_labels [OF evs(1) [unfolded upload_run_def] segment_labels]
  have labels: "map (sg_path \<circ> fst) (up_written up) =
      take k (map (\<lambda>i. segment_path directory (of_nat i)) [0..<unat (up_next up)])"
    "\<forall>(f, r) \<in> set (up_written up). r = sg_path f"
    by (simp_all add: evs(3,4) k)
  have bound: "k \<le> unat (up_next up)" using arg_cong [OF labels(1), of length] by (simp add: k)
  have "map snd (up_written up) = map (sg_path \<circ> fst) (up_written up)"
    using labels(2) by (intro map_cong) auto
  also have "\<dots> = map (\<lambda>i. segment_path directory (of_nat i)) [0..<k]"
    unfolding labels(1) using bound by (simp add: take_map take_upt)
  finally have paths: "map snd (up_written up) = map (\<lambda>i. segment_path directory (of_nat i)) [0..<k]" .
  then show "map snd (up_written up) = map (\<lambda>i. segment_path directory (of_nat i)) [0..<length (up_written up)]"
    by (simp add: k)
  have "components (segment_path directory (of_nat i)) < components (segment_path directory (of_nat j))"
    if "i < j" "j < k" for i j
  proof (rule segment_path_less)
    have "unat (up_next up) < 2 ^ 64" using unsigned_less [of "up_next up"] by simp
    with bound have "k < 2 ^ 64" by linarith
    with that show "(of_nat i :: u64) < of_nat j"
      by (simp add: word_less_nat_alt unsigned_of_nat take_bit_nat_eq_self)
  qed
  then show "sorted_wrt (\<lambda>p q. components p < components q) (map snd (up_written up))"
    unfolding paths by (simp add: sorted_wrt_map sorted_wrt_iff_nth_less)
qed

end

section \<open>The whole upload\<close>

lemma padded_mod:
  assumes "0 < block"
  shows "length (input @ padding block input) mod block = 0"
proof (cases "length input mod block = 0")
  case False
  have "(length input div block + 1) * block = length input div block * block + block" by simp
  then have "length input + (block - length input mod block) = (length input div block + 1) * block"
    using mod_less_divisor [OF assms, of "length input"] div_mult_mod_eq [of "length input" block]
    by linarith
  then have "(length input + (block - length input mod block)) mod block = 0" by (metis mod_mult_self2_is_0)
  with False show ?thesis by (simp add: padding_def)
qed (simp add: padding_def)

text \<open>What an upload has stored: the segment files, their paths and \<open>stream.meta\<close>.\<close>

definition upload_stored ::
    "('h \<Rightarrow> string \<Rightarrow> u8 list) \<Rightarrow> geometry \<Rightarrow> string \<Rightarrow> u8 list \<Rightarrow> ('h, 'o, 'd, 's) uploader \<Rightarrow> bool" where
  "upload_stored disk g directory input up \<longleftrightarrow>
     concat (map (segment_committed disk) (up_written up)) = input @ padding (g_block g) input \<and>
     map (segment_committed disk) (up_written up) =
       chunks (unat (g_frames_per_file g) * g_block g) (input @ padding (g_block g) input) \<and>
     map snd (up_written up) =
       map (\<lambda>i. segment_path directory (of_nat i)) [0..<length (up_written up)] \<and>
     sorted_wrt (\<lambda>p q. components p < components q) (map snd (up_written up)) \<and>
     up_meta up = [(path_join directory ''stream.meta'', decimal (length input) @ ''\<newline>'')]"

lemma upload_started:
  assumes w: "ws_new \<lparr>ba_frame_size = g_block g\<rparr> (budget_new (g_frames g)) config = Ok writer"
    and config: "tcp_config g = Some config"
    and up: "up = \<lparr>up_waker = cx, up_writer = writer, up_next = 0, up_socket = sk, up_written = [], up_meta = []\<rparr>"
  shows "upload_ok tk g directory sk [] up" "ww_phase (up_writer up) = PhaseWriting"
    "max_active_files (window (ww_config (up_writer up))) = g_files g" "ww_files (up_writer up) = []"
proof -
  note new = ws_new_cases [OF w]
  have "upload_run tk g [] writer"
    unfolding upload_run_def by (rule ws_run.created [OF pool_start w])
  moreover have "alone (ww_permit writer) (ww_budget writer)" by (rule alone_new [OF new(2)])
  ultimately show "upload_ok tk g directory sk [] up"
    using new(6) tcp_config_Some [OF config]
    by (simp add: up upload_ok_def new_segments_def exI [of _ "[]"])
  show "ww_phase (up_writer up) = PhaseWriting"
    "max_active_files (window (ww_config (up_writer up))) = g_files g" "ww_files (up_writer up) = []"
    using new tcp_config_Some [OF config] by (simp_all add: up)
qed

context upload_env begin

lemma upload_stream_stores:
  fixes up :: "('h, 'o, 'd, 's) uploader"
  assumes up: "upload_ok tk g directory sk [] up" "ww_phase (up_writer up) = PhaseWriting"
    "max_active_files (window (ww_config (up_writer up))) = g_files g" "ww_files (up_writer up) = []"
    and block: "0 < g_block g" "g_block g < 2 ^ 64"
  shows "achieves T (upload_stream tk so fs g directory up)
    (\<lambda>res up'. \<forall>n. res = Ok n \<longrightarrow> unat n = length (rest sk) \<and> upload_stored disk g directory (rest sk) up')"
proof -
  let ?input = "rest sk"
  let ?padded = "?input @ padding (g_block g) ?input"
  let ?Q = "\<lambda>(res :: (u64, 'e tcp_error) result) up'. \<forall>n. res = Ok n \<longrightarrow>
    unat n = length ?input \<and> upload_stored disk g directory ?input up'"
  have finish: "?Q (fst y) (snd y)"
    if "upload_closed tk g directory ?padded up1" "unat n = length ?input"
      "y = upload_finish fs directory n up1" for n y and up1 :: "('h, 'o, 'd, 's) uploader"
    using upload_closed_files [OF that(1) padded_mod [OF block(1)] block(1)] that
    by (auto simp: upload_finish_def upload_stored_def upload_closed_def Let_def split: result.splits)
  have close: "achieves T (try_then (upload_close tk so up1) (\<lambda>_ up. Some (upload_finish fs directory n up))) ?Q"
    if "uploading tk g directory sk' ?padded up1" "unat n = length ?input" for sk' n and up1 :: "('h, 'o, 'd, 's) uploader"
  proof -
    have "upload_ok tk g directory sk' ?padded up1" using that(1) by (simp add: uploading_def)
    from achieves_mono [OF upload_close_closed [OF this]] finish [OF _ that(2) refl]
    show ?thesis by (fastforce split: result.split)
  qed
  have pad: "achieves T (try_then (upload_pad tk so g directory n up1) (\<lambda>_ up.
      try_then (upload_close tk so up) (\<lambda>_ up. Some (upload_finish fs directory n up)))) ?Q"
    if "uploading tk g directory sk' ?input up1" "unat n = length ?input" for sk' n and up1 :: "('h, 'o, 'd, 's) uploader"
    unfolding achieves_try [of T "upload_pad tk so g directory n up1"]
    by (rule achieves_mono [OF upload_pad_uploading [OF that block(1)]])
      (use close [OF _ that(2)] in \<open>auto simp del: achieves_try split: result.split\<close>)
  obtain res up1 where ad: "admit_segments tk g directory up = (res, up1)" by fastforce
  show ?thesis
  proof (cases res)
    case (Ok u)
    from admit_segments_uploading [OF up(1) _ _ ad [unfolded Ok]] up(2-4)
    have "uploading tk g directory sk [] up1" by simp
    from upload_receive_uploading [OF this, of ?input 0] block
    have "achieves T (upload_receive tk so g directory 0 up1)
      (\<lambda>res up'. \<forall>n. res = Ok n \<longrightarrow> unat n = length ?input \<and> (\<exists>sk'. uploading tk g directory sk' ?input up'))"
      by simp
    then have "achieves T (try_then (upload_receive tk so g directory 0 up1) (\<lambda>received up.
       try_then (upload_pad tk so g directory received up) (\<lambda>_ up.
       try_then (upload_close tk so up) (\<lambda>_ up. Some (upload_finish fs directory received up))))) ?Q"
      unfolding achieves_try [of T "upload_receive tk so g directory 0 up1"]
      by (rule achieves_mono) (use pad in \<open>auto simp del: achieves_try split: result.split\<close>)
    then show ?thesis
      by (simp add: upload_stream_def ad Ok del: achieves_try)
  qed (simp add: upload_stream_def ad)
qed

lemma upload_achieves:
  assumes "T \<Longrightarrow> tcp_config g \<noteq> None" and block: "g_block g < 2 ^ 64"
  shows "achieves T (upload tk so fs g cx directory sk)
    (\<lambda>res up'. \<forall>n. res = Ok n \<longrightarrow> unat n = length (rest sk) \<and>
       (\<exists>up. up' = Some up \<and> upload_stored disk g directory (rest sk) up))"
proof (cases "tcp_config g")
  case None
  with assms(1) show ?thesis
    by (auto simp: upload_def achieves_def split: result.split option.split)
next
  case (Some config)
  have "achieves T (map_option (\<lambda>(res, up). (res, Some up)) (upload_stream tk so fs g directory
        \<lparr>up_waker = cx, up_writer = writer, up_next = 0, up_socket = sk, up_written = [], up_meta = []\<rparr>))
      (\<lambda>res up'. \<forall>n. res = Ok n \<longrightarrow> unat n = length (rest sk) \<and>
        (\<exists>up. up' = Some up \<and> upload_stored disk g directory (rest sk) up))"
    if "ws_new \<lparr>ba_frame_size = g_block g\<rparr> (budget_new (g_frames g)) config = Ok writer" "0 < g_block g" for writer
    using upload_stream_stores [OF upload_started [OF that(1) Some refl] that(2) block]
    by (simp add: achieves_map [where f = "\<lambda>res. res", simplified])
  with Some show ?thesis
    by (auto simp: upload_def bytes_allocator_new_def simp del: achieves_map split: result.split)
qed

end

end
