(* ===== verification/Tcp_Download.thy ===== *)
theory Tcp_Download
  imports Async_Rules Segment_Progress Read_Properties
begin

text \<open>
  The download of the TCP example: what it sends is what the segment files hold, in the order of
  their paths, cut to the size that \<open>stream.meta\<close> names, and it returns when the socket and the files
  are prompt and wake the task. Each state of a download is one of a run of the read scheduler.
\<close>

section \<open>The socket\<close>

text \<open>
  The documentation of \<open>AsyncWriteExt::write_all\<close> and \<open>shutdown\<close>: \<open>sent s\<close> is what was sent so far, and
  \<open>sending w bytes\<close> says that the future \<open>w\<close> has sent \<open>bytes\<close> when it is ready.
\<close>

definition sent_stream ::
    "('s, 'w, 'e) socket \<Rightarrow> ('s \<Rightarrow> u8 list) \<Rightarrow> ('w \<Rightarrow> u8 list \<Rightarrow> bool) \<Rightarrow> bool" where
  "sent_stream so sent sending \<longleftrightarrow>
     (\<forall>s bytes. sending (so_write_all so s bytes) (sent s @ bytes)) \<and>
     (\<forall>cx w bytes w'. sending w bytes \<longrightarrow> so_poll_write_all so cx w = (Pending, w') \<longrightarrow> sending w' bytes) \<and>
     (\<forall>cx w bytes u w'. sending w bytes \<longrightarrow> so_poll_write_all so cx w = (Ready (Ok u), w') \<longrightarrow>
        sent (so_stream so w') = bytes) \<and>
     (\<forall>cx s s'. so_poll_shutdown so cx s = (Pending, s') \<longrightarrow> sent s' = sent s) \<and>
     (\<forall>cx s u s'. so_poll_shutdown so cx s = (Ready (Ok u), s') \<longrightarrow> sent s' = sent s)"

definition prompt_sender :: "('s, 'w, 'e) socket \<Rightarrow> ('w \<Rightarrow> nat) \<Rightarrow> ('s \<Rightarrow> nat) \<Rightarrow> bool" where
  "prompt_sender so write_lag shutdown_lag \<longleftrightarrow>
     (\<forall>cx w w'. so_poll_write_all so cx w = (Pending, w') \<longrightarrow> write_lag w' < write_lag w) \<and>
     (\<forall>cx s s'. so_poll_shutdown so cx s = (Pending, s') \<longrightarrow> shutdown_lag s' < shutdown_lag s)"

definition waking_sender :: "('s, 'w, 'e) socket \<Rightarrow> bool" where
  "waking_sender so \<longleftrightarrow>
     (\<forall>cx w w'. so_poll_write_all so cx w = (Pending, w') \<longrightarrow> so_write_wakes so cx w') \<and>
     (\<forall>cx s s'. so_poll_shutdown so cx s = (Pending, s') \<longrightarrow> so_wakes so cx s')"

section \<open>States of a download\<close>

text \<open>
  \<open>files\<close> are all the files of the download and \<open>outs\<close> the frames read so far. Files that the reader
  has not accepted wait in order, and all have been accepted once the input is closed.
\<close>

definition waiting_files :: "('h, 'o, 'd, 's, 'e) downloader \<Rightarrow> ('h, 'o, 'd) segment list" where
  "waiting_files dl = (case dl_waiting dl of None \<Rightarrow> [] | Some file \<Rightarrow> [file]) @ dl_files dl"

type_synonym ('h, 'o, 'd, 'e) download_event =
  "(u8 list, ('h, 'o, 'd) segment, 'e io_error) read_event"

definition download_run ::
    "('h, 'o, 'd, 'e) tokio \<Rightarrow> geometry \<Rightarrow> ('h, 'o, 'd, 'e) download_event list
      \<Rightarrow> (u8 list, ('h, 'o, 'd) segment, 'e io_error, unit) reader \<Rightarrow> bool" where
  "download_run tk g evs reader \<longleftrightarrow>
     rs_run (segment_read_ops tk (g_block g)) empty_buffer (g_frames g) () evs (reader, \<lambda>_. 0)"

definition download_ok ::
    "('h, 'o, 'd, 'e) tokio \<Rightarrow> geometry \<Rightarrow> ('h, 'o, 'd) segment list \<Rightarrow> u8 list list
      \<Rightarrow> ('h, 'o, 'd, 's, 'e) downloader \<Rightarrow> bool" where
  "download_ok tk g files outs dl \<longleftrightarrow>
     (\<exists>evs. download_run tk g evs (dl_reader dl) \<and> pushed_files evs @ waiting_files dl = files \<and>
        output_frames evs = outs \<and> reported_errors evs = []) \<and>
     (dl_closed dl \<longrightarrow> waiting_files dl = []) \<and> (r_closed (dl_reader dl) \<longleftrightarrow> dl_closed dl) \<and>
     alone (r_permit (dl_reader dl)) (r_budget (dl_reader dl)) \<and> max_retries (r_config (dl_reader dl)) = 0"

lemma download_ok_state:
  assumes "download_ok tk g files outs dl"
  shows "rs_inv (dl_reader dl)"
    "client_ok (g_frames g) (r_permit (dl_reader dl)) (r_budget (dl_reader dl)) (\<lambda>_. 0)"
    "alone (r_permit (dl_reader dl)) (r_budget (dl_reader dl))"
    "max_retries (r_config (dl_reader dl)) = 0" "0 < g_frames g"
proof -
  obtain evs where evs: "download_run tk g evs (dl_reader dl)" using assms by (auto simp: download_ok_def)
  from rs_run_state [OF this [unfolded download_run_def]] show "rs_inv (dl_reader dl)"
    "client_ok (g_frames g) (r_permit (dl_reader dl)) (r_budget (dl_reader dl)) (\<lambda>_. 0)"
    by (simp_all add: run_state_client)
  from rs_run_positive [OF evs [unfolded download_run_def]] show "0 < g_frames g" .
qed (use assms in \<open>simp_all add: download_ok_def\<close>)

text \<open>A step of the reader.\<close>

lemma download_ok_step:
  fixes ev :: "('h, 'o, 'd, 'e) download_event"
  assumes ok: "download_ok tk g files outs dl"
    and st: "rs_step (segment_read_ops tk (g_block g)) empty_buffer (dl_reader dl, \<lambda>_. 0) ev (dl_reader dl', \<lambda>_. 0)"
    and safe: "rs_safe (dl_reader dl) (dl_reader dl')"
    and ev: "reported_error ev = []" "accepted_file ev @ waiting_files dl' = waiting_files dl"
    and closed: "dl_closed dl' \<Longrightarrow> waiting_files dl' = []" "r_closed (dl_reader dl') \<longleftrightarrow> dl_closed dl'"
  shows "download_ok tk g files (outs @ output_frame ev) dl'"
proof -
  obtain evs where evs: "download_run tk g evs (dl_reader dl)" "pushed_files evs @ waiting_files dl = files"
    "output_frames evs = outs" "reported_errors evs = []"
    using ok by (auto simp: download_ok_def)
  have "download_run tk g (evs @ [ev]) (dl_reader dl')"
    using evs(1) st unfolding download_run_def by (rule run_step)
  moreover have "pushed_files (evs @ [ev]) @ waiting_files dl' = files" using evs(2) ev(2) by simp
  moreover have "alone (r_permit (dl_reader dl')) (r_budget (dl_reader dl'))"
    "max_retries (r_config (dl_reader dl')) = 0"
    using safe download_ok_state(3,4) [OF ok] alone_run by (auto simp: rs_safe_def)
  ultimately show ?thesis
    using evs(3,4) ev(1) closed unfolding download_ok_def by (intro conjI exI [of _ "evs @ [ev]"]) simp_all
qed

text \<open>Files, socket and frame play no other role.\<close>

lemma download_ok_frame:
  assumes "download_ok tk g files outs dl" "dl_reader dl' = dl_reader dl" "waiting_files dl' = waiting_files dl"
    "dl_closed dl' = dl_closed dl"
  shows "download_ok tk g files outs dl'"
  using assms by (simp add: download_ok_def)

lemma waiting_files_waker [simp]: "waiting_files (dl_waker_update h dl) = waiting_files dl"
  by (simp add: waiting_files_def)

lemma download_ok_waker [simp]:
  "download_ok tk g files outs (dl_waker_update h dl) = download_ok tk g files outs dl"
  by (simp add: download_ok_def)

lemma download_task_sel [simp]:
  "ta_waker (download_task tk so) = dl_waker" "ta_polled (download_task tk so) = dl_waker_update Suc"
  "ta_woken (download_task tk so) = download_woken tk so"
  by (simp_all add: download_task_def)

lemma send_task_sel [simp]:
  "ta_waker (send_task tk so) x = dl_waker (fst x)"
  "ta_polled (send_task tk so) x = (dl_waker_update Suc (fst x), snd x)"
  "ta_woken (send_task tk so) cx x \<longleftrightarrow> download_woken tk so cx (fst x) \<or> so_write_wakes so cx (snd x)"
  by (simp_all add: send_task_def apfst_def map_prod_def split_beta)

section \<open>Offering files\<close>

text \<open>The work of all files, those that wait as well.\<close>

definition fresh_slot :: "usize \<Rightarrow> ('h, 'o, 'd) segment \<Rightarrow> ('h, 'o, 'd) segment read_slot" where
  "fresh_slot start f = \<lparr>s_file = f, s_start = start, s_count = sg_frames f, s_received = 0, s_retries = 0,
     s_state = ROpening, s_blocked = False\<rparr>"

definition files_work ::
    "(('h, 'o, 'd) segment \<Rightarrow> nat) \<Rightarrow> (('h, 'o, 'd) segment \<Rightarrow> nat) \<Rightarrow> ('h, 'o, 'd, 's, 'e) downloader
      \<Rightarrow> nat \<times> nat" where
  "files_work lag_open lag_read dl =
     reads_work lag_open lag_read (r_files (dl_reader dl) @ map (fresh_slot 0) (waiting_files dl))"

lemma files_work_waker [simp]: "files_work lo lr (dl_waker_update h dl) = files_work lo lr dl"
  by (simp add: files_work_def)

lemma files_work_read:
  assumes "(reads_work lo lr (r_files (dl_reader dl')), reads_work lo lr (r_files (dl_reader dl))) \<in> fewer"
    and "waiting_files dl' = waiting_files dl"
  shows "(files_work lo lr dl', files_work lo lr dl) \<in> fewer"
  using assms by (auto simp: files_work_def reads_work_def)

text \<open>One file is offered: the first of those that wait.\<close>

lemma offer_file_ok:
  fixes tk :: "('h, 'o, 'd, 'e) tokio" and f :: "('h, 'o, 'd) segment"
  assumes ok: "download_ok tk g files outs dl" and w: "waiting_files dl = f # waiting_files dl1"
    and dl1: "dl_reader dl1 = dl_reader dl" "dl_closed dl1 = dl_closed dl"
    and o: "offer_file tk g f dl1 = (res, dl2)"
  shows "case res of
      Ok u \<Rightarrow> download_ok tk g files outs dl2 \<and> r_files (dl_reader dl2) \<noteq> [] \<and>
        files_work lo lr dl2 = files_work lo lr dl \<and> dl_waiting dl2 = dl_waiting dl1 \<and>
        dl_socket dl2 = dl_socket dl1 \<and> dl_frame dl2 = dl_frame dl1
    | Err (error, f') \<Rightarrow> f' = f \<and> dl2 = dl1 \<and> (error = Full \<longrightarrow> r_files (dl_reader dl) \<noteq> [])"
proof -
  let ?ops = "segment_read_ops tk (g_block g)"
  obtain s2 where p: "rs_push_file ?ops f (dl_reader dl) = (res, s2)" and dl2: "dl2 = dl1\<lparr>dl_reader := s2\<rparr>"
    using o dl1(1) by (auto simp: offer_file_def Let_def split: prod.splits)
  have inv: "rs_inv (dl_reader dl)" by (rule download_ok_state(1) [OF ok])
  have opened: "\<not> dl_closed dl" "\<not> r_closed (dl_reader dl)" using ok w by (auto simp: download_ok_def)
  show ?thesis
  proof (cases res)
    case (Err e)
    from p inv have "fst e = Full \<longrightarrow> r_files (dl_reader dl) \<noteq> []" "snd e = f" "s2 = dl_reader dl"
      using rs_inv_distance [OF inv] Err
      by (auto simp: rs_push_file_def Let_def rs_inv_def valid_window_def horizon_def
          split: if_splits option.splits)
    with Err dl1(1) show ?thesis by (auto simp: dl2 split: prod.split)
  next
    case (Ok u)
    have files: "r_files s2 = r_files (dl_reader dl) @ [fresh_slot (r_discovered (dl_reader dl)) f]"
      "r_closed s2 = r_closed (dl_reader dl)"
      using p Ok by (auto simp: rs_push_file_def Let_def fresh_slot_def segment_read_ops_def
          split: if_splits option.splits)
    from p inv have safe: "rs_safe (dl_reader dl) s2" by (cases rule: rs_push_file_cases) (simp_all add: Ok)
    have "download_ok tk g files (outs @ output_frame (PushFile f (Ok ()) :: ('h, 'o, 'd, 'e) download_event)) dl2"
      if "res = (Ok () :: (unit, push_error \<times> ('h, 'o, 'd) segment) result)"
      using ok
    proof (rule download_ok_step)
      show "rs_step ?ops empty_buffer (dl_reader dl, \<lambda>_. 0) (PushFile f (Ok ())) (dl_reader dl2, \<lambda>_. 0)"
        using step_push [OF p] that by (simp add: dl2)
    qed (use safe w opened dl1(2) files in \<open>simp_all add: dl2 waiting_files_def\<close>)
    moreover have "files_work lo lr dl2 = files_work lo lr dl"
      using w files dl1(1) by (simp add: dl2 files_work_def reads_work_def waiting_files_def fresh_slot_def
          read_steps_def read_lag_def)
    ultimately show ?thesis using Ok files by (simp add: dl2)
  qed
qed

lemma next_file_waiting:
  "next_file dl = None \<Longrightarrow> waiting_files dl = []"
  "next_file dl = Some (f, dl1) \<Longrightarrow> waiting_files dl = f # waiting_files dl1 \<and> dl_waiting dl1 = None \<and>
     dl_reader dl1 = dl_reader dl \<and> dl_closed dl1 = dl_closed dl \<and> dl_socket dl1 = dl_socket dl \<and>
     dl_frame dl1 = dl_frame dl"
  by (auto simp: next_file_def waiting_files_def split: option.splits list.splits)

lemma push_files_ok:
  fixes tk :: "('h, 'o, 'd, 'e) tokio"
  assumes "download_ok tk g files outs dl" "push_files tk g dl = (Ok u, dl')"
  shows "download_ok tk g files outs dl' \<and> files_work lo lr dl' = files_work lo lr dl \<and>
    dl_socket dl' = dl_socket dl \<and> dl_frame dl' = dl_frame dl \<and>
    (dl_closed dl' \<or> r_files (dl_reader dl') \<noteq> [])"
  using assms
proof (induction tk g dl rule: push_files.induct)
  case (1 tk g dl)
  note step = "1.prems"(2) [unfolded push_files.simps [of tk g dl]]
  show ?case
  proof (cases "dl_closed dl")
    case True
    with step "1.prems"(1) show ?thesis by simp
  next
    case False
    note waiting = next_file_waiting [of dl]
    show ?thesis
    proof (cases "next_file dl")
      case None
      let ?dl = "dl\<lparr>dl_closed := True, dl_reader := rs_close_files (dl_reader dl)\<rparr>"
      have inv: "rs_inv (dl_reader dl)" by (rule download_ok_state(1) [OF "1.prems"(1)])
      have "download_ok tk g files (outs @ output_frame (CloseFiles :: ('h, 'o, 'd, 'e) download_event)) ?dl"
        by (rule download_ok_step [OF "1.prems"(1)])
          (use waiting(1) [OF None] step_close [of "segment_read_ops tk (g_block g)" empty_buffer "dl_reader dl" "\<lambda>_. 0"]
            rs_close_files_safe [OF inv] in \<open>simp_all add: waiting_files_def rs_close_files_def\<close>)
      moreover have "dl' = ?dl" using step False None by simp
      ultimately show ?thesis by (simp add: files_work_def waiting_files_def rs_close_files_def)
    next
      case (Some y)
      obtain f dl1 where y: "y = (f, dl1)" by fastforce
      note w = waiting(2) [OF Some [unfolded y]]
      obtain res dl2 where o: "offer_file tk g f dl1 = (res, dl2)" by fastforce
      have offered: "case res of
          Ok u \<Rightarrow> download_ok tk g files outs dl2 \<and> r_files (dl_reader dl2) \<noteq> [] \<and>
            files_work lo lr dl2 = files_work lo lr dl \<and> dl_waiting dl2 = dl_waiting dl1 \<and>
            dl_socket dl2 = dl_socket dl1 \<and> dl_frame dl2 = dl_frame dl1
        | Err (error, f') \<Rightarrow> f' = f \<and> dl2 = dl1 \<and> (error = Full \<longrightarrow> r_files (dl_reader dl) \<noteq> [])"
        using offer_file_ok [OF "1.prems"(1) _ _ _ o] w by simp
      show ?thesis
      proof (cases res)
        case (Ok u)
        with step False Some y o have "push_files tk g dl2 = (Ok (), dl')" by simp
        with "1.IH" [OF False Some y [symmetric] o [symmetric] Ok] offered Ok w show ?thesis by simp
      next
        case (Err e)
        then obtain error f' where e: "res = Err (error, f')" by (cases e) auto
        with step False Some y o have full: "error = Full" "dl' = dl2\<lparr>dl_waiting := Some f'\<rparr>"
          by (cases error; simp)+
        with offered e w have dl': "dl_reader dl' = dl_reader dl" "waiting_files dl' = waiting_files dl"
          "dl_closed dl' = dl_closed dl" "dl_socket dl' = dl_socket dl" "dl_frame dl' = dl_frame dl"
          "r_files (dl_reader dl) \<noteq> []"
          by (simp_all add: waiting_files_def)
        with download_ok_frame [OF "1.prems"(1) dl'(1-3)] show ?thesis by (simp add: files_work_def)
      qed
    qed
  qed
qed

section \<open>The loops of the download\<close>

text \<open>
  What a download relies on: the files of tokio and the socket behave as documented and, where \<open>T\<close>
  holds, are prompt and wake the task that waits for them.
\<close>

locale download_env = segment_reads tk reads names rest disk "g_block g"
  for tk :: "('h, 'o, 'd, 'e) tokio" and reads :: "'o \<Rightarrow> string \<Rightarrow> bool"
    and names :: "'h \<Rightarrow> string" and rest :: "'h \<Rightarrow> u8 list" and disk :: "string \<Rightarrow> u8 list"
    and g :: geometry +
  fixes so :: "('s, 'w, 'e) socket" and sent :: "'s \<Rightarrow> u8 list" and sending :: "'w \<Rightarrow> u8 list \<Rightarrow> bool"
    and T :: bool and opening_lag :: "'o \<Rightarrow> nat" and file_lag :: "'h \<Rightarrow> nat" and sleep_lag :: "'d \<Rightarrow> nat"
    and bound :: nat and write_lag :: "'w \<Rightarrow> nat" and shutdown_lag :: "'s \<Rightarrow> nat"
  assumes stream: "sent_stream so sent sending"
    and prompt_tokio: "T \<Longrightarrow> prompt_files tk opening_lag file_lag sleep_lag bound"
    and prompt_socket: "T \<Longrightarrow> prompt_sender so write_lag shutdown_lag"
    and waking_tokio: "T \<Longrightarrow> waking_files tk" and waking_socket: "T \<Longrightarrow> waking_sender so"
begin

abbreviation download_work :: "('h, 'o, 'd, 's, 'e) downloader \<Rightarrow> nat \<times> nat" where
  "download_work \<equiv> files_work (segment_open_lag tk opening_lag sleep_lag False)
     (segment_read_lag file_lag bound (g_block g))"

lemma segments_patient:
  "T \<Longrightarrow> patient_reads (segment_read_ops tk (g_block g)) (segment_open_lag tk opening_lag sleep_lag False)
     (segment_read_lag file_lag bound (g_block g))"
  using prompt_tokio [folded prompt_iff] by (rule prompt.segment_patient_reads)

text \<open>The frames of the files: their blocks, as many as the directory announced.\<close>

definition file_frames :: "('h, 'o, 'd) segment \<Rightarrow> u8 list list" where
  "file_frames f = take (unat (sg_frames f)) (blocks (g_block g) (disk (sg_path f)))"

definition all_frames :: "('h, 'o, 'd) segment list \<Rightarrow> u8 list list" where
  "all_frames files = concat (map file_frames files)"

end

end
