(* ===== verification/Tcp_Listing.thy ===== *)
theory Tcp_Listing
  imports Tcp_Transfer "HOL-Library.Multiset"
begin

text \<open>
  What \<open>download\<close> makes of a directory: the segments that it lists, sorted by their paths, and their
  sizes. Entries come in any order, and other files may lie beside the segments.
\<close>

section \<open>The entries of a directory\<close>

text \<open>The paths of the segments among the entries, and what the documentation says of their sizes.\<close>

fun entry_path ::
    "string \<Rightarrow> (string \<times> (u64, 'e io_error) result, 'e io_error) result \<Rightarrow> string list" where
  "entry_path directory (Ok (name, metadata)) =
     filter (\<lambda>path. path_extension path = Some ''bin'') [path_join directory name]"
| "entry_path directory (Err error) = []"

definition listed_paths ::
    "string \<Rightarrow> (string \<times> (u64, 'e io_error) result, 'e io_error) result list \<Rightarrow> string list" where
  "listed_paths directory entries = concat (map (entry_path directory) entries)"

definition listed_sizes ::
    "(string \<Rightarrow> u8 list) \<Rightarrow> string
      \<Rightarrow> (string \<times> (u64, 'e io_error) result, 'e io_error) result list \<Rightarrow> bool" where
  "listed_sizes disk directory entries \<longleftrightarrow>
     (\<forall>name len. Ok (name, Ok len) \<in> set entries \<longrightarrow> unat len = length (disk (path_join directory name)))"

text \<open>A segment as the listing makes it: a fresh one, with the number of blocks of its file.\<close>

definition listed_segment ::
    "(string \<Rightarrow> u8 list) \<Rightarrow> nat \<Rightarrow> ('h, 'o, 'd) segment \<Rightarrow> bool" where
  "listed_segment disk block f \<longleftrightarrow> f = segment_new (sg_path f) (sg_frames f) \<and>
     length (disk (sg_path f)) mod block = 0 \<and> unat (sg_frames f) = length (disk (sg_path f)) div block"

lemma listed_segment_new:
  assumes "unat len = length (disk path)" "unat len mod block = 0" "unat len \<le> unat (fpf :: u32) * block" "0 < block"
  shows "listed_segment disk block (segment_new path (of_nat (unat (len :: u64) div block)))"
proof -
  have "unat len div block \<le> unat fpf" using div_le_mono [OF assms(3), of block] assms(4) by simp
  moreover have "unat fpf < 2 ^ 32" using unsigned_less [of fpf] by simp
  ultimately have "unat len div block < 2 ^ 32" by linarith
  with assms(1,2) show ?thesis
    by (simp add: listed_segment_def segment_new_def unsigned_of_nat take_bit_nat_eq_self)
qed

lemma list_segments_listed:
  assumes "list_segments g directory entries stored files = Ok (stored', files')"
    and "listed_sizes disk directory entries" "0 < g_block g"
  shows "\<exists>new. files' = files @ new \<and> map sg_path new = listed_paths directory entries \<and>
    stored' = stored + of_nat (length (concat (map (\<lambda>f. disk (sg_path f)) new))) \<and>
    (\<forall>f \<in> set new. listed_segment disk (g_block g) f)"
  using assms
proof (induction g directory entries stored files rule: list_segments.induct)
  case (1 g directory stored files)
  then show ?case by (simp add: listed_paths_def)
next
  case (2 g directory error entries stored files)
  then show ?case by simp
next
  case (3 g directory name metadata entries stored files)
  let ?path = "path_join directory name"
  have sizes: "listed_sizes disk directory entries" using "3.prems"(2) by (simp add: listed_sizes_def)
  show ?case
  proof (cases "path_extension ?path = Some ''bin''")
    case False
    with "3.IH"(2) [OF refl] "3.prems"(1,3) sizes show ?thesis by (simp add: listed_paths_def)
  next
    case True
    then obtain len where len: "metadata = Ok len" using "3.prems"(1) by (cases metadata) simp_all
    let ?f = "segment_new ?path (of_nat (unat len div g_block g)) :: ('a, 'b, 'c) segment"
    have checked: "\<not> (len = 0 \<or> unat len mod g_block g \<noteq> 0 \<or> unat len > unat (g_frames_per_file g) * g_block g)"
      using "3.prems"(1) True len by (auto split: if_splits)
    with "3.prems"(1) True len
    have rest: "list_segments g directory entries (stored + len) (files @ [?f]) = Ok (stored', files')"
      by simp
    have size': "unat len = length (disk ?path)" using "3.prems"(2) len by (auto simp: listed_sizes_def)
    have f: "listed_segment disk (g_block g) ?f"
      by (rule listed_segment_new [where fpf = "g_frames_per_file g"]) (use size' checked "3.prems"(3) in simp_all)
    have path: "sg_path ?f = ?path" by (simp add: segment_new_def)
    from "3.IH"(1) [OF refl True len checked rest sizes "3.prems"(3)]
    obtain new where new: "files' = (files @ [?f]) @ new" "map sg_path new = listed_paths directory entries"
      "stored' = stored + len + of_nat (length (concat (map (\<lambda>f. disk (sg_path f)) new)))"
      "\<forall>f \<in> set new. listed_segment disk (g_block g) f" by blast
    have "len = of_nat (length (disk ?path))" by (simp flip: size')
    with new f path True show ?thesis
      by (intro exI [of _ "?f # new"]) (simp add: listed_paths_def add.assoc)
  qed
qed

section \<open>The order\<close>

lemma map_insort_key: "map f (insort_key (\<lambda>x. g (f x)) x xs) = insort_key g (f x) (map f xs)"
  by (induction xs) simp_all

lemma map_sort_key: "map f (sort_key (\<lambda>x. g (f x)) xs) = sort_key g (map f xs)"
  by (induction xs) (simp_all add: map_insort_key)

text \<open>The number of blocks leaves room for the whole stream.\<close>

lemma div_ceil_room: "0 < block \<Longrightarrow> stored div block = div_ceil n block \<Longrightarrow> n \<le> stored"
proof -
  assume b: "0 < block" and eq: "stored div block = div_ceil n block"
  have "n \<le> div_ceil n block * block"
  proof (cases "n mod block = 0")
    case False
    have "n \<le> n div block * block + block"
      using div_mult_mod_eq [of n block] mod_less_divisor [OF b, of n] by linarith
    with False show ?thesis by (simp add: div_ceil_def add_mult_distrib)
  next
    case True
    then show ?thesis using div_mult_mod_eq [of n block] by (simp add: div_ceil_def)
  qed
  also have "\<dots> \<le> stored" unfolding eq [symmetric] by (rule div_times_less_eq_dividend)
  finally show ?thesis .
qed

text \<open>What the whole listing yields.\<close>

lemma download_list_listed:
  fixes files :: "('h, 'o, 'd) segment list"
  assumes "download_list fs g directory = Ok (n, files)" "fs_read_dir fs directory = Ok entries"
    and sizes: "listed_sizes disk directory entries" and block: "0 < g_block g"
  shows "map sg_path files = sort_key components (listed_paths directory entries)"
    "\<forall>f \<in> set files. listed_segment disk (g_block g) f"
    "unat n \<le> length (concat (map (\<lambda>f. disk (sg_path f)) files))"
    "\<exists>contents. fs_read_to_string fs (path_join directory ''stream.meta'') = Ok contents \<and>
      parse_u64 (trim contents) = Ok n"
proof -
  obtain contents stored listed where *: "fs_read_to_string fs (path_join directory ''stream.meta'') = Ok contents"
    "parse_u64 (trim contents) = Ok n" "list_segments g directory entries 0 [] = Ok (stored, listed)"
    "unat stored div g_block g = div_ceil (unat n) (g_block g)"
    "files = sort_key (\<lambda>s. components (sg_path s)) listed"
    using assms(1,2) by (auto simp: download_list_def split: result.splits if_splits)
  from list_segments_listed [OF *(3) sizes block] have new: "map sg_path listed = listed_paths directory entries"
    "stored = of_nat (length (concat (map (\<lambda>f. disk (sg_path f)) listed)))"
    "\<forall>f \<in> set listed. listed_segment disk (g_block g) f" by auto
  show "map sg_path files = sort_key components (listed_paths directory entries)"
    using map_sort_key [of sg_path components listed] by (simp add: *(5) new(1))
  show "\<forall>f \<in> set files. listed_segment disk (g_block g) f" using new(3) by (simp add: *(5))
  have "unat n \<le> unat stored" by (rule div_ceil_room [OF block *(4)])
  also have "\<dots> \<le> length (concat (map (\<lambda>f. disk (sg_path f)) listed))"
    unfolding new(2) by (simp add: unsigned_of_nat take_bit_eq_mod)
  also have "\<dots> = (\<Sum>f \<leftarrow> listed. length (disk (sg_path f)))" by (simp add: length_concat comp_def)
  also have "\<dots> = (\<Sum>f \<leftarrow> files. length (disk (sg_path f)))"
    unfolding *(5) by (simp flip: sum_mset_sum_list)
  finally show "unat n \<le> length (concat (map (\<lambda>f. disk (sg_path f)) files))" by (simp add: length_concat comp_def)
  show "\<exists>contents. fs_read_to_string fs (path_join directory ''stream.meta'') = Ok contents \<and>
      parse_u64 (trim contents) = Ok n"
    using * by blast
qed

end
