(* ===== verification/Tcp_Sent.thy ===== *)
theory Tcp_Sent
  imports Tcp_Download Tcp_Listing
begin

text \<open>
  The loops of \<open>download\<close>: one poll of the future that reads a frame, the \<open>select!\<close> that sends it, the
  loop over the frames. What was sent is a prefix of the frames of the files, then all of them.
\<close>

section \<open>Blocks\<close>

lemma blocks_length: "frame \<in> set (blocks block bytes) \<Longrightarrow> length frame = block"
proof (induction block bytes rule: blocks.induct)
  case (1 block bytes)
  from "1.prems" show ?case
    by (subst (asm) blocks.simps) (auto simp: min_def split: if_splits intro: "1.IH")
qed

lemma concat_blocks:
  assumes "0 < block" "length bytes mod block = 0"
  shows "concat (blocks block bytes) = bytes \<and> length (blocks block bytes) = length bytes div block"
  using assms
proof (induction block bytes rule: blocks.induct)
  case (1 block bytes)
  show ?case
  proof (cases "length bytes < block")
    case True
    with "1.prems" show ?thesis by (simp add: blocks.simps)
  next
    case False
    then have "length (drop block bytes) mod block = 0" using "1.prems" by (simp add: le_mod_geq)
    with "1.IH" False "1.prems" show ?thesis
      by (simp add: blocks.simps [of block bytes] le_div_geq)
  qed
qed

lemma concat_length_block: "\<forall>frame \<in> set frames. length frame = block \<Longrightarrow> length (concat frames) = length frames * block"
  by (induction frames) simp_all

text \<open>Segments that nothing has happened to.\<close>

definition new_files :: "('h, 'o, 'd) segment list \<Rightarrow> bool" where
  "new_files files \<longleftrightarrow> (\<forall>f \<in> set files. f = segment_new (sg_path f) (sg_frames f))"

context download_env begin

lemma new_file:
  assumes "new_files files" "f \<in> set files"
  shows "segment_fits (g_block g) reads names rest disk f Fresh"
    "segment_content (g_block g) rest disk f = blocks (g_block g) (disk (sg_path f))"
proof -
  have f: "f = segment_new (sg_path f) (sg_frames f)" using assms by (auto simp: new_files_def)
  have none: "sg_file f = None" "sg_opening f = None"
    using arg_cong [OF f, of sg_file] arg_cong [OF f, of sg_opening] by (simp_all add: segment_new_def)
  show "segment_fits (g_block g) reads names rest disk f Fresh"
    "segment_content (g_block g) rest disk f = blocks (g_block g) (disk (sg_path f))"
    by (simp_all add: none segment_content_def)
qed

lemma all_frames_length: "frame \<in> set (all_frames files) \<Longrightarrow> length frame = g_block g"
  by (auto simp: all_frames_def file_frames_def dest!: in_set_takeD blocks_length)

lemma declared_new:
  fixes evs :: "('h, 'o, 'd, 'e) download_event list"
  assumes "new_files (pushed_files evs)"
  shows "declared_frames (segment_read_ops tk (g_block g)) (segment_content (g_block g) rest disk) evs =
    all_frames (pushed_files evs)"
  using new_file(2) [OF assms]
  by (auto simp: declared_frames_def all_frames_def file_frames_def segment_read_ops_def
      intro!: arg_cong [of _ _ concat] map_cong)

lemma outs_prefix:
  assumes ok: "download_ok tk g files outs dl" and new: "new_files files"
  shows "\<exists>more. all_frames files = outs @ more"
proof -
  obtain evs where evs: "download_run tk g evs (dl_reader dl)" "pushed_files evs @ waiting_files dl = files"
    "output_frames evs = outs"
    using ok by (auto simp: download_ok_def)
  have pushed: "new_files (pushed_files evs)" using new evs(2) by (auto simp: new_files_def)
  then have "\<forall>f \<in> set (pushed_files evs). segment_fits (g_block g) reads names rest disk f Fresh"
    using new_file(1) by blast
  from rs_run_order [OF evs(1) [unfolded download_run_def] segment_contract this] pushed
  have "\<exists>more. all_frames (pushed_files evs) = outs @ more"
    by (auto simp: run_order_def declared_new evs(3))
  then show ?thesis by (auto simp: all_frames_def simp flip: evs(2))
qed

section \<open>Reading a frame\<close>

text \<open>One step of the reader that reads, whatever its outcome.\<close>

lemma read_step_ok:
  assumes ok: "download_ok tk g files outs dl"
    and p: "rs_poll_read (segment_read_ops tk (g_block g)) empty_buffer cx (dl_frame dl) (dl_reader dl) =
      (res, frame, reader)"
    and dl': "dl' = dl\<lparr>dl_frame := frame, dl_reader := reader\<rparr>" and res: "\<And>e. res \<noteq> Ready (Err e)"
  shows "download_ok tk g files (outs @ (case res of Ready (Ok (Some u)) \<Rightarrow> [frame] | _ \<Rightarrow> [])) dl'"
proof -
  let ?ev = "PollRead cx (dl_frame dl) res frame :: ('h, 'o, 'd, 'e) download_event"
  note state = download_ok_state [OF ok]
  have view: "r_closed (rs_poll_progress (segment_read_ops tk (g_block g)) empty_buffer cx (dl_reader dl)) =
      r_closed (dl_reader dl)"
    by (rule rs_poll_progress_view(2) [OF state(1) refl])
  have "r_closed reader = r_closed (dl_reader dl)"
    using p state(1) by (cases rule: rs_poll_read_cases) (simp_all add: view)
  moreover have "rs_safe (dl_reader dl) reader" by (rule rs_poll_read_safe [OF p state(1)])
  moreover have "output_frame ?ev = (case res of Ready (Ok (Some u)) \<Rightarrow> [frame] | _ \<Rightarrow> [])"
    by (auto split: poll.split result.split option.split)
  moreover have "reported_error ?ev = []" using res by (cases ?ev rule: reported_error.cases) simp_all
  moreover have "rs_step (segment_read_ops tk (g_block g)) empty_buffer (dl_reader dl, \<lambda>_. 0) ?ev (dl_reader dl', \<lambda>_. 0)"
    using step_read [OF p] by (simp add: dl')
  ultimately show ?thesis
    using download_ok_step [OF ok, where dl' = dl' and ev = ?ev] ok by (simp add: dl' download_ok_def waiting_files_def)
qed

lemma read_eof:
  assumes ok: "download_ok tk g files outs dl" and new: "new_files files"
    and p: "rs_poll_read (segment_read_ops tk (g_block g)) empty_buffer cx (dl_frame dl) (dl_reader dl) =
      (Ready (Ok None), frame, reader)"
  shows "outs = all_frames files"
proof -
  let ?ev = "PollRead cx (dl_frame dl) (Ready (Ok None)) frame :: ('h, 'o, 'd, 'e) download_event"
  obtain evs where evs: "download_run tk g evs (dl_reader dl)" "pushed_files evs @ waiting_files dl = files"
    "output_frames evs = outs" "reported_errors evs = []"
    using ok by (auto simp: download_ok_def)
  have run: "rs_run (segment_read_ops tk (g_block g)) empty_buffer (g_frames g) () (evs @ [?ev]) (reader, \<lambda>_. 0)"
    using evs(1) step_read [OF p] unfolding download_run_def by (rule run_step)
  note eof = run_eof [OF run evs(4), where fits = "segment_fits (g_block g) reads names rest disk" and
      content = "segment_content (g_block g) rest disk"]
  have "r_closed (dl_reader dl)"
    using rs_run_status [OF evs(1) [unfolded download_run_def]] eof by (simp add: run_status_def)
  then have pushed: "pushed_files evs = files" using ok evs(2) by (simp add: download_ok_def)
  have "\<forall>f \<in> set files. segment_fits (g_block g) reads names rest disk f Fresh"
    using new_file(1) [OF new] by blast
  with eof segment_contract show ?thesis using declared_new [of evs] new by (simp add: pushed evs(3))
qed

text \<open>A pending read has files to drive, and has driven them.\<close>

lemma read_pending:
  assumes ok: "download_ok tk g files outs dl" and T
    and files: "dl_closed dl \<or> r_files (dl_reader dl) \<noteq> []"
    and p: "rs_poll_read (segment_read_ops tk (g_block g)) empty_buffer cx (dl_frame dl) (dl_reader dl) =
      (Pending, frame, reader)"
  shows "(download_work (dl\<lparr>dl_frame := frame, dl_reader := reader\<rparr>), download_work dl) \<in> fewer \<and>
    download_woken tk so cx (dl\<lparr>dl_frame := frame, dl_reader := reader\<rparr>)"
proof -
  note state = download_ok_state [OF ok]
  let ?dl = "dl\<lparr>dl_frame := frame, dl_reader := reader\<rparr>"
  have busy: "r_files (dl_reader dl) \<noteq> []"
  proof
    assume none: "r_files (dl_reader dl) = []"
    then have closed: "r_closed (dl_reader dl)" using files ok by (simp add: download_ok_def)
    have "r_terminated (rs_poll_progress (segment_read_ops tk (g_block g)) empty_buffer cx (dl_reader dl))"
      using none closed by (simp add: rs_poll_progress_def Let_def rs_shrink_to_sel)
    with p show False by (auto simp: rs_poll_read_def Let_def split: option.splits)
  qed
  have "(download_work ?dl, download_work dl) \<in> fewer"
    using patient_reads.poll_read_work [OF segments_patient [OF \<open>T\<close>] p state(1,4) busy state(2,3,5)]
    by (intro files_work_read) (simp_all add: waiting_files_def)
  moreover have "download_ok tk g files outs ?dl" using read_step_ok [OF ok p refl] by simp
  note state' = download_ok_state [OF this]
  have "\<not> req_waiting (b_requests (r_budget reader) (p_request (r_permit reader)))"
    using alone_not_waiting [OF state'(2,3)] by simp
  moreover have "0 < b_total (r_budget (dl_reader dl))" using client_capacity [OF state(2)] state(5) by simp
  note rs_poll_read_pending [OF p state(1) busy segment_registers(2) [OF waking_tokio [OF \<open>T\<close>]] this]
  ultimately show ?thesis
    by (auto simp: download_woken_def list_ex_iff intro: bexI [of _ "hd (r_files reader)"])
qed

text \<open>One poll of the future that the loop awaits.\<close>

lemma download_poll_ok:
  assumes ok: "download_ok tk g files outs dl" and p: "download_poll tk g cx dl = (res, dl')"
  shows "res = Pending \<Longrightarrow> download_ok tk g files outs dl' \<and> dl_socket dl' = dl_socket dl \<and>
      (T \<longrightarrow> download_woken tk so cx dl' \<and> (download_work dl', download_work dl) \<in> fewer)"
    and "res = Ready (Ok (Some u)) \<Longrightarrow>
      download_ok tk g files (outs @ [dl_frame dl']) dl' \<and> dl_socket dl' = dl_socket dl"
    and "res = Ready (Ok None) \<Longrightarrow> new_files files \<Longrightarrow>
      outs = all_frames files \<and> dl_socket dl' = dl_socket dl"
proof -
  obtain r dl1 where push: "push_files tk g dl = (r, dl1)" by fastforce
  note step = p [unfolded download_poll_def push]
  obtain x frame reader where read: "rs_poll_read (segment_read_ops tk (g_block g)) empty_buffer cx (dl_frame dl1)
      (dl_reader dl1) = (x, frame, reader)" by (metis prod_cases3)
  let ?dl2 = "dl1\<lparr>dl_frame := frame, dl_reader := reader\<rparr>"
  note pushed = push_files_ok [OF ok, where lo = "segment_open_lag tk opening_lag sleep_lag False" and
      lr = "segment_read_lag file_lag bound (g_block g)"]
  have ready: "r = Ok () \<and> dl' = ?dl2 \<and> x = Ready (Ok y)" if "res = Ready (Ok y)" for y
  proof (cases x)
    case (Ready z)
    with step that show ?thesis by (cases r; cases z) (simp_all add: Let_def read)
  next
    case Pending
    with step that show ?thesis
      by (cases r) (auto simp: Let_def read split: option.splits prod.splits result.splits push_error.splits)
  qed
  show "download_ok tk g files outs dl' \<and> dl_socket dl' = dl_socket dl \<and>
      (T \<longrightarrow> download_woken tk so cx dl' \<and> (download_work dl', download_work dl) \<in> fewer)" if pending: "res = Pending"
  proof -
    have r: "r = Ok ()" "x = Pending" using step pending by (cases r; cases x; simp add: Let_def read)+
    note dl1 = pushed [OF push [unfolded r(1)]]
    have ok2: "download_ok tk g files outs ?dl2"
      using read_step_ok [OF _ read refl, of files outs] dl1 r(2) by simp
    have less: "(download_work ?dl2, download_work dl) \<in> fewer" "download_woken tk so cx ?dl2" if T
      using read_pending [of files outs dl1] that dl1 read r(2) by metis+
    show ?thesis
    proof (cases "dl_waiting dl1")
      case None
      then have "dl' = ?dl2" using step r pending by (simp add: Let_def read)
      with ok2 less dl1 show ?thesis by simp
    next
      case (Some f)
      let ?dl3 = "?dl2\<lparr>dl_waiting := None\<rparr>"
      obtain y dl4 where offer: "offer_file tk g f ?dl3 = (y, dl4)" by fastforce
      have w: "waiting_files ?dl2 = f # waiting_files ?dl3" using Some by (simp add: waiting_files_def)
      note offered = offer_file_ok [OF ok2 w _ _ offer]
      show ?thesis
      proof (cases y)
        case (Ok v)
        then have dl': "dl' = dl4\<lparr>dl_wakes := dl_wakes dl4 @ [cx]\<rparr>"
          using step r pending offer Some by (simp add: Let_def read)
        have dl4: "download_ok tk g files outs dl4" "download_work dl4 = download_work ?dl2"
          "dl_socket dl4 = dl_socket dl1"
          using offered Ok by simp_all
        have "download_ok tk g files outs dl'"
          by (rule download_ok_frame [OF dl4(1)]) (simp_all add: dl' waiting_files_def)
        with less(1) dl4 dl1 show ?thesis
          by (simp add: dl' files_work_def waiting_files_def download_woken_def)
      next
        case (Err e)
        obtain error f' where e: "e = (error, f')" by fastforce
        with step r pending offer Some Err have full: "error = Full" "dl' = dl4\<lparr>dl_waiting := Some f'\<rparr>"
          by (cases error; simp add: Let_def read)+
        with offered Err e Some have "dl' = ?dl2" by simp
        with ok2 less dl1 show ?thesis by simp
      qed
    qed
  qed
  show "download_ok tk g files (outs @ [dl_frame dl']) dl' \<and> dl_socket dl' = dl_socket dl"
    if "res = Ready (Ok (Some u))"
    using ready [OF that] pushed [of "()" dl1] push read_step_ok [OF _ read refl, of files outs] by auto
  show "outs = all_frames files \<and> dl_socket dl' = dl_socket dl"
    if "res = Ready (Ok None)" "new_files files"
  proof -
    note r = ready [OF that(1)]
    with pushed [of "()" dl1] push have dl1: "download_ok tk g files outs dl1" "dl_socket dl1 = dl_socket dl" by simp_all
    from read_eof [OF dl1(1) that(2) read [unfolded conjunct2 [OF conjunct2 [OF r]]]] r dl1(2) show ?thesis by simp
  qed
qed

section \<open>Sending a frame\<close>

lemma poll_reader_ok:
  assumes ok: "download_ok tk g files outs dl" and p: "poll_reader tk g cx (dl, w) = (res, dl', w')"
  shows "download_ok tk g files outs dl' \<and> w' = w \<and> res = Pending"
proof -
  note state = download_ok_state [OF ok]
  let ?s = "rs_poll_progress (segment_read_ops tk (g_block g)) empty_buffer cx (dl_reader dl)"
  from p have dl': "dl' = dl\<lparr>dl_reader := ?s\<rparr>" "w' = w" "res = Pending"
    by (auto simp: poll_reader_def rs_progress_def Let_def)
  note view = rs_poll_progress_view [OF state(1) refl, where ops = "segment_read_ops tk (g_block g)"
      and mk = empty_buffer and cx = cx]
  have "download_ok tk g files (outs @ output_frame (PollProgress cx :: ('h, 'o, 'd, 'e) download_event)) dl'"
    by (rule download_ok_step [OF ok])
      (use step_progress [of "segment_read_ops tk (g_block g)" empty_buffer "dl_reader dl" "\<lambda>_. 0" cx] view(1,2) ok
        in \<open>simp_all add: dl' download_ok_def waiting_files_def\<close>)
  with dl' show ?thesis by simp
qed

lemma poll_socket_ok:
  assumes "download_ok tk g files outs dl" "sending w bytes" "poll_socket so cx (dl, w) = (res, dl', w')"
  shows "dl' = dl \<and> (res = Pending \<longrightarrow>
      sending w' bytes \<and> (T \<longrightarrow> so_write_wakes so cx w' \<and> write_lag w' < write_lag w)) \<and>
    (\<forall>u. res = Ready (Ok u) \<longrightarrow> sent (so_stream so w') = bytes)"
  using assms stream prompt_socket waking_socket
  by (auto simp: poll_socket_def sent_stream_def prompt_sender_def waking_sender_def split: prod.splits)

lemma send_poll_ok:
  assumes ok: "download_ok tk g files outs dl" "sending w bytes" and p: "send_poll tk so g cx (dl, w) = (res, dl', w')"
  shows "download_ok tk g files outs dl' \<and>
    (res = Pending \<longrightarrow>
      sending w' bytes \<and> (T \<longrightarrow> so_write_wakes so cx w' \<and> write_lag w' < write_lag w)) \<and>
    (\<forall>u. res = Ready (Ok u) \<longrightarrow> sent (so_stream so w') = bytes)"
proof (cases "so_first so w")
  case True
  obtain r dl1 w1 where s: "poll_socket so cx (dl, w) = (r, dl1, w1)" by (metis prod_cases3)
  note socket = poll_socket_ok [OF ok s]
  show ?thesis
  proof (cases r)
    case Pending
    with p s True have "poll_reader tk g cx (dl1, w1) = (res, dl', w')"
      by (simp add: send_poll_def poll_select_def)
    from poll_reader_ok [OF _ this] socket ok Pending show ?thesis by auto
  next
    case (Ready x)
    with p s True socket ok show ?thesis by (auto simp: send_poll_def poll_select_def)
  qed
next
  case False
  obtain r dl1 w1 where s: "poll_reader tk g cx (dl, w) = (r, dl1, w1)" by (metis prod_cases3)
  note reader = poll_reader_ok [OF ok(1) s]
  with p s False have "poll_socket so cx (dl1, w) = (res, dl', w')"
    by (simp add: send_poll_def poll_select_def)
  from poll_socket_ok [OF _ ok(2) this] reader show ?thesis by auto
qed

lemma send_bytes_ok:
  assumes ok: "download_ok tk g files outs dl"
  shows "achieves T (send_bytes tk so g bytes dl) (\<lambda>res dl'. res = Ok () \<longrightarrow>
    download_ok tk g files outs dl' \<and> sent (dl_socket dl') = sent (dl_socket dl) @ bytes)"
proof -
  let ?I = "\<lambda>(dl', w). download_ok tk g files outs dl' \<and> sending w (sent (dl_socket dl) @ bytes)"
  have "achieves T (await_result (send_task tk so) Io (send_poll tk so g) (dl, so_write_all so (dl_socket dl) bytes))
    (\<lambda>res (dl', w'). res = Ok () \<longrightarrow> download_ok tk g files outs dl' \<and>
       sent (so_stream so w') = sent (dl_socket dl) @ bytes)"
  proof (rule achieves_await_result [where I = ?I and R = "measure (write_lag \<circ> snd)"])
    show "?I (dl, so_write_all so (dl_socket dl) bytes)"
      using ok stream by (simp add: sent_stream_def)
    show "?I (ta_polled (send_task tk so) y) \<and>
        (T \<longrightarrow> ta_woken (send_task tk so) (ta_waker (send_task tk so) x) y \<and>
          (ta_polled (send_task tk so) y, x) \<in> measure (write_lag \<circ> snd))"
      if x: "?I x" and p: "send_poll tk so g (ta_waker (send_task tk so) x) x = (Pending, y)" for x y
      using send_poll_ok [of files outs "fst x" "snd x" "sent (dl_socket dl) @ bytes" "dl_waker (fst x)" Pending
          "fst y" "snd y"] x p
      by (simp add: split_beta)
    show "case ta_polled (send_task tk so) y of (dl', w') \<Rightarrow> map_err Io r = Ok () \<longrightarrow>
        download_ok tk g files outs dl' \<and> sent (so_stream so w') = sent (dl_socket dl) @ bytes"
      if x: "?I x" and p: "send_poll tk so g (ta_waker (send_task tk so) x) x = (Ready r, y)" for x r y
      using send_poll_ok [of files outs "fst x" "snd x" "sent (dl_socket dl) @ bytes" "dl_waker (fst x)" "Ready r"
          "fst y" "snd y"] x p
      by (cases r) (simp_all add: split_beta)
  qed simp
  then show ?thesis
    unfolding send_bytes_def
    by (auto simp: achieves_def download_ok_def waiting_files_def split: option.splits)
qed

section \<open>The loop over the frames\<close>

lemma download_frames_ok:
  assumes "download_ok tk g files outs dl" and new: "new_files files"
    and "sent (dl_socket dl) = base @ take limit (concat outs)" "remaining = limit - length outs * g_block g"
  shows "achieves T (download_frames tk so g remaining dl) (\<lambda>res dl'. res = Ok () \<longrightarrow>
    sent (dl_socket dl') = base @ take limit (concat (all_frames files)))"
  using assms(1,3,4)
proof (induction "length (all_frames files) - length outs" arbitrary: outs dl remaining rule: less_induct)
  case less
  let ?Q = "\<lambda>res dl'. res = Ok () \<longrightarrow> sent (dl_socket dl') = base @ take limit (concat (all_frames files))"
  let ?I = "\<lambda>dl'. download_ok tk g files outs dl' \<and> dl_socket dl' = dl_socket dl"
  let ?next = "\<lambda>read dl. case read of None \<Rightarrow> Some (Ok (), dl)
    | Some _ \<Rightarrow> let length' = min remaining (g_block g)
      in if length (dl_frame dl) < length' then Some (Err (Io (Other ''short output frame'')), dl)
         else try_then (send_bytes tk so g (take length' (dl_frame dl)) dl)
           (\<lambda>_ dl. download_frames tk so g (remaining - length') dl)"
  have frame: "achieves T (?next (Some u) dl1) ?Q"
    if ok1: "download_ok tk g files (outs @ [dl_frame dl1]) dl1" and sk: "dl_socket dl1 = dl_socket dl"
    for u :: unit and dl1
  proof -
    let ?f = "dl_frame dl1" and ?len = "min remaining (g_block g)"
    obtain more where all: "all_frames files = (outs @ [?f]) @ more" using outs_prefix [OF ok1 new] by blast
    have len: "length ?f = g_block g" "\<forall>f \<in> set outs. length f = g_block g"
      using all_frames_length [of _ files] by (simp_all add: all)
    have sent: "sent (dl_socket dl) @ take ?len ?f = base @ take limit (concat (outs @ [?f]))"
      using less.prems(2,3) len(1) concat_length_block [OF len(2)] by (simp add: min_def)
    have "achieves T (send_bytes tk so g (take ?len ?f) dl1) (\<lambda>res dl'.
        case res of Ok a \<Rightarrow> achieves T (download_frames tk so g (remaining - ?len) dl') ?Q | Err e \<Rightarrow> True)"
    proof (rule achieves_mono [OF send_bytes_ok [OF ok1]])
      fix res :: "(unit, 'e tcp_error) result" and dl'
      assume step: "res = Ok () \<longrightarrow> download_ok tk g files (outs @ [?f]) dl' \<and>
        sent (dl_socket dl') = sent (dl_socket dl1) @ take ?len ?f"
      have "remaining - ?len = limit - length (outs @ [?f]) * g_block g"
        using less.prems(3) by (simp add: min_def add.commute)
      moreover have "length (all_frames files) - length (outs @ [?f]) < length (all_frames files) - length outs"
        by (simp add: all)
      ultimately show "case res of
          Ok a \<Rightarrow> achieves T (download_frames tk so g (remaining - ?len) dl') ?Q | Err e \<Rightarrow> True"
        using less.hyps [of "outs @ [?f]" dl' "remaining - ?len"] step sent sk by (simp split: result.split)
    qed
    then have "achieves T (send_bytes tk so g (take ?len ?f) dl1) (\<lambda>res dl'.
        case res of Ok a \<Rightarrow> achieves T (download_frames tk so g (remaining - ?len) dl') ?Q | Err e \<Rightarrow> ?Q (Err e) dl')"
      by (rule achieves_mono) (simp split: result.splits)
    then show ?thesis by (simp add: Let_def len(1))
  qed
  have "achieves T (await_result (download_task tk so) (\<lambda>error. error) (download_poll tk g) dl)
    (\<lambda>res dl1. case res of Ok read \<Rightarrow> achieves T (?next read dl1) ?Q | Err e \<Rightarrow> ?Q (Err e) dl1)"
  proof (rule achieves_await_result [where I = ?I and R = "inv_image fewer download_work"])
    show "?I dl" using less.prems(1) by simp
    show "wf (inv_image fewer download_work)" by (rule wf_inv_image [OF wf_fewer])
    show "?I (ta_polled (download_task tk so) dl2) \<and>
        (T \<longrightarrow> ta_woken (download_task tk so) (ta_waker (download_task tk so) dl1) dl2 \<and>
          (ta_polled (download_task tk so) dl2, dl1) \<in> inv_image fewer download_work)"
      if "?I dl1" "download_poll tk g (ta_waker (download_task tk so) dl1) dl1 = (Pending, dl2)" for dl1 dl2
      using that download_poll_ok(1) [of files outs dl1 "dl_waker dl1" Pending dl2] by simp
    fix dl1 r dl2'
    let ?dl2 = "ta_polled (download_task tk so) dl2'"
    assume I: "?I dl1" and p: "download_poll tk g (ta_waker (download_task tk so) dl1) dl1 = (Ready r, dl2')"
    show "case map_err (\<lambda>error. error) r of
        Ok read \<Rightarrow> achieves T (?next read ?dl2) ?Q | Err e \<Rightarrow> ?Q (Err e) ?dl2"
    proof (cases r)
      case (Ok read)
      show ?thesis
      proof (cases read)
        case None
        then show ?thesis using download_poll_ok(3) [OF conjunct1 [OF I] p] I new less.prems(2) Ok by simp
      next
        case (Some u)
        have "download_ok tk g files (outs @ [dl_frame ?dl2]) ?dl2 \<and> dl_socket ?dl2 = dl_socket dl"
          using download_poll_ok(2) [OF conjunct1 [OF I] p] I by (simp add: Ok Some)
        with frame [of ?dl2 u] show ?thesis by (simp add: Ok Some)
      qed
    qed simp
  qed
  then show ?case by (subst download_frames.simps) (simp only: achieves_try)
qed

lemma download_shutdown_ok:
  fixes dl :: "('h, 'o, 'd, 's, 'e) downloader"
  shows "achieves T (await_result (download_task tk so) Io (download_shutdown so) dl)
     (\<lambda>res dl'. res = Ok () \<longrightarrow> sent (dl_socket dl') = sent (dl_socket dl))"
proof (rule achieves_await_result [where I = "\<lambda>dl'. sent (dl_socket dl') = sent (dl_socket dl)" and
      R = "measure (shutdown_lag \<circ> dl_socket)"])
  show "sent (dl_socket (ta_polled (download_task tk so) y)) = sent (dl_socket dl) \<and>
      (T \<longrightarrow> ta_woken (download_task tk so) (ta_waker (download_task tk so) x) y \<and>
        (ta_polled (download_task tk so) y, x) \<in> measure (shutdown_lag \<circ> dl_socket))"
    if "sent (dl_socket x) = sent (dl_socket dl)"
      "download_shutdown so (ta_waker (download_task tk so) x) x = (Pending, y)"
    for x y :: "('h, 'o, 'd, 's, 'e) downloader"
    using that stream prompt_socket waking_socket
    by (auto simp: download_shutdown_def sent_stream_def prompt_sender_def waking_sender_def download_woken_def
        split: prod.splits)
  show "map_err Io r = Ok () \<longrightarrow>
      sent (dl_socket (ta_polled (download_task tk so) y)) = sent (dl_socket dl)"
    if "sent (dl_socket x) = sent (dl_socket dl)"
      "download_shutdown so (ta_waker (download_task tk so) x) x = (Ready r, y)"
    for x r and y :: "('h, 'o, 'd, 's, 'e) downloader"
    using that stream by (cases r) (auto simp: download_shutdown_def sent_stream_def split: prod.splits)
qed simp_all

end

section \<open>The whole download\<close>

text \<open>
  What a download is to send: the content of the listed segments in the order of their paths, cut to
  the number that \<open>stream.meta\<close> holds, which they contain in full.
\<close>

definition download_sent ::
    "(string \<Rightarrow> u8 list) \<Rightarrow> 'e directory \<Rightarrow> string \<Rightarrow> u64 \<Rightarrow> u8 list \<Rightarrow> bool" where
  "download_sent disk fs directory n bytes \<longleftrightarrow>
     (\<exists>contents entries.
        fs_read_to_string fs (path_join directory ''stream.meta'') = Ok contents \<and>
        parse_u64 (trim contents) = Ok n \<and> fs_read_dir fs directory = Ok entries \<and>
        (let stream = concat (map disk (sort_key components (listed_paths directory entries)))
         in unat n \<le> length stream \<and> bytes = take (unat n) stream))"

context download_env begin

lemma listed_frames:
  assumes "\<forall>f \<in> set files. listed_segment disk (g_block g) f"
  shows "new_files files" "concat (all_frames files) = concat (map (\<lambda>f. disk (sg_path f)) files)"
proof -
  show "new_files files" using assms by (auto simp: new_files_def listed_segment_def)
  have "concat (file_frames f) = disk (sg_path f)" if "f \<in> set files" for f
    using assms that concat_blocks [OF block, of "disk (sg_path f)"] by (simp add: file_frames_def listed_segment_def)
  then show "concat (all_frames files) = concat (map (\<lambda>f. disk (sg_path f)) files)"
    unfolding all_frames_def by (induction files) simp_all
qed

lemma download_started:
  assumes r: "rs_new () (budget_new (g_frames g)) config = Ok reader" and config: "tcp_config g = Some config"
  shows "download_ok tk g files [] \<lparr>dl_waker = cx, dl_reader = reader, dl_files = files, dl_waiting = None, dl_closed = False,
    dl_frame = [], dl_socket = sk, dl_wakes = []\<rparr>"
proof -
  note new = rs_new_inv [OF r]
  have "download_run tk g [] reader" unfolding download_run_def by (rule run_new [OF pool_start r])
  moreover have "alone (r_permit reader) (r_budget reader)" by (rule alone_new [OF new(2)])
  ultimately show ?thesis
    using new tcp_config_Some [OF config]
    by (simp add: download_ok_def waiting_files_def exI [of _ "[]"])
qed

lemma download_stream_ok:
  assumes ok: "download_ok tk g files [] dl" and files: "\<forall>f \<in> set files. listed_segment disk (g_block g) f"
  shows "achieves T (download_stream tk so g n dl) (\<lambda>res dl'. \<forall>m. res = Ok m \<longrightarrow>
    m = n \<and> sent (dl_socket dl') = sent (dl_socket dl) @ take (unat n) (concat (map (\<lambda>f. disk (sg_path f)) files)))"
proof -
  let ?Q = "\<lambda>(res :: (u64, 'e tcp_error) result) dl'. \<forall>m. res = Ok m \<longrightarrow>
    m = n \<and> sent (dl_socket dl') = sent (dl_socket dl) @ take (unat n) (concat (map (\<lambda>f. disk (sg_path f)) files))"
  have frames: "achieves T (download_frames tk so g (unat n) dl) (\<lambda>res dl'. res = Ok () \<longrightarrow>
      sent (dl_socket dl') = sent (dl_socket dl) @ take (unat n) (concat (map (\<lambda>f. disk (sg_path f)) files)))"
    using download_frames_ok [OF ok listed_frames(1) [OF files], of "sent (dl_socket dl)" "unat n" "unat n"]
    by (simp add: listed_frames(2) [OF files])
  have finish: "achieves T (try_then (await_result (download_task tk so) Io (download_shutdown so) dl1) (\<lambda>_ dl. Some (Ok n, dl))) ?Q"
    if "sent (dl_socket dl1) = sent (dl_socket dl) @ take (unat n) (concat (map (\<lambda>f. disk (sg_path f)) files))"
    for dl1 :: "('h, 'o, 'd, 's, 'e) downloader"
    using achieves_mono [OF download_shutdown_ok [of dl1]] that by (fastforce split: result.split)
  show ?thesis
    unfolding download_stream_def achieves_try [of T "download_frames tk so g (unat n) dl"]
    by (rule achieves_mono [OF frames]) (use finish in \<open>auto simp del: achieves_try split: result.split\<close>)
qed

lemma download_achieves:
  fixes fs :: "'e directory"
  assumes config: "T \<Longrightarrow> tcp_config g \<noteq> None"
    and listed: "\<And>entries. fs_read_dir fs directory = Ok entries \<Longrightarrow> listed_sizes disk directory entries"
  shows "achieves T (download tk so fs g cx directory sk) (\<lambda>res y. \<forall>n. res = Ok n \<longrightarrow>
    (\<exists>dl bytes. y = Some dl \<and> sent (dl_socket dl) = sent sk @ bytes \<and> download_sent disk fs directory n bytes))"
    (is "achieves T _ ?Q")
proof (cases "download_list fs g directory :: (u64 \<times> ('h, 'o, 'd) segment list, 'e tcp_error) result")
  case (Err e)
  then show ?thesis by (simp add: download_def)
next
  case (Ok y)
  obtain n and files :: "('h, 'o, 'd) segment list" where y: "y = (n, files)" by fastforce
  obtain entries where entries: "fs_read_dir fs directory = Ok entries"
    using Ok by (auto simp: download_list_def split: result.splits)
  note files = download_list_listed [OF Ok [unfolded y] entries listed [OF entries] block]
  let ?stream = "concat (map (\<lambda>f. disk (sg_path f)) files)"
  have stream: "?stream = concat (map disk (sort_key components (listed_paths directory entries)))"
    by (simp flip: files(1) add: comp_def)
  have sent: "download_sent disk fs directory n (take (unat n) ?stream)"
    using files(3,4) entries unfolding download_sent_def Let_def stream by blast
  show ?thesis
  proof (cases "tcp_config g")
    case None
    with config show ?thesis by (auto simp: download_def Ok y achieves_def)
  next
    case (Some config)
    have "achieves T (map_option (\<lambda>(res, dl). (res, Some dl)) (download_stream tk so g n
        \<lparr>dl_waker = cx, dl_reader = reader, dl_files = files, dl_waiting = None, dl_closed = False,
         dl_frame = [], dl_socket = sk, dl_wakes = []\<rparr>)) ?Q"
      if "rs_new () (budget_new (g_frames g)) config = Ok reader" for reader
      unfolding achieves_map [where f = "\<lambda>res. res"]
      by (rule achieves_mono [OF download_stream_ok [OF download_started [OF that Some] files(2)]]) (use sent in auto)
    then show ?thesis
      by (simp add: download_def Ok y Some del: achieves_map split: result.split)
  qed
qed

end

end
