(* ===== verification/Tcp_Kept.thy ===== *)
theory Tcp_Kept
  imports Tcp_Stored Tcp_Sent
begin

text \<open>
  A directory that keeps what an upload has stored: the segments and \<open>stream.meta\<close>, listed in any
  order. A download finds all segments in it, in the order in which they were written, and accepts
  them.
\<close>

definition upload_kept ::
    "('h \<Rightarrow> string \<Rightarrow> u8 list) \<Rightarrow> (string \<Rightarrow> u8 list) \<Rightarrow> 'e directory \<Rightarrow> string
      \<Rightarrow> ('h, 'o, 'd, 's) uploader \<Rightarrow> bool" where
  "upload_kept disk stored fs directory up \<longleftrightarrow>
     (\<forall>(path, contents) \<in> set (up_meta up). fs_read_to_string fs path = Ok contents) \<and>
     (\<forall>x \<in> set (up_written up). stored (snd x) = segment_committed disk x) \<and>
     (\<exists>files. fs_read_dir fs directory = Ok (map (\<lambda>(name, len). Ok (name, Ok len)) files) \<and>
        (\<forall>(name, len) \<in> set files. unat len = length (stored (path_join directory name))) \<and>
        mset (map (path_join directory \<circ> fst) files) = mset (map snd (up_written up) @ map fst (up_meta up)))"

section \<open>Chunks\<close>

lemma chunks_parts:
  assumes "length xs mod block = 0" "n mod block = 0" "chunk \<in> set (chunks n xs)"
  shows "chunk \<noteq> [] \<and> length chunk \<le> n \<and> length chunk mod block = 0"
  using assms
proof (induction n xs rule: chunks.induct)
  case (1 n xs)
  have step: "n \<noteq> 0" "xs \<noteq> []" "chunk = take n xs \<or> chunk \<in> set (chunks n (drop n xs))"
    using "1.prems"(3) by (simp_all add: chunks.simps [of n xs] split: if_splits)
  show ?case
  proof (cases "length xs \<le> n")
    case True
    with step "1.prems"(1) show ?thesis by (auto simp: chunks.simps [of n "[]"])
  next
    case False
    then have "length (drop n xs) mod block = 0"
      using "1.prems"(1,2) by (simp add: mod_eq_0_iff_dvd dvd_diff_nat)
    with "1.IH" step "1.prems"(2) False show ?thesis by (auto simp: min_def)
  qed
qed

lemma padded_blocks:
  assumes "0 < block"
  shows "length (input @ padding block input) div block = div_ceil (length input) block"
proof (cases "length input mod block = 0")
  case False
  have "length input + (block - length input mod block) = (length input div block + 1) * block"
  proof -
    have "(length input div block + 1) * block = length input div block * block + block" by simp
    with mod_less_divisor [OF assms, of "length input"] div_mult_mod_eq [of "length input" block]
    show ?thesis by linarith
  qed
  with False assms show ?thesis by (simp add: padding_def div_ceil_def)
qed (simp add: padding_def div_ceil_def)

section \<open>The listing\<close>

lemma meta_path: "path_extension (path_join directory ''stream.meta'') = Some ''meta''"
  by (simp add: extension_join file_name_def name_extension_def)

lemma segment_extension: "path_extension (segment_path directory i) = Some ''bin''"
  by (simp add: segment_path_def extension_join segment_file_name)

lemma listed_files:
  "listed_paths directory (map (\<lambda>(name, len). Ok (name, Ok len)) files) =
     filter (\<lambda>path. path_extension path = Some ''bin'') (map (path_join directory \<circ> fst) files)"
  by (induction files) (auto simp: listed_paths_def)

lemma list_segments_accepts:
  assumes "\<forall>(name, len) \<in> set files. path_extension (path_join directory name) = Some ''bin'' \<longrightarrow>
    len \<noteq> 0 \<and> unat len mod g_block g = 0 \<and> unat len \<le> unat (g_frames_per_file g) * g_block g"
  shows "\<exists>x. list_segments g directory (map (\<lambda>(name, len). Ok (name, Ok len)) files) stored acc = Ok x"
  using assms by (induction files arbitrary: stored acc) (auto simp: Let_def)

text \<open>The segments come in the order in which they were written.\<close>

lemma upload_stored_facts:
  assumes "upload_stored disk g directory input up"
  shows "concat (map (segment_committed disk) (up_written up)) = input @ padding (g_block g) input"
    "map (segment_committed disk) (up_written up) =
       chunks (unat (g_frames_per_file g) * g_block g) (input @ padding (g_block g) input)"
    "map snd (up_written up) = map (\<lambda>i. segment_path directory (of_nat i)) [0..<length (up_written up)]"
    "sorted_wrt (\<lambda>p q. components p < components q) (map snd (up_written up))"
    "up_meta up = [(path_join directory ''stream.meta'', decimal (length input) @ ''\<newline>'')]"
  using assms unfolding upload_stored_def by blast+

lemma kept_paths:
  fixes entries :: "(string \<times> (u64, 'e io_error) result, 'e io_error) result list"
  assumes up: "upload_stored disk g directory input up" and entries: "entries = map (\<lambda>(name, len). Ok (name, Ok len)) files"
    and files: "mset (map (path_join directory \<circ> fst) files) = mset (map snd (up_written up) @ map fst (up_meta up))"
  shows "mset (listed_paths directory entries) = mset (map snd (up_written up))"
    and "sort_key components (listed_paths directory entries) = map snd (up_written up)"
proof -
  let ?bin = "\<lambda>path. path_extension path = Some ''bin''"
  note facts = upload_stored_facts [OF up]
  have "filter ?bin (map snd (up_written up)) = map snd (up_written up)"
    unfolding facts(3) by (rule filter_True) (simp add: segment_extension)
  then have bin: "filter ?bin (map snd (up_written up) @ map fst (up_meta up)) = map snd (up_written up)"
    by (simp add: facts(5) meta_path)
  show listed: "mset (listed_paths directory entries) = mset (map snd (up_written up))"
    using arg_cong [OF files, of "filter_mset ?bin"] unfolding entries listed_files mset_filter [symmetric] bin .
  have less: "sorted_wrt (<) (map components (map snd (up_written up)))"
    using facts(4) by (simp add: sorted_wrt_map)
  show "sort_key components (listed_paths directory entries) = map snd (up_written up)"
  proof (rule sort_key_inj_key_eq [OF listed])
    have "inj_on components (set (map snd (up_written up)))"
      using strict_sorted_iff less by (metis distinct_map)
    then show "inj_on components (set (listed_paths directory entries))" using mset_eq_setD [OF listed] by simp
    show "sorted (map components (map snd (up_written up)))" using less strict_sorted_iff by blast
  qed
qed

text \<open>What the directory keeps, in one place.\<close>

lemma upload_kept_facts:
  fixes fs :: "'e directory"
  assumes up: "upload_stored disk g directory input up" and kept: "upload_kept disk stored fs directory up"
  obtains files entries where "fs_read_dir fs directory = Ok entries" "entries = map (\<lambda>(name, len). Ok (name, Ok len)) files"
    "listed_sizes stored directory entries" "\<forall>(name, len) \<in> set files. unat len = length (stored (path_join directory name))"
    "mset (map (path_join directory \<circ> fst) files) = mset (map snd (up_written up) @ map fst (up_meta up))"
    "fs_read_to_string fs (path_join directory ''stream.meta'') = Ok (decimal (length input) @ ''\<newline>'')"
    "map stored (map snd (up_written up)) = map (segment_committed disk) (up_written up)"
proof -
  obtain files where files: "fs_read_dir fs directory = Ok (map (\<lambda>(name, len). Ok (name, Ok len)) files)"
    "\<forall>(name, len) \<in> set files. unat len = length (stored (path_join directory name))"
    "mset (map (path_join directory \<circ> fst) files) = mset (map snd (up_written up) @ map fst (up_meta up))"
    using kept unfolding upload_kept_def by blast
  show thesis
  proof (rule that [OF files(1) refl _ files(2,3)])
    show "listed_sizes stored directory (map (\<lambda>(name, len). Ok (name, Ok len)) files)"
      using files(2) by (auto simp: listed_sizes_def)
    show "fs_read_to_string fs (path_join directory ''stream.meta'') = Ok (decimal (length input) @ ''\<newline>'')"
      using kept by (simp add: upload_kept_def upload_stored_facts(5) [OF up])
    show "map stored (map snd (up_written up)) = map (segment_committed disk) (up_written up)"
      using kept by (simp add: upload_kept_def)
  qed
qed

text \<open>What a download of the directory sends is what was uploaded.\<close>

lemma kept_sent:
  fixes fs :: "'e directory"
  assumes up: "upload_stored disk g directory input up" and kept: "upload_kept disk stored fs directory up"
    and n: "unat n = length input" and sent: "download_sent stored fs directory m bytes"
  shows "m = n \<and> bytes = input"
  using up kept
proof (rule upload_kept_facts)
  fix files and entries :: "(string \<times> (u64, 'e io_error) result, 'e io_error) result list"
  assume entries: "fs_read_dir fs directory = Ok entries" "entries = map (\<lambda>(name, len). Ok (name, Ok len)) files"
    and files: "mset (map (path_join directory \<circ> fst) files) = mset (map snd (up_written up) @ map fst (up_meta up))"
    and meta: "fs_read_to_string fs (path_join directory ''stream.meta'') = Ok (decimal (length input) @ ''\<newline>'')"
    and committed: "map stored (map snd (up_written up)) = map (segment_committed disk) (up_written up)"
  have m: "m = n"
    using sent parse_u64_decimal [of n] by (auto simp: download_sent_def meta n)
  have "bytes = take (unat m) (concat (map stored (sort_key components (listed_paths directory entries))))"
    using sent entries(1) unfolding download_sent_def Let_def by auto
  with m n show ?thesis
    unfolding kept_paths(2) [OF up entries(2) files] committed upload_stored_facts(1) [OF up] by simp
qed

text \<open>A download does not refuse it.\<close>

lemma kept_accepted:
  fixes fs :: "'e directory"
  assumes up: "upload_stored disk g directory input up" and kept: "upload_kept disk stored fs directory up"
    and n: "unat n = length input" and room: "length input + g_block g < 2 ^ 64" and block: "0 < g_block g"
  shows "\<exists>found :: ('h, 'o, 'd) segment list. download_list fs g directory = Ok (n, found)"
  using up kept
proof (rule upload_kept_facts)
  fix files and entries :: "(string \<times> (u64, 'e io_error) result, 'e io_error) result list"
  assume entries: "fs_read_dir fs directory = Ok entries" "entries = map (\<lambda>(name, len). Ok (name, Ok len)) files"
    and sizes: "listed_sizes stored directory entries"
    and lengths: "\<forall>(name, len) \<in> set files. unat len = length (stored (path_join directory name))"
    and files: "mset (map (path_join directory \<circ> fst) files) = mset (map snd (up_written up) @ map fst (up_meta up))"
    and meta: "fs_read_to_string fs (path_join directory ''stream.meta'') = Ok (decimal (length input) @ ''\<newline>'')"
    and committed: "map stored (map snd (up_written up)) = map (segment_committed disk) (up_written up)"
  let ?padded = "input @ padding (g_block g) input"
  note paths = kept_paths [OF up entries(2) files]
  have "len \<noteq> 0 \<and> unat len mod g_block g = 0 \<and> unat len \<le> unat (g_frames_per_file g) * g_block g"
    if f: "(name, len) \<in> set files" "path_extension (path_join directory name) = Some ''bin''" for name len
  proof -
    have "path_join directory name \<in> set (listed_paths directory entries)"
      using f by (force simp: listed_files entries(2))
    then have "stored (path_join directory name) \<in> set (map stored (map snd (up_written up)))"
      using mset_eq_setD [OF paths(1)] by force
    then have "stored (path_join directory name) \<in> set (chunks (unat (g_frames_per_file g) * g_block g) ?padded)"
      unfolding committed upload_stored_facts(2) [OF up] .
    from chunks_parts [OF padded_mod [OF block] _ this] lengths f(1) show ?thesis by fastforce
  qed
  then obtain size' and found :: "('h, 'o, 'd) segment list"
    where segs: "list_segments g directory entries 0 [] = Ok (size', found)"
    using list_segments_accepts [of files directory g 0 "[]"] unfolding entries(2) by fastforce
  from list_segments_listed [OF segs sizes block] have listed: "map sg_path found = listed_paths directory entries"
    "size' = of_nat (length (concat (map (\<lambda>f. stored (sg_path f)) found)))" by auto
  have "mset (map (length \<circ> stored) (map sg_path found)) = mset (map (length \<circ> stored) (map snd (up_written up)))"
    unfolding listed(1) using paths(1) by (metis mset_map)
  then have "sum_list (map (length \<circ> stored) (map sg_path found)) =
      sum_list (map (length \<circ> stored) (map snd (up_written up)))"
    by (metis sum_mset_sum_list)
  also have "\<dots> = length (concat (map stored (map snd (up_written up))))"
    by (simp add: length_concat comp_def)
  also have "\<dots> = length ?padded" unfolding committed upload_stored_facts(1) [OF up] ..
  finally have "length (concat (map (\<lambda>f. stored (sg_path f)) found)) = length ?padded"
    by (simp add: length_concat comp_def)
  then have "size' = of_nat (length ?padded)" using listed(2) by (simp only:)
  moreover have "length ?padded < 2 ^ 64"
    by (rule order_le_less_trans [OF _ room]) (simp add: padding_def)
  moreover have "unat (of_nat k :: u64) = k" if "k < 2 ^ 64" for k
    using that by (simp add: unsigned_of_nat take_bit_nat_eq_self)
  ultimately have size': "unat size' = length ?padded" by metis
  have "unat size' div g_block g = div_ceil (unat n) (g_block g)"
    unfolding size' n by (rule padded_blocks [OF block])
  with segs entries(1) meta parse_u64_decimal [of n] n show ?thesis by (simp add: download_list_def)
qed

end
