(* ===== verification/Memory_Files.thy ===== *)
theory Memory_Files
  imports Segment_Contract Tcp_Transfer
begin

text \<open>
  An instance of what the TCP example uses of tokio, in memory: files that take a few bytes at a
  time and are pending every other time, timers that are pending for a while, sockets that hold
  what is received and what was sent. It shows that the documented behaviour that the properties
  assume can hold, and it runs the examples.
\<close>

section \<open>Files\<close>

text \<open>
  Every operation that waits is pending once or more, and takes the waker of the poll; a stored waker
  is one that the runtime will wake.
\<close>

record memory_file =
  mf_path :: string
  mf_bytes :: "u8 list"
  mf_waker :: "waker option"

datatype memory_opening = MemoryOpening (mo_create: bool) (mo_path: string) (mo_waker: "waker option")

type_synonym memory_timer = "nat \<times> waker option"

definition memory_sleep :: "nat \<Rightarrow> memory_timer" where
  "memory_sleep ms = (ms div 1000, None)"

definition memory_poll_sleep :: "waker \<Rightarrow> memory_timer \<Rightarrow> unit poll \<times> memory_timer" where
  "memory_poll_sleep cx d =
     (if fst d = 0 then (Ready (), 0, None) else (Pending, fst d - 1, Some cx))"

definition memory_poll_opened ::
    "(string \<Rightarrow> u8 list) \<Rightarrow> waker \<Rightarrow> memory_opening
      \<Rightarrow> (memory_file, unit io_error) result poll \<times> memory_opening" where
  "memory_poll_opened disk cx f =
     (if mo_waker f \<noteq> None
      then (Ready (Ok \<lparr>mf_path = mo_path f, mf_bytes = (if mo_create f then [] else disk (mo_path f)),
              mf_waker = None\<rparr>), f)
      else (Pending, MemoryOpening (mo_create f) (mo_path f) (Some cx)))"

text \<open>Every operation on an open file is pending once; then a write takes at most \<open>piece\<close> bytes.\<close>

definition memory_poll_write ::
    "nat \<Rightarrow> waker \<Rightarrow> memory_file \<Rightarrow> u8 list \<Rightarrow> (nat, unit io_error) result poll \<times> memory_file" where
  "memory_poll_write piece cx f bytes =
     (if mf_waker f \<noteq> None
      then (Ready (Ok (length (take piece bytes))),
            f\<lparr>mf_bytes := mf_bytes f @ take piece bytes, mf_waker := None\<rparr>)
      else (Pending, f\<lparr>mf_waker := Some cx\<rparr>))"

definition memory_poll_flush ::
    "waker \<Rightarrow> memory_file \<Rightarrow> (unit, unit io_error) result poll \<times> memory_file" where
  "memory_poll_flush cx f =
     (if mf_waker f \<noteq> None then (Ready (Ok ()), f) else (Pending, f\<lparr>mf_waker := Some cx\<rparr>))"

definition memory_poll_read ::
    "nat \<Rightarrow> waker \<Rightarrow> memory_file \<Rightarrow> nat \<Rightarrow> (u8 list, unit io_error) result poll \<times> memory_file" where
  "memory_poll_read piece cx f room =
     (if mf_waker f \<noteq> None
      then (Ready (Ok (take (min piece room) (mf_bytes f))),
            f\<lparr>mf_bytes := drop (min piece room) (mf_bytes f), mf_waker := None\<rparr>)
      else (Pending, f\<lparr>mf_waker := Some cx\<rparr>))"

definition memory_tokio ::
    "(string \<Rightarrow> u8 list) \<Rightarrow> nat \<Rightarrow> (memory_file, memory_opening, memory_timer, unit) tokio" where
  "memory_tokio disk piece = \<lparr>tk_sleep = memory_sleep, tk_poll_sleep = memory_poll_sleep,
     tk_create = (\<lambda>path. MemoryOpening True path None),
     tk_open = (\<lambda>path. MemoryOpening False path None),
     tk_poll_opened = memory_poll_opened disk, tk_poll_write = memory_poll_write piece,
     tk_poll_flush = memory_poll_flush, tk_poll_read = memory_poll_read piece,
     tk_sleep_wakes = (\<lambda>cx d. snd d = Some cx), tk_opened_wakes = (\<lambda>cx f. mo_waker f = Some cx),
     tk_file_wakes = (\<lambda>cx f. mf_waker f = Some cx)\<rparr>"

lemmas memory_tokio_defs = memory_tokio_def memory_sleep_def memory_poll_sleep_def
  memory_poll_opened_def memory_poll_write_def memory_poll_flush_def memory_poll_read_def

definition memory_disk :: "memory_file \<Rightarrow> string \<Rightarrow> u8 list" where
  "memory_disk f path = (if path = mf_path f then mf_bytes f else [])"

definition memory_opens :: "bool \<Rightarrow> memory_opening \<Rightarrow> string \<Rightarrow> bool" where
  "memory_opens writing f path \<longleftrightarrow> mo_create f = writing \<and> mo_path f = path"

interpretation memory_output: output_files "memory_tokio disk piece" "memory_opens True" mf_path mf_bytes
    memory_disk for disk piece
  by unfold_locales
    (auto simp: memory_tokio_defs memory_opens_def memory_disk_def min_def split: if_splits)

interpretation memory_input: segment_reads "memory_tokio disk (Suc piece)" "memory_opens False" mf_path
    mf_bytes disk "Suc block" for disk piece block
  by unfold_locales (auto simp: memory_tokio_defs memory_opens_def split: if_splits)

section \<open>Sockets\<close>

text \<open>A socket with the fragments that are to be received and the bytes that were sent.\<close>

record memory_socket =
  ms_input :: "u8 list list"
  ms_sent :: "u8 list"
  ms_waker :: "waker option"

definition memory_socket_read ::
    "waker \<Rightarrow> memory_socket \<Rightarrow> nat \<Rightarrow> (u8 list, unit io_error) result poll \<times> memory_socket" where
  "memory_socket_read cx sk room =
     (if ms_waker sk = None then (Pending, sk\<lparr>ms_waker := Some cx\<rparr>)
      else case dropWhile (\<lambda>bytes. bytes = []) (ms_input sk) of
        [] \<Rightarrow> (Ready (Ok []), sk)
      | bytes # rest \<Rightarrow>
          (Ready (Ok (take room bytes)),
           sk\<lparr>ms_input := (if length bytes \<le> room then rest else drop room bytes # rest),
              ms_waker := None\<rparr>))"

definition memory_socket_write_all ::
    "waker \<Rightarrow> memory_socket \<times> u8 list
      \<Rightarrow> (unit, unit io_error) result poll \<times> memory_socket \<times> u8 list" where
  "memory_socket_write_all cx w =
     (case w of
        (sk, []) \<Rightarrow> (Ready (Ok ()), sk\<lparr>ms_waker := None\<rparr>, [])
      | (sk, b # bytes) \<Rightarrow> (Pending, sk\<lparr>ms_sent := ms_sent sk @ [b], ms_waker := Some cx\<rparr>, bytes))"

definition memory_socket :: "(memory_socket, memory_socket \<times> u8 list, unit) socket" where
  "memory_socket = \<lparr>so_poll_read = memory_socket_read, so_write_all = Pair,
     so_poll_write_all = memory_socket_write_all, so_stream = fst,
     so_first = (\<lambda>(sk, bytes). even (length bytes)),
     so_poll_shutdown = (\<lambda>cx sk. (Ready (Ok ()), sk)),
     so_wakes = (\<lambda>cx sk. ms_waker sk = Some cx),
     so_write_wakes = (\<lambda>cx (sk, bytes). ms_waker sk = Some cx)\<rparr>"

text \<open>A directory with the given text of \<open>stream.meta\<close> and entries.\<close>

definition memory_directory ::
    "string \<Rightarrow> (string \<times> (u64, unit io_error) result, unit io_error) result list \<Rightarrow> unit directory" where
  "memory_directory meta entries = \<lparr>fs_remove_dir_all = (\<lambda>path. Ok ()), fs_create_dir = (\<lambda>path. Ok ()),
     fs_write = (\<lambda>path text. Ok ()), fs_read_to_string = (\<lambda>path. Ok meta),
     fs_read_dir = (\<lambda>path. Ok entries)\<rparr>"

definition small_geometry :: geometry where
  "small_geometry = \<lparr>g_block = 2, g_frames_per_file = 2, g_files = 2, g_frames = 3\<rparr>"

end
