(* ===== verification/Tcp_Properties.thy ===== *)
theory Tcp_Properties
  imports Tcp_Kept Memory_Files
begin

text \<open>
  What the TCP example guarantees, for every tokio that behaves as documented: \<open>Segment\<close> keeps the
  contracts of both traits, \<open>upload\<close> stores what it receives, \<open>download\<close> sends what is stored, so that
  what was uploaded comes back, and both return. The witnesses run on the files and sockets in memory
  of \<open>Memory_Files\<close>.
\<close>

section \<open>The instance in memory\<close>

definition memory_opening_lag :: "memory_opening \<Rightarrow> nat" where
  "memory_opening_lag f = (if mo_waker f \<noteq> None then 0 else 1)"

definition memory_file_lag :: "memory_file \<Rightarrow> nat" where
  "memory_file_lag f = (if mf_waker f \<noteq> None then 0 else 1)"

definition memory_socket_lag :: "memory_socket \<Rightarrow> nat" where
  "memory_socket_lag sk = (if ms_waker sk \<noteq> None then 0 else 1)"

lemmas memory_lags = memory_opening_lag_def memory_file_lag_def memory_socket_lag_def

definition memory_rest :: "memory_socket \<Rightarrow> u8 list" where
  "memory_rest sk = concat (ms_input sk)"

lemma memory_written: "written_files (memory_tokio disk most) (memory_opens True) mf_path mf_bytes memory_disk"
  using memory_output.output_files_axioms by (simp add: output_files_iff)

lemma memory_read:
  "read_files (memory_tokio disk (Suc most)) (memory_opens False) mf_path mf_bytes disk"
  using memory_input.input_files_axioms by (simp add: input_files_iff)

lemma memory_prompt:
  "prompt_files (memory_tokio disk most) memory_opening_lag memory_file_lag fst 1"
  by (auto simp: prompt_files_def memory_tokio_defs memory_lags split: if_splits)

lemma concat_dropWhile_Nil: "concat (dropWhile (\<lambda>xs. xs = []) xss) = concat xss"
  by (induction xss) simp_all

lemma concat_dropWhile_Cons:
  assumes "dropWhile (\<lambda>xs. xs = []) xss = ys # yss"
  shows "concat xss = ys @ concat yss \<and> ys \<noteq> []"
  using concat_dropWhile_Nil [of xss] hd_dropWhile [of "\<lambda>xs. xs = []" xss] assms by simp

lemma memory_received: "received_stream memory_socket memory_rest"
  by (auto simp: received_stream_def memory_socket_def memory_socket_read_def memory_rest_def
      dest!: concat_dropWhile_Cons
      simp flip: append_assoc split: if_splits list.splits)

definition memory_sending :: "memory_socket \<times> u8 list \<Rightarrow> u8 list \<Rightarrow> bool" where
  "memory_sending w bytes \<longleftrightarrow> ms_sent (fst w) @ snd w = bytes"

lemma memory_sent: "sent_stream memory_socket ms_sent memory_sending"
  by (auto simp: sent_stream_def memory_socket_def memory_socket_write_all_def memory_sending_def
      split: list.splits)

lemma memory_sender: "prompt_sender memory_socket (\<lambda>w. length (snd w)) (\<lambda>_. 0)"
  by (auto simp: prompt_sender_def memory_socket_def memory_socket_write_all_def split: list.splits)

lemma memory_receiver: "prompt_receiver memory_socket memory_socket_lag"
  by (auto simp: prompt_receiver_def memory_socket_def memory_socket_read_def memory_lags
      split: if_splits list.splits)

lemma memory_waking_files: "waking_files (memory_tokio disk most)"
  by (auto simp: waking_files_def memory_tokio_defs split: if_splits)

lemma memory_waking_receiver: "waking_receiver memory_socket"
  by (auto simp: waking_receiver_def memory_socket_def memory_socket_read_def split: if_splits list.splits)

lemma memory_waking_sender: "waking_sender memory_socket"
  by (auto simp: waking_sender_def memory_socket_def memory_socket_write_all_def split: list.splits)

lemmas memory_waking = memory_waking_files memory_waking_receiver memory_waking_sender

interpretation memory_prompt: prompt "memory_tokio disk most" memory_opening_lag memory_file_lag fst 1
  for disk most
  unfolding prompt_iff by (rule memory_prompt)

interpretation memory_patient: patient "segment_write_ops (memory_tokio disk most)"
    "segment_open_lag (memory_tokio disk most) memory_opening_lag fst True"
    "segment_write_lag memory_file_lag 1" "segment_close_lag (memory_tokio disk most) memory_file_lag fst 1"
  for disk most
  by (rule memory_prompt.segment_patient)

interpretation memory_patient_reads: patient_reads "segment_read_ops (memory_tokio disk most) block"
    "segment_open_lag (memory_tokio disk most) memory_opening_lag fst False"
    "segment_read_lag memory_file_lag 1 block"
  for disk most block
  by (rule memory_prompt.segment_patient_reads)

interpretation memory_upload: upload_env "memory_tokio disk most" "memory_opens True" mf_path mf_bytes
    memory_disk memory_socket memory_rest True memory_opening_lag memory_file_lag fst 1 memory_socket_lag
  for disk most
  by (intro upload_env.intro upload_env_axioms.intro memory_output.output_files_axioms memory_received
      memory_prompt memory_receiver memory_waking)

interpretation memory_download: download_env "memory_tokio disk (Suc most)" "memory_opens False" mf_path mf_bytes
    disk "\<lparr>g_block = Suc block, g_frames_per_file = fpf, g_files = files, g_frames = frames\<rparr>"
    memory_socket ms_sent memory_sending True memory_opening_lag memory_file_lag fst 1
    "\<lambda>w. length (snd w)" "\<lambda>_. 0"
  for disk most block fpf files frames
  by (intro download_env.intro download_env_axioms.intro memory_sent memory_prompt memory_sender memory_waking)
    (simp add: memory_input.segment_reads_axioms)

section \<open>Segments\<close>

text \<open>
  C15: \<open>Segment\<close> is a \<open>WriteFile\<close> as its trait documents: when \<open>File::create\<close>, \<open>poll_write\<close> and
  \<open>poll_flush\<close> behave as documented, a segment that is opened, written frame by frame and closed holds
  under its path exactly the frames in order; a frame that was interrupted goes on where it stopped,
  and an attempt that failed starts from an empty file.
\<close>

theorem segment_write_contract:
  assumes "written_files tk creating names data disk"
  shows "write_file_contract (segment_write_ops tk) (segment_rep creating names data) [] (@)
    (segment_committed disk)"
  by (rule output_files.segment_contract) (use assms in \<open>simp add: output_files_iff\<close>)

lemma segment_write_contract_witness:
  "write_file_contract (segment_write_ops (memory_tokio (\<lambda>_. []) 3)) (segment_rep (memory_opens True) mf_path mf_bytes)
     [] (@) (segment_committed memory_disk)"
  by (rule segment_write_contract [OF memory_written])

text \<open>
  C16: \<open>Segment\<close> is a \<open>ReadFile\<close> as its trait documents: when \<open>File::open\<close> and \<open>poll_read\<close> behave as
  documented, it yields the whole blocks of its file in order, and a block that was interrupted goes
  on where it stopped.
\<close>

theorem segment_read_contract:
  assumes "read_files tk reads names rest disk" "0 < block"
  shows "read_file_contract (segment_read_ops tk block) (segment_fits block reads names rest disk)
    (segment_content block rest disk)"
  by (intro segment_reads.segment_contract segment_reads.intro segment_reads_axioms.intro)
    (use assms in \<open>simp_all add: input_files_iff\<close>)

lemma segment_read_contract_witness:
  "read_file_contract (segment_read_ops (memory_tokio (\<lambda>_. [1, 2, 3]) 3) 2)
     (segment_fits 2 (memory_opens False) mf_path mf_bytes (\<lambda>_. [1, 2, 3]))
     (segment_content 2 mf_bytes (\<lambda>_. [1, 2, 3]))"
  using segment_read_contract [OF memory_read [of "\<lambda>_. [1, 2, 3]" 2], of 2] by simp

section \<open>The upload\<close>

text \<open>
  C7: an \<open>upload\<close> that succeeds has stored what it received: it returns the number of bytes that the
  socket yielded to its end; the files it took out of the writer hold them in order, filled up with
  zeros to whole blocks and cut into segments of \<open>FRAMES_PER_FILE\<close> blocks, the last one shorter, none
  empty; file \<open>i\<close> lies under the path of segment \<open>i\<close>; and \<open>stream.meta\<close> was written once, with that
  number in decimal.
\<close>

theorem upload_stores:
  assumes "written_files tk creating names data disk" "received_stream so rest" "g_block g < 2 ^ 64"
    and "upload tk so fs g cx directory sk = Some (Ok n, y)"
  shows "unat n = length (rest sk) \<and> (\<exists>up. y = Some up \<and> upload_stored disk g directory (rest sk) up)"
proof -
  have "upload_env tk creating names data disk so rest False opening_lag file_lag sleep_lag bound socket_lag"
    for opening_lag file_lag sleep_lag bound socket_lag
    using assms(1,2) by (simp add: upload_env_def upload_env_axioms_def output_files_iff)
  from upload_env.upload_achieves [OF this _ assms(3), of fs cx directory sk] assms(4)
  show ?thesis by (auto simp: achieves_False)
qed

definition example_socket :: memory_socket where
  "example_socket = \<lparr>ms_input = [[1], [2, 3, 4], [], [5]], ms_sent = [], ms_waker = None\<rparr>"

lemma example_rest: "memory_rest example_socket = [1, 2, 3, 4, 5]"
  by (simp add: memory_rest_def example_socket_def)

lemma example_length: "length (memory_rest example_socket) = 5"
  by (simp add: example_rest)

lemma example_upload:
  "case upload (memory_tokio (\<lambda>_. []) 3) memory_socket (memory_directory [] []) small_geometry 7 ''d'' example_socket of
     Some (Ok n, Some up) \<Rightarrow> n = 5 | _ \<Rightarrow> False"
  by code_simp

lemma upload_stores_witness:
  "\<exists>up. upload (memory_tokio (\<lambda>_. []) 3) memory_socket (memory_directory [] []) small_geometry 7 ''d'' example_socket =
       Some (Ok 5, Some up) \<and> upload_stored memory_disk small_geometry ''d'' [1, 2, 3, 4, 5] up"
proof -
  obtain up where up: "upload (memory_tokio (\<lambda>_. []) 3) memory_socket (memory_directory [] []) small_geometry 7 ''d''
      example_socket = Some (Ok 5, Some up)"
    using example_upload by (auto split: option.splits prod.splits result.splits)
  from upload_stores [OF memory_written memory_received _ this]
  have "upload_stored memory_disk small_geometry ''d'' [1, 2, 3, 4, 5] up"
    by (simp add: small_geometry_def example_rest)
  with up show ?thesis by blast
qed

text \<open>
  C9: an \<open>upload\<close> returns, whatever errors occur on the way, and no wake-up is lost on it. Awaiting
  polls again only when the waker of the last poll was woken, by the scheduler itself or by the
  runtime, so that a poll that is pending without either never returns. When every file, timer and
  socket is pending only a bounded number of times in a row and takes the waker each time, and the
  configuration is valid, the loops over the socket, the writer and the closing all end: with the
  number of bytes received and those bytes stored as C7 says, or with an error.
\<close>

theorem upload_returns:
  assumes "written_files tk creating names data disk" "received_stream so rest" "g_block g < 2 ^ 64"
    and "prompt_files tk opening_lag file_lag sleep_lag bound" "prompt_receiver so socket_lag"
    and "waking_files tk" "waking_receiver so" "tcp_config g = Some config"
  shows "\<exists>res y. upload tk so fs g cx directory sk = Some (res, y) \<and>
    (case res of
       Ok n \<Rightarrow> unat n = length (rest sk) \<and>
         (\<exists>up. y = Some up \<and> upload_stored disk g directory (rest sk) up)
     | Err _ \<Rightarrow> True)"
proof -
  have "upload_env tk creating names data disk so rest True opening_lag file_lag sleep_lag bound socket_lag"
    using assms(1,2,4-7) by (simp add: upload_env_def upload_env_axioms_def output_files_iff)
  from upload_env.upload_achieves [OF this _ assms(3), of fs cx directory sk] assms(8)
  obtain res y where "upload tk so fs g cx directory sk = Some (res, y)"
    "\<forall>n. res = Ok n \<longrightarrow> unat n = length (rest sk) \<and>
      (\<exists>up. y = Some up \<and> upload_stored disk g directory (rest sk) up)"
    by (auto simp: achieves_True)
  then show ?thesis by (intro exI [of _ res] exI [of _ y]) (simp split: result.split)
qed

lemma tcp_geometry_config: "tcp_config tcp_geometry \<noteq> None"
  by (simp add: tcp_config_def tcp_geometry_def window_new_def window_validate_def Let_def)

lemma upload_returns_witness:
  "\<exists>res y. upload (memory_tokio (\<lambda>_. []) 3) memory_socket (memory_directory [] []) tcp_geometry 7 ''d'' example_socket =
       Some (res, y) \<and>
     (case res of
        Ok n \<Rightarrow> unat n = 5 \<and>
          (\<exists>up. y = Some up \<and> upload_stored memory_disk tcp_geometry ''d'' [1, 2, 3, 4, 5] up)
      | Err _ \<Rightarrow> True)"
proof -
  obtain config where "tcp_config tcp_geometry = Some config" using tcp_geometry_config by blast
  then have "\<exists>res y. upload (memory_tokio (\<lambda>_. []) 3) memory_socket (memory_directory [] []) tcp_geometry 7 ''d''
        example_socket = Some (res, y) \<and>
      (case res of
         Ok n \<Rightarrow> unat n = length (memory_rest example_socket) \<and>
           (\<exists>up. y = Some up \<and> upload_stored memory_disk tcp_geometry ''d'' (memory_rest example_socket) up)
       | Err _ \<Rightarrow> True)"
    by (intro upload_returns [OF memory_written memory_received _ memory_prompt memory_receiver memory_waking(1,2)])
      (simp_all add: tcp_geometry_def)
  then show ?thesis unfolding example_length unfolding example_rest .
qed

section \<open>The download\<close>

text \<open>
  C8: a \<open>download\<close> that succeeds has sent what is stored: it returns the number that \<open>stream.meta\<close>
  holds, and what it sent is that many bytes of the segments that the directory lists, in the order
  of their paths, which hold no fewer.
\<close>

theorem download_sends:
  assumes "read_files tk reads names rest disk" "sent_stream so sent sending" "0 < g_block g"
    and "\<And>entries. fs_read_dir fs directory = Ok entries \<Longrightarrow> listed_sizes disk directory entries"
    and "download tk so fs g cx directory sk = Some (Ok n, y)"
  shows "\<exists>dl bytes. y = Some dl \<and> sent (dl_socket dl) = sent sk @ bytes \<and> download_sent disk fs directory n bytes"
proof -
  have "download_env tk reads names rest disk g so sent sending False opening_lag file_lag sleep_lag bound
      write_lag shutdown_lag" for opening_lag file_lag sleep_lag bound write_lag shutdown_lag
    using assms(1-3)
    by (simp add: download_env_def download_env_axioms_def segment_reads_def segment_reads_axioms_def input_files_iff)
  from download_env.download_achieves [OF this _ assms(4), where fs = fs and cx = cx and sk = sk] assms(5)
  show ?thesis by (auto simp: achieves_False)
qed

definition example_disk :: "string \<Rightarrow> u8 list" where
  "example_disk path =
     (if path = segment_path ''d'' 0 then [1, 2, 3, 4]
      else if path = segment_path ''d'' 1 then [5, 0] else [53, 10])"

definition example_files :: "(string \<times> u64) list" where
  "example_files = [(segment_name 1, 2), (''stream.meta'', 2), (segment_name 0, 4)]"

definition example_directory :: "unit directory" where
  "example_directory = memory_directory (decimal 5 @ ''\<newline>'') (map (\<lambda>(name, len). Ok (name, Ok len)) example_files)"

definition empty_socket :: memory_socket where
  "empty_socket = \<lparr>ms_input = [], ms_sent = [], ms_waker = None\<rparr>"

lemma example_download:
  "case download (memory_tokio example_disk 3) memory_socket example_directory small_geometry 7 ''d'' empty_socket of
     Some (Ok n, Some dl) \<Rightarrow> n = 5 \<and> ms_sent (dl_socket dl) = [1, 2, 3, 4, 5] | _ \<Rightarrow> False"
  by code_simp

lemma example_lengths:
  "\<forall>(name, len) \<in> set example_files. unat len = length (example_disk (path_join ''d'' name))"
  by code_simp

lemma example_listed:
  "fs_read_dir example_directory ''d'' = Ok entries \<Longrightarrow> listed_sizes example_disk ''d'' entries"
  using example_lengths by (auto simp: example_directory_def memory_directory_def listed_sizes_def)

lemma download_sends_witness:
  "\<exists>dl. download (memory_tokio example_disk 3) memory_socket example_directory small_geometry 7 ''d'' empty_socket =
       Some (Ok 5, Some dl) \<and> ms_sent (dl_socket dl) = [1, 2, 3, 4, 5] \<and>
     download_sent example_disk example_directory ''d'' 5 [1, 2, 3, 4, 5]"
proof -
  obtain dl where dl: "download (memory_tokio example_disk 3) memory_socket example_directory small_geometry 7 ''d''
      empty_socket = Some (Ok 5, Some dl)" "ms_sent (dl_socket dl) = [1, 2, 3, 4, 5]"
    using example_download by (auto split: option.splits prod.splits result.splits)
  from download_sends [OF memory_read [of example_disk 2, simplified] memory_sent _ example_listed dl(1)]
  have "download_sent example_disk example_directory ''d'' 5 [1, 2, 3, 4, 5]"
    by (simp add: small_geometry_def dl(2) empty_socket_def)
  with dl show ?thesis by blast
qed

text \<open>
  C10: a \<open>download\<close> returns, whatever errors occur on the way, and no wake-up is lost on it: awaiting
  polls again only when the waker of the last poll was woken, by the loop, by the scheduler or by
  the runtime. When every file, timer and socket is pending only a bounded number of times in a row
  and takes the waker each time, and the configuration is valid, the loop that feeds and reads the
  scheduler, each \<open>select!\<close> that sends a frame while the reader goes on, and the shutdown all end:
  with the stored bytes sent as C8 says, or with an error.
\<close>

theorem download_returns:
  assumes "read_files tk reads names rest disk" "sent_stream so sent sending" "0 < g_block g"
    and "\<And>entries. fs_read_dir fs directory = Ok entries \<Longrightarrow> listed_sizes disk directory entries"
    and "prompt_files tk opening_lag file_lag sleep_lag bound" "prompt_sender so write_lag shutdown_lag"
    and "waking_files tk" "waking_sender so" "tcp_config g = Some config"
  shows "\<exists>res y. download tk so fs g cx directory sk = Some (res, y) \<and>
    (case res of
       Ok n \<Rightarrow> \<exists>dl bytes. y = Some dl \<and> sent (dl_socket dl) = sent sk @ bytes \<and>
         download_sent disk fs directory n bytes
     | Err _ \<Rightarrow> True)"
proof -
  have "download_env tk reads names rest disk g so sent sending True opening_lag file_lag sleep_lag bound
      write_lag shutdown_lag"
    using assms(1-3,5-8)
    by (simp add: download_env_def download_env_axioms_def segment_reads_def segment_reads_axioms_def input_files_iff)
  from download_env.download_achieves [OF this _ assms(4), where fs = fs and cx = cx and sk = sk] assms(9)
  obtain res y where "download tk so fs g cx directory sk = Some (res, y)"
    "\<forall>n. res = Ok n \<longrightarrow> (\<exists>dl bytes. y = Some dl \<and> sent (dl_socket dl) = sent sk @ bytes \<and>
      download_sent disk fs directory n bytes)"
    by (auto simp: achieves_True)
  then show ?thesis by (intro exI [of _ res] exI [of _ y]) (simp split: result.split)
qed

lemma download_returns_witness:
  "\<exists>res y. download (memory_tokio example_disk 3) memory_socket example_directory tcp_geometry 7 ''d'' empty_socket =
       Some (res, y) \<and>
     (case res of
        Ok n \<Rightarrow> \<exists>dl bytes. y = Some dl \<and> ms_sent (dl_socket dl) = ms_sent empty_socket @ bytes \<and>
          download_sent example_disk example_directory ''d'' n bytes
      | Err _ \<Rightarrow> True)"
proof -
  obtain config where "tcp_config tcp_geometry = Some config" using tcp_geometry_config by blast
  from download_returns [OF memory_read [of example_disk 2, simplified] memory_sent _ example_listed memory_prompt
      memory_sender memory_waking(1,3) this]
  show ?thesis by (simp add: tcp_geometry_def)
qed

section \<open>There and back\<close>

text \<open>
  C2: what was uploaded comes back. When an \<open>upload\<close> has succeeded and the directory keeps what it
  stored, listed in any order, then a \<open>download\<close> with the same sizes accepts the segments, and if it
  succeeds it returns the same number and has sent exactly the bytes that the upload received,
  without the padding.
\<close>

theorem tcp_round_trip:
  assumes "written_files tk creating names data disk" "received_stream so received"
    and "0 < g_block g" "length (received sk) + g_block g < 2 ^ 64"
    and "upload tk so fs g cx directory sk = Some (Ok n, Some up)"
    and "upload_kept disk stored fs' directory up"
    and "read_files tk' reads names' rest stored" "sent_stream so' sent sending"
  shows "(\<exists>files :: ('h, 'o, 'd) segment list. download_list fs' g directory = Ok (n, files)) \<and>
    (\<forall>m y. download tk' so' fs' g cx' directory sk' = Some (Ok m, y) \<longrightarrow>
       m = n \<and> (\<exists>dl. y = Some dl \<and> sent (dl_socket dl) = sent sk' @ received sk))"
proof -
  have env: "upload_env tk creating names data disk so received False opening_lag file_lag sleep_lag bound socket_lag"
    for opening_lag file_lag sleep_lag bound socket_lag
    using assms(1,2) by (simp add: upload_env_def upload_env_axioms_def output_files_iff)
  have "g_block g < 2 ^ 64" using assms(4) by simp
  from upload_env.upload_achieves [OF env _ this, of fs cx directory sk] assms(5)
  have up: "upload_stored disk g directory (received sk) up" and n: "unat n = length (received sk)"
    by (auto simp: achieves_False)
  have listed: "listed_sizes stored directory entries" if "fs_read_dir fs' directory = Ok entries" for entries
    using up assms(6) by (rule upload_kept_facts) (use that in simp)
  have env': "download_env tk' reads names' rest stored g so' sent sending False opening_lag file_lag sleep_lag bound
      write_lag shutdown_lag" for opening_lag file_lag sleep_lag bound write_lag shutdown_lag
    using assms(3,7,8)
    by (simp add: download_env_def download_env_axioms_def segment_reads_def segment_reads_axioms_def input_files_iff)
  have "m = n \<and> (\<exists>dl. y = Some dl \<and> sent (dl_socket dl) = sent sk' @ received sk)"
    if sent: "download tk' so' fs' g cx' directory sk' = Some (Ok m, y)" for m y
  proof -
    obtain dl bytes where dl: "y = Some dl" "sent (dl_socket dl) = sent sk' @ bytes"
      "download_sent stored fs' directory m bytes"
      using download_env.download_achieves [OF env' _ listed, where fs = fs' and cx = cx' and sk = sk'] sent by (auto simp: achieves_False)
    with kept_sent [OF up assms(6) n dl(3)] show ?thesis by simp
  qed
  with kept_accepted [OF up assms(6) n assms(4,3)] show ?thesis by blast
qed

lemma example_kept:
  assumes "upload_stored memory_disk small_geometry ''d'' [1, 2, 3, 4, 5] up"
  shows "upload_kept memory_disk example_disk example_directory ''d'' up"
proof -
  note facts = upload_stored_facts [OF assms]
  have "length [1, 2, 3, 4, 5 :: u8] = 5" by simp
  note meta = facts(5) [unfolded this]
  have chunks: "chunks (unat (g_frames_per_file small_geometry) * g_block small_geometry)
      ([1, 2, 3, 4, 5] @ padding (g_block small_geometry) [1, 2, 3, 4, 5]) = [[1, 2, 3, 4], [5, 0 :: u8]]"
    by code_simp
  have two: "length (up_written up) = 2" using arg_cong [OF facts(2), of length] unfolding chunks by simp
  have paths: "map snd (up_written up) = [segment_path ''d'' 0, segment_path ''d'' 1]"
    unfolding facts(3) two by (simp add: upt_rec)
  have "map example_disk (map snd (up_written up)) = map (segment_committed memory_disk) (up_written up)"
    unfolding facts(2) chunks paths by code_simp
  then have "\<forall>x \<in> set (up_written up). example_disk (snd x) = segment_committed memory_disk x" by simp
  moreover have "fs_read_dir example_directory ''d'' = Ok (map (\<lambda>(name, len). Ok (name, Ok len)) example_files)"
    "fs_read_to_string example_directory path = Ok (decimal 5 @ ''\<newline>'')" for path
    by (simp_all add: example_directory_def memory_directory_def)
  moreover have "mset (map (path_join ''d'' \<circ> fst) example_files) =
      mset (map snd (up_written up) @ map fst (up_meta up))"
    unfolding paths meta by (simp add: example_files_def segment_path_def)
  ultimately show ?thesis
    using example_lengths unfolding upload_kept_def meta by auto
qed

lemma tcp_round_trip_witness:
  "\<exists>up dl. upload (memory_tokio (\<lambda>_. []) 3) memory_socket (memory_directory [] []) small_geometry 7 ''d''
       example_socket = Some (Ok 5, Some up) \<and>
     download (memory_tokio example_disk 3) memory_socket example_directory small_geometry 7 ''d'' empty_socket =
       Some (Ok 5, Some dl) \<and>
     ms_sent (dl_socket dl) = memory_rest example_socket"
proof -
  obtain up where up: "upload (memory_tokio (\<lambda>_. []) 3) memory_socket (memory_directory [] []) small_geometry 7 ''d''
      example_socket = Some (Ok 5, Some up)"
    using example_upload by (auto split: option.splits prod.splits result.splits)
  have "upload_env (memory_tokio (\<lambda>_. []) 3) (memory_opens True) mf_path mf_bytes memory_disk memory_socket
      memory_rest False (\<lambda>_. 0) (\<lambda>_. 0) (\<lambda>_. 0) 0 (\<lambda>_. 0)"
    using memory_written memory_received by (simp add: upload_env_def upload_env_axioms_def output_files_iff)
  from upload_env.upload_achieves [OF this, of small_geometry "memory_directory [] []" 7 "''d''" example_socket] up
  have "upload_stored memory_disk small_geometry ''d'' [1, 2, 3, 4, 5] up"
    by (simp add: achieves_False example_rest small_geometry_def)
  note kept = example_kept [OF this]
  obtain dl where dl: "download (memory_tokio example_disk 3) memory_socket example_directory small_geometry 7 ''d''
      empty_socket = Some (Ok 5, Some dl)"
    using example_download by (auto split: option.splits prod.splits result.splits)
  have "0 < g_block small_geometry" "length (memory_rest example_socket) + g_block small_geometry < 2 ^ 64"
    by (simp_all add: small_geometry_def example_rest)
  from tcp_round_trip [OF memory_written memory_received this up kept memory_read [of example_disk 2, simplified]
      memory_sent] dl
  have "ms_sent (dl_socket dl) = ms_sent empty_socket @ memory_rest example_socket" by blast
  with up dl show ?thesis by (auto simp: empty_socket_def)
qed

end
