(* ===== verification/Spec2Isabelle.thy ===== *)
theory Spec2Isabelle
  imports Budget_Properties Copy_Properties Tcp_Properties
begin

text \<open>
  CARBON I/O: verification of the \<open>carbon-io\<close> crate, which reads and writes sequences of files
  through bounded windows of frames on a shared memory budget, without background tasks.

  The program. \<open>src/budget.rs\<close> holds the shared budget: permits grow by \<open>poll_grow\<close>, wait in a
  first-in first-out queue when the capacity is not there, and give capacity back by \<open>shrink_to\<close> and
  by being dropped, which serves the queue. \<open>src/read.rs\<close> is \<open>ReadScheduler\<close>: it drives several
  \<open>ReadFile\<close> backends at once and hands their frames out in admission order. \<open>src/write.rs\<close> is
  \<open>WriteScheduler\<close>: it assembles borrowed input into frames (\<open>FrameAllocator\<close>, \<open>PartialFrame\<close>), assigns
  them to a queue of \<open>WriteFile\<close> destinations by their capacities, drives the destinations, replays
  failed attempts, and hands back the result of each. Both draw on one permit of the budget, share
  the window configuration of \<open>src/config.rs\<close> and the errors of \<open>src/error.rs\<close>, and see their backends
  only through the traits of \<open>src/traits.rs\<close>. \<open>examples/memory\<close> has backends in memory;
  \<open>examples/tcp_to_file\<close> is a server that stores what it receives from a socket in segment files and
  sends them back, with a backend \<open>Segment\<close> for files on disk.

  Conventions. Each method is a definition that takes the state and returns its result with the new
  state. \<open>Poll\<close> and \<open>Result\<close> are datatypes, so every error and early return is a branch. Word
  types are kept where the code lets them wrap (\<open>u32\<close> counters, \<open>usize\<close> stream positions); sizes
  that the code bounds are natural numbers, and the invariants bound them by the total capacity. A
  waker is a number, and wakers that wake the same task may share one; calling \<open>wake\<close> appends to a
  log in the state. Backends,
  the frame factory, allocators and partial frames are parameters: records of functions on a state
  of their own. A parameter may also fail or be pending at any time; its contract
  (\<open>read_file_contract\<close>, \<open>write_file_contract\<close>, \<open>frame_contract\<close>) restates the documentation of the
  trait, and only the properties about the data assume it. In the same way the files, timers and
  sockets of tokio and the directory are records of functions (\<open>tokio\<close>, \<open>socket\<close>, \<open>directory\<close>), whose
  documented behaviour is \<open>written_files\<close>, \<open>read_files\<close>, \<open>received_stream\<close> and \<open>sent_stream\<close>. An \<open>async\<close>
  function returns an option, where \<open>None\<close> is a call that panics or does not return.

  Awaiting (\<open>await\<close>) polls again only after a wake-up. Every poll gets a waker of its own, so that a
  wake-up counts only for the last poll, as \<open>Future::poll\<close> documents; a future that is pending when
  neither a log of wake-ups holds that waker nor the runtime holds it for a timer, a file or the
  socket (\<open>tk_sleep_wakes\<close>, \<open>tk_opened_wakes\<close>, \<open>tk_file_wakes\<close>, \<open>so_wakes\<close>, \<open>so_write_wakes\<close>) is never
  polled again, and the call is \<open>None\<close>. That the transfers do return is proved when everything
  awaited is pending only so often in a row (\<open>prompt_files\<close>, \<open>prompt_receiver\<close>, \<open>prompt_sender\<close>) and
  takes the waker each time (\<open>waking_files\<close>, \<open>waking_receiver\<close>, \<open>waking_sender\<close>); it rests on the
  results on pending polls of both schedulers, so a wake-up that they lose breaks it.

  Theories, in the order of the code:
  \<^item> \<open>Carbon_Prelude\<close>, \<open>Carbon_Error\<close>, \<open>Carbon_Config\<close>: the shared vocabulary with the word lemmas,
    the error types with their texts and sources, the window and its validation.
  \<^item> \<open>Carbon_Budget\<close>: budget, requests and permits. The requests live in a store, since permits and
    the queue share them through \<open>Arc\<close> and \<open>Weak\<close>; a critical section is one step.
    \<open>Budget_Invariant\<close> shows that every operation keeps \<open>budget_inv\<close> (each frame accounted for once,
    the queue exact and quiescent), \<open>Budget_Pool\<close> closes it over all interleavings of permits
    (\<open>pool_step\<close>, \<open>pool_reachable\<close>), \<open>Budget_Properties\<close> states the results, and \<open>Pool_Client\<close> is the
    view of one permit among others that both schedulers use.
  \<^item> \<open>Carbon_Traits\<close>: the backend traits, their contracts, the locales \<open>read_backend\<close> and
    \<open>write_backend\<close>, and the forwarding implementations for \<open>Pin\<close>. \<open>Memory_Source\<close> and
    \<open>Memory_Destination\<close> interpret them on the backends of the memory example.
  \<^item> \<open>Read_Scheduler\<close>: all of \<open>ReadScheduler\<close>. \<open>Read_Layout\<close> relates cells to the stream of declared
    frames, \<open>Read_Invariant\<close> proves that every operation keeps \<open>rs_inv\<close>, \<open>Read_Run\<close> closes it over runs
    on a shared budget, \<open>Read_Order\<close> is the refinement to the stream, \<open>Read_Buffers\<close> counts buffers,
    \<open>Read_Retries\<close> counts failed openings, \<open>Read_Wakeup\<close> shows who is woken and bounds the polls,
    \<open>Read_Phase\<close> follows each file through its frames, and \<open>Read_Progress\<close> shows that a pending read
    of patient files (locale \<open>patient_reads\<close>) has less left to do; \<open>Read_Properties\<close> states the results.
  \<^item> \<open>Write_Frames\<close>, \<open>Write_Scheduler\<close>, \<open>Write_Operations\<close>: all of \<open>WriteScheduler\<close>, from the byte
    frames and the replay buffer to the operations of \<open>AsyncFilesWrite\<close>. \<open>Write_Invariant\<close> holds the
    invariant \<open>ws_inv\<close> and one poll of a destination, \<open>Write_Drive\<close> lifts relations over a drive (locale
    \<open>drive_relation\<close>), \<open>Write_Steps\<close>, \<open>Write_Poll\<close>, \<open>Write_Queue\<close> and \<open>Write_Close\<close> give the outcome of
    every branch of the operations, \<open>Write_Run\<close> closes them over runs, \<open>Write_Order\<close> is the refinement
    to segments of the input (locale \<open>write_pipeline\<close>), \<open>Write_Wakeup\<close>, \<open>Write_Retries\<close> and
    \<open>Write_Account\<close> treat wakers, failures and capacity, \<open>Write_Polls\<close> logs which destinations a
    drive polls, turn by turn, \<open>Write_Labels\<close> shows that results come back in
    the order of their destinations, and \<open>Write_Progress\<close> that a pending write or close of patient
    destinations (locale \<open>patient\<close>) has less left to do; \<open>Write_Properties\<close> states the results.
  \<^item> \<open>Copy_Properties\<close> composes the two schedulers.
  \<^item> The TCP example. \<open>File_Segment\<close> is \<open>Segment\<close>; \<open>Segment_Contract\<close> proves that it keeps both traits'
    contracts (locales \<open>output_files\<close>, \<open>input_files\<close>, \<open>segment_reads\<close>) and \<open>Segment_Progress\<close> that it is
    patient (locale \<open>prompt\<close>). \<open>Segment_Paths\<close> has the numbers, names and paths of segments and their
    order. \<open>Tcp_Transfer\<close> is \<open>config\<close>, \<open>next_segment\<close>, \<open>write_bytes\<close>, \<open>upload\<close> and \<open>download\<close>; the
    constants are a record \<open>geometry\<close>, so that examples can be small. \<open>Async_Rules\<close> has the rules for
    its calls (\<open>achieves\<close>), \<open>Tcp_Upload\<close> and \<open>Tcp_Stored\<close> follow the upload (locale \<open>upload_env\<close>),
    \<open>Tcp_Listing\<close>, \<open>Tcp_Download\<close> and \<open>Tcp_Sent\<close> the download (locale \<open>download_env\<close>), \<open>Tcp_Kept\<close>
    composes them over the directory. \<open>Memory_Files\<close> is an instance in memory of all parameters, on
    which \<open>Tcp_Properties\<close> interprets the locales; it states the results.

  Bounds and termination. The driving loops are recursive functions whose measure is the number of
  operations left: \<open>max(256, files)\<close> backend polls in a read drive, \<open>256\<close> state changes in a write
  drive; a pass that makes progress uses one up, and a pass without progress ends the loop. So no
  fuel is needed, and every operation returns.

  The loops of the TCP example that await are \<open>partial_function\<close>s. They end because a pending poll
  decreases the work left (\<open>slots_work\<close>, \<open>reads_work\<close>: steps to go, then polls until the next), and
  because input and frames are finite.

  Not modelled. \<open>Debug\<close> formatting; \<open>Mutex\<close> poisoning (the code takes the content anyway); the
  address of a pinned object, which has no counterpart in a functional model; unlocking before
  waking, which only matters to the waker that is called. Of the TCP example, \<open>temporary_directory\<close>
  and \<open>main\<close>, which create a directory and accept connections one at a time; paths are ASCII, the sum
  of the listed sizes wraps as in a release build, and a task is polled again only after a wake-up
  that is due, never spuriously. The HTTP and pingora uploads are clients of an older interface
  and of network libraries. Tests and benchmarks are not modelled.
\<close>

end
